theory Spec2Isabelle
  imports Main "HOL-Library.Word" "HOL-Library.Multiset"
begin

text \<open>
  A shallow embedding of the bidirected graph store of \<^verbatim>\<open>src/vg.cpp\<close> (class \<^verbatim>\<open>VG\<close>):
  handles, the node and edge arrays with their indices, the adjacency lists on node
  sides, node division and concatenation, the perfect-path-neighbour test, handle
  iteration, re-orientation of a node and the unfolding of inversions.
\<close>

unbundle bit_operations_syntax

section \<open>Handles: node id and orientation packed in one 64-bit word\<close>

text \<open>
  \<^verbatim>\<open>id_t\<close> is a signed 64-bit integer and \<^verbatim>\<open>handle_t\<close> wraps an unsigned 64-bit
  integer (\<^verbatim>\<open>as_integer\<close>, \<^verbatim>\<open>as_handle\<close> are the identity on the bits). Node ids are
  kept as \<open>int\<close>; the conversion \<^verbatim>\<open>size_t handle = node_id\<close> is \<open>word_of_int\<close> and the
  conversion of the masked word back to \<^verbatim>\<open>id_t\<close> is \<open>sint\<close>.
\<close>

type_synonym id_t = int
type_synonym handle_t = "64 word"

text \<open>
  The two masks are declared in a header that is not among the sources. Their values
  follow the comment of \<^verbatim>\<open>VG::get_handle\<close>: "Handle is ID in low bits and orientation in
  high bit".
\<close>

definition HIGH_BIT :: "64 word" where
  "HIGH_BIT = push_bit 63 1"

definition LOW_BITS :: "64 word" where
  "LOW_BITS = NOT HIGH_BIT"

definition get_handle :: "id_t \<Rightarrow> bool \<Rightarrow> handle_t" where
  "get_handle node_id is_reverse =
     (let handle = (word_of_int node_id :: 64 word)
      in if is_reverse then handle OR HIGH_BIT else handle)"

definition get_id :: "handle_t \<Rightarrow> id_t" where
  "get_id handle = sint (handle AND LOW_BITS)"

definition get_is_reverse :: "handle_t \<Rightarrow> bool" where
  "get_is_reverse handle = (handle AND HIGH_BIT \<noteq> 0)"

definition flip :: "handle_t \<Rightarrow> handle_t" where
  "flip handle = handle XOR HIGH_BIT"

section \<open>Nodes, edges and node sides\<close>

text \<open>
  \<^verbatim>\<open>Node\<close> and \<^verbatim>\<open>Edge\<close> are the protobuf messages of the graph. An edge goes from the end
  of \<^verbatim>\<open>from\<close> (its start when \<^verbatim>\<open>from_start\<close>) to the start of \<^verbatim>\<open>to\<close> (its end when
  \<^verbatim>\<open>to_end\<close>).
\<close>

record Node =
  node_id :: id_t
  sequence :: string

record Edge =
  e_from :: id_t
  e_to :: id_t
  from_start :: bool
  to_end :: bool

text \<open>
  A \<^verbatim>\<open>NodeSide\<close> is a node id and the flag \<^verbatim>\<open>is_end\<close>. The class lives in a header that is
  not among the sources; what follows is taken from its uses in \<^verbatim>\<open>vg.cpp\<close>
  (\<^verbatim>\<open>sides_to\<close>, \<^verbatim>\<open>sides_from\<close>, \<^verbatim>\<open>get_edge\<close>, \<^verbatim>\<open>is_valid\<close>) and from the data model of the
  specification: an edge "is canonically represented by the lexicographic minimum of its
  two sides". Sides are ordered by node id, then start before end; \<^verbatim>\<open>minmax\<close> is
  \<^verbatim>\<open>std::minmax\<close>.
\<close>

type_synonym NodeSide = "id_t \<times> bool"

definition side_less :: "NodeSide \<Rightarrow> NodeSide \<Rightarrow> bool" where
  "side_less a b = (fst a < fst b \<or> (fst a = fst b \<and> \<not> snd a \<and> snd b))"

definition minmax :: "NodeSide \<Rightarrow> NodeSide \<Rightarrow> NodeSide \<times> NodeSide" where
  "minmax a b = (if side_less b a then (b, a) else (a, b))"

definition pair_from_edge :: "Edge \<Rightarrow> NodeSide \<times> NodeSide" where
  "pair_from_edge e = minmax (e_from e, \<not> from_start e) (e_to e, to_end e)"

text \<open>
  An adjacency entry \<open>(other, flip)\<close> on the start of a node leads to the end of \<open>other\<close>
  unless the relative orientation flips; an entry on the end of a node leads to the
  start of \<open>other\<close> unless it flips.
\<close>

definition pair_from_start_edge :: "id_t \<Rightarrow> id_t \<times> bool \<Rightarrow> NodeSide \<times> NodeSide" where
  "pair_from_start_edge start_id oriented_other =
     minmax (start_id, False) (fst oriented_other, \<not> snd oriented_other)"

definition pair_from_end_edge :: "id_t \<Rightarrow> id_t \<times> bool \<Rightarrow> NodeSide \<times> NodeSide" where
  "pair_from_end_edge end_id oriented_other =
     minmax (end_id, True) (fst oriented_other, snd oriented_other)"

text \<open>
  \<^verbatim>\<open>swap_remove(v, e)\<close> comes from a utility header that is not among the sources. By its
  name and its use in \<^verbatim>\<open>unindex_edge_by_node_sides\<close> it removes one occurrence of \<open>e\<close> from
  the vector by moving the last element into its place.
\<close>

fun swap_remove :: "'a list \<Rightarrow> 'a \<Rightarrow> 'a list" where
  "swap_remove [] e = []"
| "swap_remove (x # xs) e =
     (if x = e then (if xs = [] then [] else last xs # butlast xs)
      else x # swap_remove xs e)"

section \<open>The path collection\<close>

text \<open>
  A mapping of a path is the compact \<^verbatim>\<open>mapping_t\<close>: the node it is on and its orientation,
  the number of bases it covers as a perfect match, and its rank in the path.
\<close>

record mapping_t =
  m_node_id :: id_t
  m_is_reverse :: bool
  m_length :: int
  m_rank :: int

type_synonym ptr = nat

text \<open>
  Modelled from the spec: the class \<^verbatim>\<open>Paths\<close> (the path collection of section 4.2) is not
  among the sources; only its calls in \<^verbatim>\<open>vg.cpp\<close> are. A path is a named list of mappings.
  Every mapping object carries its address, since \<^verbatim>\<open>vg.cpp\<close> refers to mappings by pointer.
  The index of the mappings on a node (\<^verbatim>\<open>for_each_mapping_on_node\<close>) is read off the paths,
  path by path in the order of the collection and inside a path in list order.
\<close>

record Paths =
  path_list :: "(string \<times> (ptr \<times> mapping_t) list) list"
  next_mapping :: ptr

definition empty_paths :: Paths where
  "empty_paths = \<lparr>path_list = [], next_mapping = 0\<rparr>"

text \<open>Modelled from the spec: \<^verbatim>\<open>get_node_mapping_by_path_name(id)\<close>, the mappings on a node
  grouped by the name of their path; a path with no mapping on the node has no entry.\<close>

definition get_node_mapping_by_path_name ::
  "Paths \<Rightarrow> id_t \<Rightarrow> (string \<times> (ptr \<times> mapping_t) list) list" where
  "get_node_mapping_by_path_name ps i =
     filter (\<lambda>(name, ms). ms \<noteq> [])
       (map (\<lambda>(name, ms). (name, filter (\<lambda>(p, m). m_node_id m = i) ms)) (path_list ps))"

text \<open>Modelled from the spec: \<^verbatim>\<open>of_node(id)\<close>, the set of names of the paths that have a
  mapping on the node.\<close>

definition of_node :: "Paths \<Rightarrow> id_t \<Rightarrow> string set" where
  "of_node ps i = set (map fst (get_node_mapping_by_path_name ps i))"

text \<open>Modelled from the spec: \<^verbatim>\<open>has_node_mapping(id)\<close>.\<close>

definition has_node_mapping :: "Paths \<Rightarrow> id_t \<Rightarrow> bool" where
  "has_node_mapping ps i = (get_node_mapping_by_path_name ps i \<noteq> [])"

text \<open>Modelled from the spec: \<^verbatim>\<open>mapping_path_name(m)\<close>, the name of the path that holds the
  mapping object at address \<open>p\<close>.\<close>

definition mapping_path_name :: "Paths \<Rightarrow> ptr \<Rightarrow> string option" where
  "mapping_path_name ps p =
     (case filter (\<lambda>(name, ms). p \<in> fst ` set ms) (path_list ps) of
        [] \<Rightarrow> None
      | (name, ms) # _ \<Rightarrow> Some name)"

text \<open>Position of the first element with address \<open>p\<close> in a path.\<close>

fun index_of :: "ptr \<Rightarrow> (ptr \<times> mapping_t) list \<Rightarrow> nat" where
  "index_of p [] = 0"
| "index_of p (x # xs) = (if fst x = p then 0 else Suc (index_of p xs))"

text \<open>Modelled from the spec: \<^verbatim>\<open>remove_mapping(m)\<close> takes the mapping out of its path and
  returns the position that followed it (the iterator after the erased element). A
  mapping that is in no path leaves the collection as it is.\<close>

definition remove_mapping :: "Paths \<Rightarrow> ptr \<Rightarrow> Paths \<times> nat" where
  "remove_mapping ps p =
     (case mapping_path_name ps p of
        None \<Rightarrow> (ps, 0)
      | Some name \<Rightarrow>
          (ps\<lparr>path_list :=
               map (\<lambda>(n, ms). if n = name then (n, filter (\<lambda>(q, m). q \<noteq> p) ms) else (n, ms))
                 (path_list ps)\<rparr>,
           (case map_of (path_list ps) name of None \<Rightarrow> 0 | Some ms \<Rightarrow> index_of p ms)))"

text \<open>Modelled from the spec: \<^verbatim>\<open>insert_mapping(name, before, mapping)\<close> puts a copy of the
  mapping before position \<open>w\<close> of the path and returns the position of the copy.\<close>

definition insert_mapping :: "Paths \<Rightarrow> nat \<Rightarrow> string \<Rightarrow> mapping_t \<Rightarrow> Paths \<times> nat" where
  "insert_mapping ps w name m =
     (ps\<lparr>path_list :=
          map (\<lambda>(n, ms). if n = name then (n, take w ms @ [(next_mapping ps, m)] @ drop w ms)
                          else (n, ms))
            (path_list ps),
         next_mapping := Suc (next_mapping ps)\<rparr>, w)"

text \<open>Modelled from the spec: \<^verbatim>\<open>append_mapping(name, mapping)\<close> puts a copy of the mapping at
  the end of the path, which it creates when there is none of that name.\<close>

definition append_mapping :: "Paths \<Rightarrow> string \<Rightarrow> mapping_t \<Rightarrow> Paths" where
  "append_mapping ps name m =
     (if name \<in> fst ` set (path_list ps)
      then ps\<lparr>path_list :=
               map (\<lambda>(n, ms). if n = name then (n, ms @ [(next_mapping ps, m)]) else (n, ms))
                 (path_list ps),
              next_mapping := Suc (next_mapping ps)\<rparr>
      else ps\<lparr>path_list := path_list ps @ [(name, [(next_mapping ps, m)])],
              next_mapping := Suc (next_mapping ps)\<rparr>)"

text \<open>Modelled from the spec: \<^verbatim>\<open>cut_mapping(m, offset)\<close>, the \<^verbatim>\<open>divide_mapping\<close> of section
  4.2 for a perfect match: two mappings whose lengths sum to the original's; both keep its
  node, orientation and rank.\<close>

definition cut_mapping :: "mapping_t \<Rightarrow> int \<Rightarrow> mapping_t \<times> mapping_t" where
  "cut_mapping m offset = (m\<lparr>m_length := offset\<rparr>, m\<lparr>m_length := m_length m - offset\<rparr>)"

section \<open>The graph store\<close>

text \<open>
  \<^verbatim>\<open>graph.node\<close> and \<^verbatim>\<open>graph.edge\<close> are repeated pointer fields: arrays of pointers to
  heap objects, where \<^verbatim>\<open>SwapElements\<close> swaps two pointers and \<^verbatim>\<open>ReleaseLast\<close> takes the
  last one out. Each array is a list of objects tagged with their address; the indices
  that are keyed by \<^verbatim>\<open>Node*\<close> and \<^verbatim>\<open>Edge*\<close> are keyed by the address. \<open>next_ptr\<close> is the
  allocator: the address of the next object. Hash maps are partial functions.
\<close>

record VG =
  graph_node :: "(ptr \<times> Node) list"
  graph_edge :: "(ptr \<times> Edge) list"
  node_by_id :: "id_t \<rightharpoonup> ptr"
  node_index :: "ptr \<rightharpoonup> nat"
  edge_by_sides :: "NodeSide \<times> NodeSide \<rightharpoonup> ptr"
  edge_index :: "ptr \<rightharpoonup> nat"
  edges_on_start :: "id_t \<rightharpoonup> (id_t \<times> bool) list"
  edges_on_end :: "id_t \<rightharpoonup> (id_t \<times> bool) list"
  current_id :: id_t
  next_ptr :: ptr
  paths :: Paths

text \<open>
  The ways an operation can fail: \<^verbatim>\<open>get_node\<close> throws "No node ... in graph", an
  \<^verbatim>\<open>assert\<close> fails, \<^verbatim>\<open>divide_node\<close> prints "cannot divide node ..." with the id and the
  position and exits, or the C++ has no defined behaviour (a pointer to no live object, an
  array index out of range).
\<close>

datatype error = NoNode id_t | AssertionFailed | CannotDivide id_t int | Undefined

text \<open>\<^verbatim>\<open>VG::init\<close> on an empty graph.\<close>

definition init :: VG where
  "init = \<lparr>graph_node = [], graph_edge = [], node_by_id = Map.empty, node_index = Map.empty,
           edge_by_sides = Map.empty, edge_index = Map.empty, edges_on_start = Map.empty,
           edges_on_end = Map.empty, current_id = 1, next_ptr = 0, paths = empty_paths\<rparr>"

definition deref_node :: "VG \<Rightarrow> ptr \<Rightarrow> Node option" where
  "deref_node g p = map_of (graph_node g) p"

definition deref_edge :: "VG \<Rightarrow> ptr \<Rightarrow> Edge option" where
  "deref_edge g p = map_of (graph_edge g) p"

definition has_node :: "VG \<Rightarrow> id_t \<Rightarrow> bool" where
  "has_node g i = (node_by_id g i \<noteq> None)"

definition get_node :: "VG \<Rightarrow> id_t \<Rightarrow> error + ptr" where
  "get_node g i = (case node_by_id g i of Some n \<Rightarrow> Inr n | None \<Rightarrow> Inl (NoNode i))"

definition edges_start :: "VG \<Rightarrow> id_t \<Rightarrow> (id_t \<times> bool) list" where
  "edges_start g i = (case edges_on_start g i of None \<Rightarrow> [] | Some es \<Rightarrow> es)"

definition edges_end :: "VG \<Rightarrow> id_t \<Rightarrow> (id_t \<times> bool) list" where
  "edges_end g i = (case edges_on_end g i of None \<Rightarrow> [] | Some es \<Rightarrow> es)"

definition max_node_id :: "VG \<Rightarrow> id_t" where
  "max_node_id g =
     fold (\<lambda>(p, n) max_id. if node_id n > max_id then node_id n else max_id) (graph_node g) 0"

subsection \<open>Creating nodes\<close>

text \<open>\<^verbatim>\<open>create_node(seq, id)\<close>: the node is appended to the array and both node indices
  are set, whatever they held for the id before.\<close>

definition create_node_id :: "VG \<Rightarrow> string \<Rightarrow> id_t \<Rightarrow> error + (VG \<times> ptr)" where
  "create_node_id g seq i =
     (if i = 0 then Inl AssertionFailed
      else
        let node = next_ptr g;
            g1 = g\<lparr>graph_node := graph_node g @ [(node, \<lparr>node_id = i, sequence = seq\<rparr>)],
                   next_ptr := Suc (next_ptr g)\<rparr>;
            g2 = g1\<lparr>node_by_id := (node_by_id g1)(i \<mapsto> node)\<rparr>;
            g3 = g2\<lparr>node_index := (node_index g2)(node \<mapsto> length (graph_node g2) - 1)\<rparr>
        in Inr (g3, node))"

text \<open>
  Sums of ids are taken in \<^verbatim>\<open>id_t\<close>, a signed 64-bit integer: the result is the value
  of the low 64 bits in two's complement, so one more than the largest id is the
  smallest.
\<close>

definition int64 :: "int \<Rightarrow> int" where
  "int64 x = sint (word_of_int x :: 64 word)"

text \<open>\<^verbatim>\<open>create_node(seq)\<close>: the id is the counter \<^verbatim>\<open>current_id\<close>, which is first set to
  \<^verbatim>\<open>max_node_id() + 1\<close> when it still holds its initial value 1, and is incremented
  (\<^verbatim>\<open>current_id++\<close>).\<close>

definition create_node :: "VG \<Rightarrow> string \<Rightarrow> error + (VG \<times> ptr)" where
  "create_node g seq =
     (let g1 = (if current_id g = 1 then g\<lparr>current_id := int64 (max_node_id g + 1)\<rparr> else g);
          i = current_id g1;
          g2 = g1\<lparr>current_id := int64 (i + 1)\<rparr>
      in create_node_id g2 seq i)"

subsection \<open>The edge indices\<close>

definition get_edge :: "VG \<Rightarrow> NodeSide \<Rightarrow> NodeSide \<Rightarrow> ptr option" where
  "get_edge g side1 side2 = edge_by_sides g (minmax side1 side2)"

text \<open>\<^verbatim>\<open>has_edge(const Edge&)\<close>.\<close>

definition has_edge :: "VG \<Rightarrow> Edge \<Rightarrow> bool" where
  "has_edge g e = (edge_by_sides g (pair_from_edge e) \<noteq> None)"

text \<open>Writing an adjacency list back: an empty list is erased from the map.\<close>

definition store_ends :: "(id_t \<rightharpoonup> (id_t \<times> bool) list) \<Rightarrow> id_t \<Rightarrow> (id_t \<times> bool) list
    \<Rightarrow> (id_t \<rightharpoonup> (id_t \<times> bool) list)" where
  "store_ends m i es = (if es = [] then m(i := None) else m(i \<mapsto> es))"

definition index_edge_by_node_sides :: "VG \<Rightarrow> ptr \<Rightarrow> Edge \<Rightarrow> VG" where
  "index_edge_by_node_sides g edge e =
     (let g1 = g\<lparr>edge_by_sides := (edge_by_sides g)(pair_from_edge e \<mapsto> edge)\<rparr>;
          relative_orientation = (from_start e \<noteq> to_end e);
          g2 = (if from_start e
                then g1\<lparr>edges_on_start := (edges_on_start g1)
                         (e_from e \<mapsto> edges_start g1 (e_from e) @ [(e_to e, relative_orientation)])\<rparr>
                else g1\<lparr>edges_on_end := (edges_on_end g1)
                         (e_from e \<mapsto> edges_end g1 (e_from e) @ [(e_to e, relative_orientation)])\<rparr>)
      in if e_from e \<noteq> e_to e \<or> from_start e = to_end e
         then (if to_end e
               then g2\<lparr>edges_on_end := (edges_on_end g2)
                        (e_to e \<mapsto> edges_end g2 (e_to e) @ [(e_from e, relative_orientation)])\<rparr>
               else g2\<lparr>edges_on_start := (edges_on_start g2)
                        (e_to e \<mapsto> edges_start g2 (e_to e) @ [(e_from e, relative_orientation)])\<rparr>)
         else g2)"

definition unindex_edge_by_node_sides :: "VG \<Rightarrow> Edge \<Rightarrow> VG" where
  "unindex_edge_by_node_sides g e =
     (if \<not> has_edge g e then g
      else
        let g1 = g\<lparr>edge_by_sides := (edge_by_sides g)(pair_from_edge e := None)\<rparr>;
            relative_orientation = (from_start e \<noteq> to_end e);
            g2 = (if from_start e
                  then g1\<lparr>edges_on_start := store_ends (edges_on_start g1) (e_from e)
                           (swap_remove (edges_start g1 (e_from e)) (e_to e, relative_orientation))\<rparr>
                  else g1\<lparr>edges_on_end := store_ends (edges_on_end g1) (e_from e)
                           (swap_remove (edges_end g1 (e_from e)) (e_to e, relative_orientation))\<rparr>)
        in if e_from e \<noteq> e_to e \<or> from_start e = to_end e
           then (if to_end e
                 then g2\<lparr>edges_on_end := store_ends (edges_on_end g2) (e_to e)
                          (swap_remove (edges_end g2 (e_to e)) (e_from e, relative_orientation))\<rparr>
                 else g2\<lparr>edges_on_start := store_ends (edges_on_start g2) (e_to e)
                          (swap_remove (edges_start g2 (e_to e)) (e_from e, relative_orientation))\<rparr>)
           else g2)"

text \<open>\<^verbatim>\<open>set_edge\<close>: index the edge unless an edge between its sides is indexed.\<close>

definition set_edge :: "VG \<Rightarrow> ptr \<Rightarrow> Edge \<Rightarrow> VG" where
  "set_edge g edge e = (if \<not> has_edge g e then index_edge_by_node_sides g edge e else g)"

subsection \<open>Creating and destroying edges\<close>

text \<open>\<^verbatim>\<open>create_edge(from, to, from_start, to_end)\<close> returns the edge between the two sides
  when there is one, and otherwise appends a new edge and indexes it.\<close>

definition create_edge :: "VG \<Rightarrow> id_t \<Rightarrow> id_t \<Rightarrow> bool \<Rightarrow> bool \<Rightarrow> VG \<times> ptr" where
  "create_edge g from to fs te =
     (case get_edge g (from, \<not> fs) (to, te) of
        Some edge \<Rightarrow> (g, edge)
      | None \<Rightarrow>
          let edge = next_ptr g;
              e = \<lparr>e_from = from, e_to = to, from_start = fs, to_end = te\<rparr>;
              g1 = g\<lparr>graph_edge := graph_edge g @ [(edge, e)], next_ptr := Suc (next_ptr g)\<rparr>;
              g2 = set_edge g1 edge e;
              g3 = g2\<lparr>edge_index := (edge_index g2)(edge \<mapsto> length (graph_edge g2) - 1)\<rparr>
          in (g3, edge))"

text \<open>\<^verbatim>\<open>create_edge(NodeSide, NodeSide)\<close>.\<close>

definition create_edge_sides :: "VG \<Rightarrow> NodeSide \<Rightarrow> NodeSide \<Rightarrow> VG \<times> ptr" where
  "create_edge_sides g side1 side2 =
     create_edge g (fst side1) (fst side2) (\<not> snd side1) (snd side2)"

text \<open>\<^verbatim>\<open>SwapElements(i, j)\<close> of a repeated field.\<close>

definition swap_elements :: "'a list \<Rightarrow> nat \<Rightarrow> nat \<Rightarrow> 'a list" where
  "swap_elements xs i j = xs[i := xs ! j, j := xs ! i]"

text \<open>
  \<^verbatim>\<open>destroy_edge(Edge*)\<close>; a null pointer is \<open>None\<close>. The edge is taken out of the side
  indices, the last edge of the array is moved into its slot, and the array loses its last
  element. \<^verbatim>\<open>edge_index[edge]\<close> on a pointer that is not a key reads 0.
\<close>

definition destroy_edge :: "VG \<Rightarrow> ptr option \<Rightarrow> error + VG" where
  "destroy_edge g edge_opt =
     (case edge_opt of
        None \<Rightarrow> Inr g
      | Some edge \<Rightarrow>
         (case deref_edge g edge of
            None \<Rightarrow> Inl Undefined
          | Some e \<Rightarrow>
             if \<not> has_edge g e then Inr g
             else
               let g1 = unindex_edge_by_node_sides g e;
                   lei = length (graph_edge g1) - 1;
                   tei = (case edge_index g1 edge of None \<Rightarrow> 0 | Some i \<Rightarrow> i);
                   g2 = g1\<lparr>edge_index := (edge_index g1)(edge := None)\<rparr>
               in if lei \<noteq> tei
                  then
                    if tei \<ge> length (graph_edge g2) then Inl Undefined
                    else
                      let last_e = graph_edge g2 ! lei;
                          g3 = g2\<lparr>edge_index := (edge_index g2)(fst last_e := None)\<rparr>;
                          g4 = g3\<lparr>graph_edge := swap_elements (graph_edge g3) tei lei\<rparr>;
                          nlast = graph_edge g4 ! tei;
                          g5 = g4\<lparr>edge_index := (edge_index g4)(fst nlast \<mapsto> tei)\<rparr>;
                          g6 = set_edge g5 (fst nlast) (snd nlast)
                      in Inr (g6\<lparr>graph_edge := butlast (graph_edge g6)\<rparr>)
                  else Inr (g2\<lparr>graph_edge := butlast (graph_edge g2)\<rparr>)))"

text \<open>\<^verbatim>\<open>destroy_edge(NodeSide, NodeSide)\<close>.\<close>

definition destroy_edge_sides :: "VG \<Rightarrow> NodeSide \<times> NodeSide \<Rightarrow> error + VG" where
  "destroy_edge_sides g sides = destroy_edge g (get_edge g (fst sides) (snd sides))"

subsection \<open>Destroying nodes\<close>

text \<open>\<^verbatim>\<open>std::set::insert\<close> on a set kept as an ascending list without duplicates.\<close>

fun set_insert :: "('a \<Rightarrow> 'a \<Rightarrow> bool) \<Rightarrow> 'a \<Rightarrow> 'a list \<Rightarrow> 'a list" where
  "set_insert lt x [] = [x]"
| "set_insert lt x (y # ys) =
     (if x = y then y # ys
      else if lt x y then x # y # ys
      else y # set_insert lt x ys)"

text \<open>The order of \<^verbatim>\<open>pair<NodeSide, NodeSide>\<close>: lexicographic.\<close>

definition sides_less :: "NodeSide \<times> NodeSide \<Rightarrow> NodeSide \<times> NodeSide \<Rightarrow> bool" where
  "sides_less a b = (side_less (fst a) (fst b) \<or> (fst a = fst b \<and> side_less (snd a) (snd b)))"

text \<open>Running a failing step over a list, stopping at the first failure.\<close>

fun fold_err :: "('s \<Rightarrow> 'a \<Rightarrow> error + 's) \<Rightarrow> 's \<Rightarrow> 'a list \<Rightarrow> error + 's" where
  "fold_err f s [] = Inr s"
| "fold_err f s (x # xs) = (case f s x of Inl err \<Rightarrow> Inl err | Inr s' \<Rightarrow> fold_err f s' xs)"

text \<open>
  \<^verbatim>\<open>destroy_node(Node*)\<close>: every edge listed on the start or the end of the node is
  destroyed, both adjacency lists of the node are erased, the last node of the array is
  moved into the node's slot and the array loses its last element. The path collection
  is not touched.
\<close>

definition destroy_node :: "VG \<Rightarrow> ptr \<Rightarrow> error + VG" where
  "destroy_node g node =
     (case deref_node g node of
        None \<Rightarrow> Inl Undefined
      | Some n \<Rightarrow>
         if \<not> has_node g (node_id n) then Inr g
         else
           let edges_to_destroy =
                 fold (\<lambda>other_end acc. set_insert sides_less (pair_from_end_edge (node_id n) other_end) acc)
                   (edges_end g (node_id n))
                   (fold (\<lambda>other_end acc. set_insert sides_less (pair_from_start_edge (node_id n) other_end) acc)
                      (edges_start g (node_id n)) [])
           in case fold_err destroy_edge_sides g edges_to_destroy of
                Inl err \<Rightarrow> Inl err
              | Inr g1 \<Rightarrow>
                 let g2 = g1\<lparr>edges_on_start := (edges_on_start g1)(node_id n := None),
                            edges_on_end := (edges_on_end g1)(node_id n := None)\<rparr>;
                     lni = length (graph_node g2) - 1;
                     tni = (case node_index g2 node of None \<Rightarrow> 0 | Some i \<Rightarrow> i)
                 in if lni \<noteq> tni
                    then
                      if tni \<ge> length (graph_node g2) then Inl Undefined
                      else
                        let last_n = graph_node g2 ! lni;
                            g3 = g2\<lparr>graph_node := swap_elements (graph_node g2) tni lni\<rparr>;
                            nlast = graph_node g3 ! tni;
                            g4 = g3\<lparr>node_by_id := (node_by_id g3)(node_id (snd last_n) \<mapsto> fst nlast)\<rparr>;
                            g5 = g4\<lparr>node_index := (node_index g4)(fst last_n := None)\<rparr>;
                            g6 = g5\<lparr>node_index := (node_index g5)(fst nlast \<mapsto> tni)\<rparr>;
                            g7 = g6\<lparr>node_by_id := (node_by_id g6)(node_id n := None)\<rparr>;
                            g8 = g7\<lparr>node_index := (node_index g7)(node := None)\<rparr>
                        in Inr (g8\<lparr>graph_node := butlast (graph_node g8)\<rparr>)
                    else
                      let g7 = g2\<lparr>node_by_id := (node_by_id g2)(node_id n := None)\<rparr>;
                          g8 = g7\<lparr>node_index := (node_index g7)(node := None)\<rparr>
                      in Inr (g8\<lparr>graph_node := butlast (graph_node g8)\<rparr>))"

text \<open>\<^verbatim>\<open>destroy_node(id_t)\<close>: \<^verbatim>\<open>get_node\<close> throws when the id has no node.\<close>

definition destroy_node_id :: "VG \<Rightarrow> id_t \<Rightarrow> error + VG" where
  "destroy_node_id g i =
     (case get_node g i of Inl err \<Rightarrow> Inl err | Inr node \<Rightarrow> destroy_node g node)"

section \<open>The handle interface\<close>

text \<open>
  Modelled from the spec: \<^verbatim>\<open>reverse_complement\<close> is a utility that is not among the
  sources. Sequences are over A, C, G, T and N; a reverse traversal reads the reverse
  complement. Any other character is read as N.
\<close>

definition complement :: "char \<Rightarrow> char" where
  "complement c =
     (if c = CHR ''A'' then CHR ''T''
      else if c = CHR ''T'' then CHR ''A''
      else if c = CHR ''C'' then CHR ''G''
      else if c = CHR ''G'' then CHR ''C''
      else CHR ''N'')"

definition reverse_complement :: "string \<Rightarrow> string" where
  "reverse_complement seq = rev (map complement seq)"

definition get_sequence :: "VG \<Rightarrow> handle_t \<Rightarrow> error + string" where
  "get_sequence g handle =
     (case node_by_id g (get_id handle) of
        None \<Rightarrow> Inl (NoNode (get_id handle))
      | Some found \<Rightarrow>
         (case deref_node g found of
            None \<Rightarrow> Inl Undefined
          | Some n \<Rightarrow>
             if handle AND HIGH_BIT \<noteq> 0 then Inr (reverse_complement (sequence n))
             else Inr (sequence n)))"

text \<open>
  \<^verbatim>\<open>follow_edges\<close>: the iteratee is called on the handle at the other end of every edge
  on the chosen side, until it returns false. The iteratee threads a state \<open>'s\<close>, which
  stands for whatever the C++ closure captures.
\<close>

fun follow_edges_loop ::
  "(handle_t \<Rightarrow> 's \<Rightarrow> bool \<times> 's) \<Rightarrow> bool \<Rightarrow> (id_t \<times> bool) list \<Rightarrow> 's \<Rightarrow> bool \<times> 's" where
  "follow_edges_loop iteratee is_reverse [] s = (True, s)"
| "follow_edges_loop iteratee is_reverse (id_and_flip # rest) s =
     (let new_reverse = (is_reverse \<noteq> snd id_and_flip);
          (continue, s') = iteratee (get_handle (fst id_and_flip) new_reverse) s
      in if \<not> continue then (False, s')
         else follow_edges_loop iteratee is_reverse rest s')"

definition follow_edges ::
  "VG \<Rightarrow> handle_t \<Rightarrow> bool \<Rightarrow> (handle_t \<Rightarrow> 's \<Rightarrow> bool \<times> 's) \<Rightarrow> 's \<Rightarrow> bool \<times> 's" where
  "follow_edges g handle go_left iteratee s =
     (let is_reverse = get_is_reverse handle;
          edge_set = (if go_left \<noteq> is_reverse then edges_on_start g else edges_on_end g)
      in case edge_set (get_id handle) of
           None \<Rightarrow> (True, s)
         | Some found \<Rightarrow> follow_edges_loop iteratee is_reverse found s)"

text \<open>
  \<^verbatim>\<open>for_each_handle\<close>. The serial loop returns as soon as the iteratee returns false. The
  parallel loop is an OpenMP \<^verbatim>\<open>parallel for\<close> with a dynamic schedule: every index of the
  node array is run once, in an order that the run time picks; \<open>schedule\<close> is that order.
  Its body ignores what the iteratee returns (the \<^verbatim>\<open>return\<close> is commented out).
\<close>

fun for_each_handle_serial ::
  "(handle_t \<Rightarrow> 's \<Rightarrow> bool \<times> 's) \<Rightarrow> (ptr \<times> Node) list \<Rightarrow> 's \<Rightarrow> 's" where
  "for_each_handle_serial iteratee [] s = s"
| "for_each_handle_serial iteratee (n # rest) s =
     (let (continue, s') = iteratee (get_handle (node_id (snd n)) False) s
      in if \<not> continue then s' else for_each_handle_serial iteratee rest s')"

fun for_each_handle_parallel ::
  "(handle_t \<Rightarrow> 's \<Rightarrow> bool \<times> 's) \<Rightarrow> (ptr \<times> Node) list \<Rightarrow> nat list \<Rightarrow> 's \<Rightarrow> 's" where
  "for_each_handle_parallel iteratee nodes [] s = s"
| "for_each_handle_parallel iteratee nodes (i # rest) s =
     (let (continue, s') = iteratee (get_handle (node_id (snd (nodes ! i))) False) s
      in for_each_handle_parallel iteratee nodes rest s')"

definition for_each_handle ::
  "VG \<Rightarrow> (handle_t \<Rightarrow> 's \<Rightarrow> bool \<times> 's) \<Rightarrow> bool \<Rightarrow> nat list \<Rightarrow> 's \<Rightarrow> 's" where
  "for_each_handle g iteratee parallel schedule s =
     (if parallel then for_each_handle_parallel iteratee (graph_node g) schedule s
      else for_each_handle_serial iteratee (graph_node g) s)"

text \<open>A schedule of the parallel loop over \<open>n\<close> nodes runs each index below \<open>n\<close> once.\<close>

definition is_schedule :: "nat \<Rightarrow> nat list \<Rightarrow> bool" where
  "is_schedule n schedule = (distinct schedule \<and> set schedule = {0..<n})"

text \<open>\<^verbatim>\<open>destroy_handle\<close>, \<^verbatim>\<open>create_edge\<close> and \<^verbatim>\<open>destroy_edge\<close> on handles.\<close>

definition destroy_handle :: "VG \<Rightarrow> handle_t \<Rightarrow> error + VG" where
  "destroy_handle g handle = destroy_node_id g (get_id handle)"

definition create_edge_handles :: "VG \<Rightarrow> handle_t \<Rightarrow> handle_t \<Rightarrow> error + VG" where
  "create_edge_handles g left right =
     (case get_node g (get_id left) of
        Inl err \<Rightarrow> Inl err
      | Inr from_node \<Rightarrow>
         (case get_node g (get_id right) of
            Inl err \<Rightarrow> Inl err
          | Inr to_node \<Rightarrow>
             (case (deref_node g from_node, deref_node g to_node) of
                (Some nf, Some nt) \<Rightarrow>
                  Inr (fst (create_edge g (node_id nf) (node_id nt)
                              (get_is_reverse left) (get_is_reverse right)))
              | _ \<Rightarrow> Inl Undefined)))"

definition destroy_edge_handles :: "VG \<Rightarrow> handle_t \<Rightarrow> handle_t \<Rightarrow> error + VG" where
  "destroy_edge_handles g left right =
     (case get_edge g (get_id left, \<not> get_is_reverse left) (get_id right, get_is_reverse right) of
        None \<Rightarrow> Inr g
      | Some found \<Rightarrow> destroy_edge g (Some found))"

text \<open>The iteratee of \<^verbatim>\<open>apply_orientation\<close>: push the handle, go on.\<close>

definition push_back_handle :: "handle_t \<Rightarrow> handle_t list \<Rightarrow> bool \<times> handle_t list" where
  "push_back_handle other acc = (True, acc @ [other])"

definition apply_orientation :: "VG \<Rightarrow> handle_t \<Rightarrow> error + (VG \<times> handle_t)" where
  "apply_orientation g handle =
     (if \<not> get_is_reverse handle then Inr (g, handle)
      else
        let rev_handle = flip handle;
            right_nodes = snd (follow_edges g handle False push_back_handle []);
            left_nodes = snd (follow_edges g handle True push_back_handle [])
        in case fold_err (\<lambda>g' left. destroy_edge_handles g' left handle) g left_nodes of
             Inl err \<Rightarrow> Inl err
           | Inr g1 \<Rightarrow>
          (case fold_err (\<lambda>g' right. destroy_edge_handles g' handle right) g1 right_nodes of
             Inl err \<Rightarrow> Inl err
           | Inr g2 \<Rightarrow>
          (case get_sequence g2 handle of
             Inl err \<Rightarrow> Inl err
           | Inr new_sequence \<Rightarrow>
          (let i = get_id handle
           in case destroy_handle g2 handle of
                Inl err \<Rightarrow> Inl err
              | Inr g3 \<Rightarrow>
             (case create_node_id g3 new_sequence i of
                Inl err \<Rightarrow> Inl err
              | Inr (g4, new_node) \<Rightarrow>
             (let new_handle = get_handle i False
              in case fold_err (\<lambda>g' left.
                        create_edge_handles g'
                          (if left = handle then flip new_handle
                           else if left = rev_handle then new_handle else left)
                          new_handle) g4 left_nodes of
                   Inl err \<Rightarrow> Inl err
                 | Inr g5 \<Rightarrow>
                (case fold_err (\<lambda>g' right.
                        create_edge_handles g' new_handle
                          (if right = handle then flip new_handle
                           else if right = rev_handle then new_handle else right))
                        g5 right_nodes of
                   Inl err \<Rightarrow> Inl err
                 | Inr g6 \<Rightarrow> Inr (g6, new_handle))))))))"

section \<open>Traversals, division and concatenation of nodes\<close>

text \<open>A \<^verbatim>\<open>NodeTraversal\<close> is a node pointer and the flag \<^verbatim>\<open>backward\<close>.\<close>

type_synonym NodeTraversal = "ptr \<times> bool"

fun map_err :: "('a \<Rightarrow> error + 'b) \<Rightarrow> 'a list \<Rightarrow> error + 'b list" where
  "map_err f [] = Inr []"
| "map_err f (x # xs) =
     (case f x of
        Inl err \<Rightarrow> Inl err
      | Inr y \<Rightarrow> (case map_err f xs of Inl err \<Rightarrow> Inl err | Inr ys \<Rightarrow> Inr (y # ys)))"

text \<open>Reading a node through its pointer.\<close>

definition node_at :: "VG \<Rightarrow> ptr \<Rightarrow> error + Node" where
  "node_at g node = (case deref_node g node of None \<Rightarrow> Inl Undefined | Some n \<Rightarrow> Inr n)"

definition nodes_prev :: "VG \<Rightarrow> NodeTraversal \<Rightarrow> error + NodeTraversal list" where
  "nodes_prev g trav =
     (case node_at g (fst trav) of
        Inl err \<Rightarrow> Inl err
      | Inr n \<Rightarrow>
         let left_nodes = (if snd trav then edges_end g (node_id n) else edges_start g (node_id n))
         in map_err (\<lambda>prev. case get_node g (fst prev) of
                               Inl err \<Rightarrow> Inl err
                             | Inr p \<Rightarrow> Inr (p, snd prev \<noteq> snd trav)) left_nodes)"

definition nodes_next :: "VG \<Rightarrow> NodeTraversal \<Rightarrow> error + NodeTraversal list" where
  "nodes_next g trav =
     (case node_at g (fst trav) of
        Inl err \<Rightarrow> Inl err
      | Inr n \<Rightarrow>
         let right_nodes = (if snd trav then edges_start g (node_id n) else edges_end g (node_id n))
         in map_err (\<lambda>next. case get_node g (fst next) of
                               Inl err \<Rightarrow> Inl err
                             | Inr p \<Rightarrow> Inr (p, snd next \<noteq> snd trav)) right_nodes)"

subsection \<open>Dividing a node\<close>

text \<open>
  \<^verbatim>\<open>std::string::substr(pos, n)\<close> for \<open>pos\<close> inside the string. The count is computed as an
  \<^verbatim>\<open>int\<close> and converted to \<^verbatim>\<open>size_t\<close>: a negative count becomes a huge one and takes the
  rest of the string.
\<close>

definition substr :: "string \<Rightarrow> int \<Rightarrow> int \<Rightarrow> string" where
  "substr seq pos n = (if n < 0 then drop (nat pos) seq else take (nat n) (drop (nat pos) seq))"

text \<open>The loop that makes the new nodes, one ending at each position and one with the
  rest of the sequence.\<close>

fun create_parts :: "VG \<Rightarrow> string \<Rightarrow> int \<Rightarrow> int list \<Rightarrow> error + (VG \<times> ptr list)" where
  "create_parts g seq last_pos [] =
     (case create_node g (drop (nat last_pos) seq) of
        Inl err \<Rightarrow> Inl err
      | Inr (g', last_node) \<Rightarrow> Inr (g', [last_node]))"
| "create_parts g seq last_pos (pos # rest) =
     (case create_node g (substr seq last_pos (pos - last_pos)) of
        Inl err \<Rightarrow> Inl err
      | Inr (g', new_node) \<Rightarrow>
         (case create_parts g' seq pos rest of
            Inl err \<Rightarrow> Inl err
          | Inr (g'', parts) \<Rightarrow> Inr (g'', new_node # parts)))"

text \<open>The adjacency entries of the old node, redirected: a self loop is moved to the
  first or the last new node.\<close>

definition redirect_start :: "id_t \<Rightarrow> id_t \<Rightarrow> id_t \<Rightarrow> id_t \<times> bool \<Rightarrow> id_t \<times> bool" where
  "redirect_start old front back e =
     (if fst e = old then (if snd e then (front, snd e) else (back, snd e)) else e)"

definition redirect_end :: "id_t \<Rightarrow> id_t \<Rightarrow> id_t \<Rightarrow> id_t \<times> bool \<Rightarrow> id_t \<times> bool" where
  "redirect_end old front back e =
     (if fst e = old then (if snd e then (back, snd e) else (front, snd e)) else e)"

text \<open>Connecting the new parts left to right, end to start.\<close>

fun connect_parts :: "VG \<Rightarrow> id_t list \<Rightarrow> VG" where
  "connect_parts g (a # b # rest) = connect_parts (fst (create_edge g a b False False)) (b # rest)"
| "connect_parts g _ = g"

text \<open>
  Cutting one mapping at the positions. A reverse mapping is cut from the other end of
  the node and the halves are swapped; each chunk is put on the next new node.
\<close>

fun cut_chunks :: "int \<Rightarrow> int list \<Rightarrow> id_t list \<Rightarrow> mapping_t \<Rightarrow> int \<Rightarrow> mapping_t list \<times> mapping_t" where
  "cut_chunks node_size (pos # rest) (part # parts) remainder local_offset =
     (let halves = (if m_is_reverse remainder
                    then prod.swap (cut_mapping remainder (node_size - pos))
                    else cut_mapping remainder (pos - local_offset));
          chunk = (fst halves)\<lparr>m_node_id := part\<rparr>;
          (chunks, final) = cut_chunks node_size rest parts (snd halves) pos
      in (chunk # chunks, final))"
| "cut_chunks node_size _ _ remainder local_offset = ([], remainder)"

text \<open>Putting the pieces where the old mapping was; each is inserted before the one
  inserted last.\<close>

fun insert_mappings :: "Paths \<Rightarrow> nat \<Rightarrow> string \<Rightarrow> mapping_t list \<Rightarrow> Paths" where
  "insert_mappings ps mpit path_name [] = ps"
| "insert_mappings ps mpit path_name (m # ms) =
     (let (ps', mpit') = insert_mapping ps mpit path_name m
      in insert_mappings ps' mpit' path_name ms)"

definition divide_mapping :: "int \<Rightarrow> int list \<Rightarrow> id_t list \<Rightarrow> Paths \<Rightarrow> ptr \<times> mapping_t \<Rightarrow> error + Paths" where
  "divide_mapping node_size positions part_ids ps pm =
     (case mapping_path_name ps (fst pm) of
        None \<Rightarrow> Inl Undefined
      | Some path_name \<Rightarrow>
         let (chunks, remainder) = cut_chunks node_size positions part_ids (snd pm) 0;
             mapping_parts = chunks @ [remainder\<lparr>m_node_id := last part_ids\<rparr>];
             is_rev = m_is_reverse (snd pm);
             (ps1, mpit) = remove_mapping ps (fst pm)
         in Inr (insert_mappings ps1 mpit path_name
                   (if is_rev then mapping_parts else rev mapping_parts)))"

text \<open>The edges of the old node are recreated on the outer sides of the first and the
  last new node, and the new nodes are chained.\<close>

definition move_edges :: "VG \<Rightarrow> id_t \<Rightarrow> id_t list \<Rightarrow> VG" where
  "move_edges g1 old part_ids =
     (let front = hd part_ids;
          back = last part_ids;
          edges_to_create =
            fold (\<lambda>e acc. set_insert sides_less ((back, False), redirect_end old front back e) acc)
              (edges_end g1 old)
              (fold (\<lambda>e acc. set_insert sides_less (redirect_start old front back e, (front, False)) acc)
                 (edges_start g1 old) []);
          g2 = fold (\<lambda>e g'. fst (create_edge g' (fst (fst e)) (fst (snd e)) (snd (fst e)) (snd (snd e))))
                 edges_to_create g1
      in connect_parts g2 part_ids)"

text \<open>Every mapping on the old node is divided.\<close>

definition divide_paths :: "Paths \<Rightarrow> Node \<Rightarrow> int list \<Rightarrow> id_t list \<Rightarrow> error + Paths" where
  "divide_paths ps n positions part_ids =
     (if has_node_mapping ps (node_id n)
      then fold_err (divide_mapping (int (length (sequence n))) positions part_ids) ps
             (concat (map snd (get_node_mapping_by_path_name ps (node_id n))))
      else Inr ps)"

definition divide_node :: "VG \<Rightarrow> ptr \<Rightarrow> int list \<Rightarrow> error + (VG \<times> ptr list)" where
  "divide_node g node positions =
     (case node_at g node of
        Inl err \<Rightarrow> Inl err
      | Inr n \<Rightarrow>
     (case find (\<lambda>pos. pos < 0 \<or> pos > int (length (sequence n))) positions of
        Some pos \<Rightarrow> Inl (CannotDivide (node_id n) pos)
      | None \<Rightarrow>
     (case create_parts g (sequence n) 0 positions of
        Inl err \<Rightarrow> Inl err
      | Inr (g1, parts) \<Rightarrow>
     (case map_err (node_at g1) parts of
        Inl err \<Rightarrow> Inl err
      | Inr part_nodes \<Rightarrow>
         let part_ids = map node_id part_nodes;
             g3 = move_edges g1 (node_id n) part_ids
         in case divide_paths (paths g3) n positions part_ids of
              Inl err \<Rightarrow> Inl err
            | Inr ps \<Rightarrow>
               (case destroy_node (g3\<lparr>paths := ps\<rparr>) node of
                  Inl err \<Rightarrow> Inl err
                | Inr g4 \<Rightarrow> Inr (g4, parts))))))"

subsection \<open>Concatenating a run of nodes\<close>

text \<open>\<^verbatim>\<open>std::map<int, V>\<close> as a list of entries in ascending key order: \<open>m[k] = v\<close>,
  \<open>m.find(k)\<close> and \<open>m.erase(k)\<close>.\<close>

fun map_set :: "int \<Rightarrow> 'v \<Rightarrow> (int \<times> 'v) list \<Rightarrow> (int \<times> 'v) list" where
  "map_set k v [] = [(k, v)]"
| "map_set k v (x # xs) =
     (if k = fst x then (k, v) # xs
      else if k < fst x then (k, v) # x # xs
      else x # map_set k v xs)"

definition map_erase :: "int \<Rightarrow> (int \<times> 'v) list \<Rightarrow> (int \<times> 'v) list" where
  "map_erase k xs = filter (\<lambda>x. fst x \<noteq> k) xs"

text \<open>The mappings of a list, by rank.\<close>

definition by_rank :: "(ptr \<times> mapping_t) list \<Rightarrow> (int \<times> mapping_t) list" where
  "by_rank ms = fold (\<lambda>pm acc. map_set (m_rank (snd pm)) (snd pm) acc) ms []"

text \<open>Modelled from the spec: \<^verbatim>\<open>get_node_mapping_copies_by_rank(id)\<close>, copies of the mappings
  on a node by path name and then by rank.\<close>

definition get_node_mapping_copies_by_rank ::
  "Paths \<Rightarrow> id_t \<Rightarrow> (string \<times> (int \<times> mapping_t) list) list" where
  "get_node_mapping_copies_by_rank ps i =
     map (\<lambda>(name, ms). (name, by_rank ms)) (get_node_mapping_by_path_name ps i)"

definition concat_mappings_for_nodes ::
  "VG \<Rightarrow> (Node \<times> bool) list \<Rightarrow> error + (string \<times> mapping_t list) list" where
  "concat_mappings_for_nodes g nodes =
     (let total_length = sum_list (map (\<lambda>traversal. int (length (sequence (fst traversal)))) nodes)
      in if \<not> total_length > 0 then Inl AssertionFailed
         else
           let first_node_mappings =
                 get_node_mapping_copies_by_rank (paths g) (node_id (fst (hd nodes)))
           in Inr (map (\<lambda>(name, ranked).
                          (name, map (\<lambda>(rank, mapping).
                                        (if snd (hd nodes)
                                         then mapping\<lparr>m_is_reverse := \<not> m_is_reverse mapping\<rparr>
                                         else mapping)\<lparr>m_length := total_length\<rparr>) ranked))
                     first_node_mappings))"

text \<open>The edges of the run to its left, recreated on the new node.\<close>

definition connect_prev ::
  "NodeTraversal \<Rightarrow> NodeTraversal \<Rightarrow> id_t \<Rightarrow> VG \<Rightarrow> NodeTraversal \<times> id_t \<Rightarrow> error + VG" where
  "connect_prev front back new_id g prev =
     (if fst (fst prev) = fst back then
        (let backward = (snd (fst prev) \<noteq> snd back)
         in if backward then Inl AssertionFailed
            else Inr (fst (create_edge g new_id new_id backward False)))
      else if fst (fst prev) = fst front then
        (let backward = (snd (fst prev) \<noteq> snd front)
         in if \<not> backward then Inl AssertionFailed
            else Inr (fst (create_edge g new_id new_id backward False)))
      else Inr (fst (create_edge g (snd prev) new_id (snd (fst prev)) False)))"

text \<open>The edges of the run to its right.\<close>

definition connect_next ::
  "NodeTraversal \<Rightarrow> NodeTraversal \<Rightarrow> id_t \<Rightarrow> VG \<Rightarrow> NodeTraversal \<times> id_t \<Rightarrow> error + VG" where
  "connect_next front back new_id g next =
     (if fst (fst next) = fst back then
        (let backward = (snd (fst next) \<noteq> snd back)
         in if \<not> backward then Inl AssertionFailed
            else Inr (fst (create_edge g new_id new_id False backward)))
      else if fst (fst next) = fst front then Inr g
      else Inr (fst (create_edge g new_id (snd next) False (snd (fst next)))))"

text \<open>A traversal together with the id of its node.\<close>

definition with_id :: "VG \<Rightarrow> NodeTraversal \<Rightarrow> error + (NodeTraversal \<times> id_t)" where
  "with_id g trav = (case node_at g (fst trav) of Inl err \<Rightarrow> Inl err | Inr n \<Rightarrow> Inr (trav, node_id n))"

text \<open>The mappings on the nodes of the run are removed and the new mappings, moved to
  the new node, are appended to their paths.\<close>

definition replace_mappings ::
  "Paths \<Rightarrow> (Node \<times> bool) list \<Rightarrow> (string \<times> mapping_t list) list \<Rightarrow> id_t \<Rightarrow> Paths" where
  "replace_mappings ps node_vals new_mappings new_id =
     (let ps1 = fold (\<lambda>n ps'.
                   fold (\<lambda>m ps''. fst (remove_mapping ps'' m))
                     (map fst (concat (map snd (get_node_mapping_by_path_name ps' (node_id (fst n))))))
                     ps')
                 node_vals ps
      in fold (\<lambda>(name, ms) ps'.
                 fold (\<lambda>m ps''. append_mapping ps'' name (m\<lparr>m_node_id := new_id\<rparr>)) ms ps')
           new_mappings ps1)"

text \<open>The new node is connected to what was left of the first node of the run.\<close>

definition connect_left :: "VG \<Rightarrow> NodeTraversal list \<Rightarrow> id_t \<Rightarrow> error + VG" where
  "connect_left g nodes new_id =
     (case nodes_prev g (hd nodes) of
        Inl err \<Rightarrow> Inl err
      | Inr prevs \<Rightarrow>
         (case map_err (with_id g) prevs of
            Inl err \<Rightarrow> Inl err
          | Inr prevs_ids \<Rightarrow> fold_err (connect_prev (hd nodes) (last nodes) new_id) g prevs_ids))"

text \<open>And to what was right of the last node of the run.\<close>

definition connect_right :: "VG \<Rightarrow> NodeTraversal list \<Rightarrow> id_t \<Rightarrow> error + VG" where
  "connect_right g nodes new_id =
     (case nodes_next g (last nodes) of
        Inl err \<Rightarrow> Inl err
      | Inr nexts \<Rightarrow>
         (case map_err (with_id g) nexts of
            Inl err \<Rightarrow> Inl err
          | Inr nexts_ids \<Rightarrow> fold_err (connect_next (hd nodes) (last nodes) new_id) g nexts_ids))"

definition concat_nodes :: "VG \<Rightarrow> NodeTraversal list \<Rightarrow> error + (VG \<times> ptr)" where
  "concat_nodes g nodes =
     (if nodes = [] \<or> hd nodes = last nodes then Inl AssertionFailed
      else
     (case map_err (\<lambda>n. case node_at g (fst n) of Inl err \<Rightarrow> Inl err | Inr nd \<Rightarrow> Inr (nd, snd n)) nodes of
        Inl err \<Rightarrow> Inl err
      | Inr node_vals \<Rightarrow>
     (case concat_mappings_for_nodes g node_vals of
        Inl err \<Rightarrow> Inl err
      | Inr new_mappings \<Rightarrow>
     (let seq = concat (map (\<lambda>n. if snd n then reverse_complement (sequence (fst n))
                                   else sequence (fst n)) node_vals)
      in case create_node g seq of
           Inl err \<Rightarrow> Inl err
         | Inr (g1, node) \<Rightarrow>
     (case node_at g1 node of
        Inl err \<Rightarrow> Inl err
      | Inr new_node \<Rightarrow>
     (let g2 = g1\<lparr>paths := replace_mappings (paths g1) node_vals new_mappings (node_id new_node)\<rparr>
      in case connect_left g2 nodes (node_id new_node) of
           Inl err \<Rightarrow> Inl err
         | Inr g3 \<Rightarrow>
     (case connect_right g3 nodes (node_id new_node) of
        Inl err \<Rightarrow> Inl err
      | Inr g4 \<Rightarrow>
     (case fold_err destroy_node g4 (map fst nodes) of
        Inl err \<Rightarrow> Inl err
      | Inr g5 \<Rightarrow> Inr (g5, node)))))))))"

section \<open>Perfect path neighbours\<close>

text \<open>
  The test builds, for the left and the right node, the mappings of each path by rank
  (\<^verbatim>\<open>map<string, map<int, mapping_t*>>\<close>). The outer maps are lists of entries by path name;
  the names are visited in the order in which they were entered, which does not change
  what the test returns.
\<close>

type_synonym ranked = "(int \<times> mapping_t) list"

fun at_name :: "string \<Rightarrow> (string \<times> ranked) list \<Rightarrow> ranked" where
  "at_name name [] = []"
| "at_name name (x # xs) = (if fst x = name then snd x else at_name name xs)"

fun set_name :: "string \<Rightarrow> ranked \<Rightarrow> (string \<times> ranked) list \<Rightarrow> (string \<times> ranked) list" where
  "set_name name v [] = [(name, v)]"
| "set_name name v (x # xs) = (if fst x = name then (name, v) # xs else x # set_name name v xs)"

text \<open>\<open>r[name][m->rank] = m\<close> for every mapping of the list; an empty list leaves \<open>r\<close>
  without an entry for the name.\<close>

definition add_ranked :: "string \<Rightarrow> (ptr \<times> mapping_t) list \<Rightarrow> (string \<times> ranked) list
    \<Rightarrow> (string \<times> ranked) list" where
  "add_ranked name ms r =
     (if ms = [] then r
      else set_name name (fold (\<lambda>pm acc. map_set (m_rank (snd pm)) (snd pm) acc) ms (at_name name r)) r)"

text \<open>The mappings of the left node of one path, in rank order, each looked up on the
  right node one rank up or down and erased there. \<open>None\<close> is \<^verbatim>\<open>return false\<close>.\<close>

fun verify_ranked :: "bool \<Rightarrow> bool \<Rightarrow> ranked \<Rightarrow> ranked \<Rightarrow> ranked option" where
  "verify_ranked left_backward right_backward [] ranked2 = Some ranked2"
| "verify_ranked left_backward right_backward (r # rest) ranked2 =
     (let rank = fst r; m = snd r;
          wanted = rank + (if m_is_reverse m = left_backward then 1 else - 1)
      in case map_of ranked2 wanted of
           None \<Rightarrow> None
         | Some f \<Rightarrow>
            if (m_is_reverse m = left_backward) \<noteq> (m_is_reverse f = right_backward) then None
            else verify_ranked left_backward right_backward rest (map_erase wanted ranked2))"

fun verify_adjacency :: "bool \<Rightarrow> bool \<Rightarrow> (string \<times> ranked) list \<Rightarrow> (string \<times> ranked) list
    \<Rightarrow> (string \<times> ranked) list option" where
  "verify_adjacency left_backward right_backward [] r2 = Some r2"
| "verify_adjacency left_backward right_backward (p # rest) r2 =
     (case verify_ranked left_backward right_backward (snd p) (at_name (fst p) r2) of
        None \<Rightarrow> None
      | Some ranked2 \<Rightarrow>
          verify_adjacency left_backward right_backward rest (set_name (fst p) ranked2 r2))"

definition nodes_are_perfect_path_neighbors :: "VG \<Rightarrow> NodeTraversal \<Rightarrow> NodeTraversal \<Rightarrow> error + bool" where
  "nodes_are_perfect_path_neighbors g left right =
     (case node_at g (fst left) of
        Inl err \<Rightarrow> Inl err
      | Inr ln \<Rightarrow>
     (case node_at g (fst right) of
        Inl err \<Rightarrow> Inl err
      | Inr rn \<Rightarrow>
         if of_node (paths g) (node_id ln) \<noteq> of_node (paths g) (node_id rn) then Inr False
         else
           let m1 = get_node_mapping_by_path_name (paths g) (node_id ln);
               m2 = get_node_mapping_by_path_name (paths g) (node_id rn);
               r12 = fold (\<lambda>p r. (add_ranked (fst p) (snd p) (fst r),
                                    add_ranked (fst p) (case map_of m2 (fst p) of None \<Rightarrow> [] | Some mp2 \<Rightarrow> mp2) (snd r)))
                       m1 ([], [])
           in case verify_adjacency (snd left) (snd right) (fst r12) (snd r12) of
                None \<Rightarrow> Inr False
              | Some r2 \<Rightarrow> Inr (list_all (\<lambda>p. snd p = []) r2)))"

text \<open>\<^verbatim>\<open>mapping_is_total_match\<close> on a compact mapping, which is always a single match
  edit: it is total when it covers the whole node.\<close>

definition mapping_is_total_match :: "VG \<Rightarrow> mapping_t \<Rightarrow> error + bool" where
  "mapping_is_total_match g m =
     (case get_node g (m_node_id m) of
        Inl err \<Rightarrow> Inl err
      | Inr node \<Rightarrow>
         (case node_at g node of
            Inl err \<Rightarrow> Inl err
          | Inr n \<Rightarrow> Inr (m_length m = int (length (sequence n)))))"

section \<open>Unfolding inversions\<close>

text \<open>
  \<^verbatim>\<open>unfold(max_length, node_translation)\<close> builds a second graph, \<^verbatim>\<open>unfolded\<close>; the graph
  it reads is not changed. The loops that run until a stack or a queue is empty take
  fuel: \<open>None\<close> is a loop that has not ended when the fuel is used up.
\<close>

text \<open>
  \<^verbatim>\<open>travs_from\<close> and \<^verbatim>\<open>travs_to\<close> put the traversals of \<^verbatim>\<open>nodes_next\<close> and \<^verbatim>\<open>nodes_prev\<close>
  in a \<^verbatim>\<open>std::set\<close>. The order of \<^verbatim>\<open>NodeTraversal\<close> is declared outside the sources; the
  list here keeps the order of the vector, without repetitions.
\<close>

definition travs_from :: "VG \<Rightarrow> NodeTraversal \<Rightarrow> error + NodeTraversal list" where
  "travs_from g node =
     (case nodes_next g node of Inl err \<Rightarrow> Inl err | Inr fromv \<Rightarrow> Inr (remdups fromv))"

definition travs_to :: "VG \<Rightarrow> NodeTraversal \<Rightarrow> error + NodeTraversal list" where
  "travs_to g node =
     (case nodes_prev g node of Inl err \<Rightarrow> Inl err | Inr tov \<Rightarrow> Inr (remdups tov))"

text \<open>\<^verbatim>\<open>get_edge(left, right)\<close> on traversals: from the end of \<open>left\<close> unless it is
  backward, to the end of \<open>right\<close> if it is backward; \<open>None\<close> is \<^verbatim>\<open>NULL\<close>.\<close>

definition get_edge_travs :: "VG \<Rightarrow> NodeTraversal \<Rightarrow> NodeTraversal \<Rightarrow> error + ptr option" where
  "get_edge_travs g left right =
     (case node_at g (fst left) of
        Inl err \<Rightarrow> Inl err
      | Inr l \<Rightarrow>
         (case node_at g (fst right) of
            Inl err \<Rightarrow> Inl err
          | Inr r \<Rightarrow> Inr (get_edge g (node_id l, \<not> snd left) (node_id r, snd right))))"

text \<open>\<^verbatim>\<open>create_node(seq)->id()\<close> on the unfolded graph.\<close>

definition new_node :: "VG \<Rightarrow> string \<Rightarrow> error + (VG \<times> id_t)" where
  "new_node u seq =
     (case create_node u seq of
        Inl err \<Rightarrow> Inl err
      | Inr (u', p) \<Rightarrow>
         (case node_at u' p of Inl err \<Rightarrow> Inl err | Inr n \<Rightarrow> Inr (u', node_id n)))"

text \<open>Insertion into an \<^verbatim>\<open>unordered_set\<close>, kept as a list in the order of insertion.\<close>

definition insert_new :: "'a \<Rightarrow> 'a list \<Rightarrow> 'a list" where
  "insert_new x xs = (if x \<in> set xs then xs else xs @ [x])"

text \<open>
  The state of the orientation search: the graph being built, the induced orientation
  of each node seen (\<^verbatim>\<open>main_orientation\<close>: the id of its copy and whether the copy is the
  reverse complement), the edges already copied and the edges found to reverse. The maps
  are lists of entries in the order of insertion; \<open>m[k]\<close> on a key that has no entry reads
  the default value.
\<close>

record unfold_state =
  unfolded :: VG
  main_orientation :: "(id_t \<times> id_t \<times> bool) list"
  forward_edges :: "ptr option list"
  reversing_edges :: "(NodeTraversal \<times> NodeTraversal) list"

definition orientation_of :: "(id_t \<times> id_t \<times> bool) list \<Rightarrow> id_t \<Rightarrow> id_t \<times> bool" where
  "orientation_of mo i = (case map_of mo i of None \<Rightarrow> (0, False) | Some found \<Rightarrow> found)"

text \<open>One traversal \<open>next\<close> after \<open>trav\<close> in the depth-first search.\<close>

definition visit_next :: "VG \<Rightarrow> NodeTraversal \<Rightarrow> id_t \<times> bool \<Rightarrow> unfold_state \<times> NodeTraversal list
    \<Rightarrow> NodeTraversal \<Rightarrow> error + (unfold_state \<times> NodeTraversal list)" where
  "visit_next g trav oriented_trav acc next =
     (let st = fst acc; stack = snd acc
      in case node_at g (fst next) of
           Inl err \<Rightarrow> Inl err
         | Inr n \<Rightarrow>
        (case get_edge_travs g trav next of
           Inl err \<Rightarrow> Inl err
         | Inr trav_edge \<Rightarrow>
            if map_of (main_orientation st) (node_id n) \<noteq> None
            then
              let oriented_next = orientation_of (main_orientation st) (node_id n)
              in if snd next \<noteq> snd oriented_next
                 then Inr (st\<lparr>reversing_edges := insert_new (trav, next) (reversing_edges st)\<rparr>, stack)
                 else if trav_edge \<notin> set (forward_edges st)
                 then Inr (st\<lparr>forward_edges := insert_new trav_edge (forward_edges st),
                              unfolded := fst (create_edge (unfolded st) (fst oriented_trav)
                                                 (fst oriented_next) False False)\<rparr>, stack)
                 else Inr (st, stack)
            else
              (case new_node (unfolded st)
                      (if snd next then reverse_complement (sequence n) else sequence n) of
                 Inl err \<Rightarrow> Inl err
               | Inr (u, new_id) \<Rightarrow>
                  Inr (st\<lparr>main_orientation := main_orientation st @ [(node_id n, (new_id, snd next))],
                          forward_edges := insert_new trav_edge (forward_edges st),
                          unfolded := fst (create_edge u (fst oriented_trav) new_id False False)\<rparr>,
                       stack @ [next]))))"

text \<open>One traversal \<open>prev\<close> before \<open>trav\<close>.\<close>

definition visit_prev :: "VG \<Rightarrow> NodeTraversal \<Rightarrow> id_t \<times> bool \<Rightarrow> unfold_state \<times> NodeTraversal list
    \<Rightarrow> NodeTraversal \<Rightarrow> error + (unfold_state \<times> NodeTraversal list)" where
  "visit_prev g trav oriented_trav acc prev =
     (let st = fst acc; stack = snd acc
      in case node_at g (fst prev) of
           Inl err \<Rightarrow> Inl err
         | Inr n \<Rightarrow>
        (case get_edge_travs g prev trav of
           Inl err \<Rightarrow> Inl err
         | Inr trav_edge \<Rightarrow>
            if map_of (main_orientation st) (node_id n) \<noteq> None
            then
              let oriented_prev = orientation_of (main_orientation st) (node_id n)
              in if snd prev \<noteq> snd oriented_prev
                 then Inr (st\<lparr>reversing_edges :=
                                insert_new ((fst trav, \<not> snd trav), (fst prev, \<not> snd prev))
                                  (reversing_edges st)\<rparr>, stack)
                 else if trav_edge \<notin> set (forward_edges st)
                 then Inr (st\<lparr>forward_edges := insert_new trav_edge (forward_edges st),
                              unfolded := fst (create_edge (unfolded st) (fst oriented_prev)
                                                 (fst oriented_trav) False False)\<rparr>, stack)
                 else Inr (st, stack)
            else
              (case new_node (unfolded st)
                      (if snd prev then reverse_complement (sequence n) else sequence n) of
                 Inl err \<Rightarrow> Inl err
               | Inr (u, new_id) \<Rightarrow>
                  Inr (st\<lparr>main_orientation := main_orientation st @ [(node_id n, (new_id, snd prev))],
                          forward_edges := insert_new trav_edge (forward_edges st),
                          unfolded := fst (create_edge u new_id (fst oriented_trav) False False)\<rparr>,
                       stack @ [prev]))))"

text \<open>The depth-first search from the traversals on the stack.\<close>

fun orient_component :: "nat \<Rightarrow> VG \<Rightarrow> unfold_state \<Rightarrow> NodeTraversal list
    \<Rightarrow> (error + unfold_state) option" where
  "orient_component 0 g st stack = None"
| "orient_component (Suc fuel) g st stack =
     (if stack = [] then Some (Inr st)
      else
        let trav = last stack; stack1 = butlast stack
        in case node_at g (fst trav) of
             Inl err \<Rightarrow> Some (Inl err)
           | Inr n \<Rightarrow>
          (let oriented_trav = orientation_of (main_orientation st) (node_id n)
           in case travs_from g trav of
                Inl err \<Rightarrow> Some (Inl err)
              | Inr nexts \<Rightarrow>
             (case fold_err (visit_next g trav oriented_trav) (st, stack1) nexts of
                Inl err \<Rightarrow> Some (Inl err)
              | Inr acc1 \<Rightarrow>
             (case travs_to g trav of
                Inl err \<Rightarrow> Some (Inl err)
              | Inr prevs \<Rightarrow>
             (case fold_err (visit_prev g trav oriented_trav) acc1 prevs of
                Inl err \<Rightarrow> Some (Inl err)
              | Inr acc2 \<Rightarrow> orient_component fuel g (fst acc2) (snd acc2))))))"

text \<open>Every node of the array that has no orientation yet starts a search, forward.\<close>

fun orient_nodes :: "nat \<Rightarrow> VG \<Rightarrow> unfold_state \<Rightarrow> (ptr \<times> Node) list
    \<Rightarrow> (error + unfold_state) option" where
  "orient_nodes fuel g st [] = Some (Inr st)"
| "orient_nodes fuel g st (pn # rest) =
     (if map_of (main_orientation st) (node_id (snd pn)) \<noteq> None then orient_nodes fuel g st rest
      else
        case new_node (unfolded st) (sequence (snd pn)) of
          Inl err \<Rightarrow> Some (Inl err)
        | Inr (u, new_id) \<Rightarrow>
           (case orient_component fuel g
                   (st\<lparr>unfolded := u,
                       main_orientation := main_orientation st @ [(node_id (snd pn), (new_id, False))]\<rparr>)
                   [(fst pn, False)] of
              None \<Rightarrow> None
            | Some (Inl err) \<Rightarrow> Some (Inl err)
            | Some (Inr st') \<Rightarrow> orient_nodes fuel g st' rest))"

text \<open>
  The search of the reverse strand: the copies of nodes in the reverse of the main
  orientation, the edges added among them, the traversals that have been put in the
  queue, and the queue of traversals with their distances.
\<close>

record search_state =
  s_unfolded :: VG
  reversed_nodes :: "(id_t \<times> id_t) list"
  reversed_edges :: "ptr option list"
  queued :: "(id_t \<times> bool) list"
  queue :: "(NodeTraversal \<times> int) list"

definition reversed_of :: "(id_t \<times> id_t) list \<Rightarrow> id_t \<Rightarrow> id_t" where
  "reversed_of rn i = (case map_of rn i of None \<Rightarrow> 0 | Some found \<Rightarrow> found)"

text \<open>The reverse copy of a node is made when the node has none.\<close>

definition add_reversed :: "(id_t \<times> id_t \<times> bool) list \<Rightarrow> Node \<Rightarrow> search_state \<Rightarrow> error + search_state" where
  "add_reversed mo n ss =
     (if map_of (reversed_nodes ss) (node_id n) \<noteq> None then Inr ss
      else
        case new_node (s_unfolded ss)
               (if snd (orientation_of mo (node_id n)) then sequence n
                else reverse_complement (sequence n)) of
          Inl err \<Rightarrow> Inl err
        | Inr (u, new_id) \<Rightarrow>
           Inr (ss\<lparr>s_unfolded := u, reversed_nodes := reversed_nodes ss @ [(node_id n, new_id)]\<rparr>))"

text \<open>The queue starts with the traversals across the reversing edges, at distance 0.\<close>

definition init_search :: "VG \<Rightarrow> (id_t \<times> id_t \<times> bool) list \<Rightarrow> search_state
    \<Rightarrow> NodeTraversal \<times> NodeTraversal \<Rightarrow> error + search_state" where
  "init_search g mo ss search_init =
     (let init_trav = fst search_init; init_next = snd search_init
      in case node_at g (fst init_trav) of
           Inl err \<Rightarrow> Inl err
         | Inr tn \<Rightarrow>
        (case node_at g (fst init_next) of
           Inl err \<Rightarrow> Inl err
         | Inr nn \<Rightarrow>
        (case add_reversed mo nn ss of
           Inl err \<Rightarrow> Inl err
         | Inr ss1 \<Rightarrow>
            let u = (if snd init_trav = snd (orientation_of mo (node_id tn))
                     then fst (create_edge (s_unfolded ss1) (fst (orientation_of mo (node_id tn)))
                                 (reversed_of (reversed_nodes ss1) (node_id nn)) False False)
                     else fst (create_edge (s_unfolded ss1) (reversed_of (reversed_nodes ss1) (node_id nn))
                                 (fst (orientation_of mo (node_id tn))) False False));
                ss2 = ss1\<lparr>s_unfolded := u\<rparr>
            in if (node_id nn, snd init_next) \<notin> set (queued ss2)
               then Inr (ss2\<lparr>queue := queue ss2 @ [(init_next, 0)],
                            queued := insert_new (node_id nn, snd init_next) (queued ss2)\<rparr>)
               else Inr ss2)))"

text \<open>\<^verbatim>\<open>queue.top()\<close> is an entry of least distance; among several the first one
  queued is taken here.\<close>

definition queue_top :: "(NodeTraversal \<times> int) list \<Rightarrow> NodeTraversal \<times> int" where
  "queue_top q = fold (\<lambda>x best. if snd x < snd best then x else best) (tl q) (hd q)"

text \<open>One traversal \<open>next\<close> after the traversal popped from the queue.\<close>

definition search_next :: "VG \<Rightarrow> (id_t \<times> id_t \<times> bool) list \<Rightarrow> NodeTraversal \<Rightarrow> Node \<Rightarrow> int
    \<Rightarrow> search_state \<Rightarrow> NodeTraversal \<Rightarrow> error + search_state" where
  "search_next g mo trav tn dist_thru ss next =
     (case node_at g (fst next) of
        Inl err \<Rightarrow> Inl err
      | Inr nn \<Rightarrow>
     (case get_edge_travs g trav next of
        Inl err \<Rightarrow> Inl err
      | Inr edge \<Rightarrow>
         if (snd next = snd (orientation_of mo (node_id nn)))
              = (snd trav = snd (orientation_of mo (node_id tn)))
         then
           (case add_reversed mo nn ss of
              Inl err \<Rightarrow> Inl err
            | Inr ss1 \<Rightarrow>
               let ss2 =
                     (if edge \<notin> set (reversed_edges ss1)
                      then ss1\<lparr>s_unfolded :=
                                 (if snd trav = snd (orientation_of mo (node_id tn))
                                  then fst (create_edge (s_unfolded ss1)
                                              (reversed_of (reversed_nodes ss1) (node_id nn))
                                              (reversed_of (reversed_nodes ss1) (node_id tn)) False False)
                                  else fst (create_edge (s_unfolded ss1)
                                              (reversed_of (reversed_nodes ss1) (node_id tn))
                                              (reversed_of (reversed_nodes ss1) (node_id nn)) False False)),
                               reversed_edges := insert_new edge (reversed_edges ss1)\<rparr>
                      else ss1)
               in if (node_id nn, snd next) \<notin> set (queued ss2)
                  then Inr (ss2\<lparr>queue := queue ss2 @ [(next, dist_thru)],
                               queued := insert_new (node_id nn, snd next) (queued ss2)\<rparr>)
                  else Inr ss2)
         else Inr ss))"

text \<open>The search: a traversal whose distance through its node reaches \<open>max_length\<close> is
  not followed.\<close>

fun search :: "nat \<Rightarrow> VG \<Rightarrow> (id_t \<times> id_t \<times> bool) list \<Rightarrow> int \<Rightarrow> search_state
    \<Rightarrow> (error + search_state) option" where
  "search 0 g mo max_length ss = None"
| "search (Suc fuel) g mo max_length ss =
     (if queue ss = [] then Some (Inr ss)
      else
        let dist_trav = queue_top (queue ss);
            ss0 = ss\<lparr>queue := remove1 dist_trav (queue ss)\<rparr>
        in case node_at g (fst (fst dist_trav)) of
             Inl err \<Rightarrow> Some (Inl err)
           | Inr tn \<Rightarrow>
              let dist_thru = snd dist_trav + int (length (sequence tn))
              in if dist_thru \<ge> max_length then search fuel g mo max_length ss0
                 else
                   (case travs_from g (fst dist_trav) of
                      Inl err \<Rightarrow> Some (Inl err)
                    | Inr nexts \<Rightarrow>
                       (case fold_err (search_next g mo (fst dist_trav) tn dist_thru) ss0 nexts of
                          Inl err \<Rightarrow> Some (Inl err)
                        | Inr ss1 \<Rightarrow> search fuel g mo max_length ss1)))"

text \<open>The translation from the ids of the unfolded graph to the original nodes and
  their orientations.\<close>

definition translate :: "(id_t \<times> id_t \<times> bool) list \<Rightarrow> (id_t \<times> id_t) list
    \<Rightarrow> (id_t \<rightharpoonup> id_t \<times> bool) \<Rightarrow> (id_t \<rightharpoonup> id_t \<times> bool)" where
  "translate mo rn node_translation =
     fold (\<lambda>rev_orient_record tr.
             tr(snd rev_orient_record \<mapsto>
                  (fst rev_orient_record, \<not> snd (orientation_of mo (fst rev_orient_record)))))
       rn
       (fold (\<lambda>orient_record tr.
                tr(fst (snd orient_record) \<mapsto> (fst orient_record, snd (snd orient_record))))
          mo node_translation)"

definition unfold :: "nat \<Rightarrow> VG \<Rightarrow> nat \<Rightarrow> (id_t \<rightharpoonup> id_t \<times> bool)
    \<Rightarrow> (error + (VG \<times> (id_t \<rightharpoonup> id_t \<times> bool))) option" where
  "unfold fuel g max_length node_translation =
     (case orient_nodes fuel g
             \<lparr>unfolded = init, main_orientation = [], forward_edges = [], reversing_edges = []\<rparr>
             (graph_node g) of
        None \<Rightarrow> None
      | Some (Inl err) \<Rightarrow> Some (Inl err)
      | Some (Inr st) \<Rightarrow>
         if max_length = 0 then Some (Inr (unfolded st, node_translation))
         else
           (case fold_err (init_search g (main_orientation st))
                   \<lparr>s_unfolded = unfolded st, reversed_nodes = [], reversed_edges = [],
                    queued = [], queue = []\<rparr>
                   (reversing_edges st) of
              Inl err \<Rightarrow> Some (Inl err)
            | Inr ss \<Rightarrow>
               (case search fuel g (main_orientation st) (int max_length) ss of
                  None \<Rightarrow> None
                | Some (Inl err) \<Rightarrow> Some (Inl err)
                | Some (Inr ss') \<Rightarrow>
                   Some (Inr (s_unfolded ss',
                              translate (main_orientation st) (reversed_nodes ss') node_translation)))))"

section \<open>Definitions used to state the properties\<close>

subsection \<open>Observing an iteration\<close>

text \<open>
  An iteratee that records the handles it is called on and answers by a predicate
  \<open>keep\<close> on the handle.
\<close>

definition visit :: "(handle_t \<Rightarrow> bool) \<Rightarrow> handle_t \<Rightarrow> handle_t list \<Rightarrow> bool \<times> handle_t list" where
  "visit keep h visited = (keep h, visited @ [h])"

text \<open>The forward handles of the nodes of the array, in array order.\<close>

definition forward_handles :: "(ptr \<times> Node) list \<Rightarrow> handle_t list" where
  "forward_handles nodes = map (\<lambda>n. get_handle (node_id (snd n)) False) nodes"

text \<open>The iteratee that stops at once.\<close>

definition never :: "handle_t \<Rightarrow> bool" where
  "never h = False"

subsection \<open>Example graphs\<close>

text \<open>Adding a node to a graph, for building examples.\<close>

definition with_node :: "VG \<Rightarrow> string \<Rightarrow> id_t \<Rightarrow> VG" where
  "with_node g seq i = (case create_node_id g seq i of Inr (g', node) \<Rightarrow> g' | Inl err \<Rightarrow> g)"

definition with_edge :: "VG \<Rightarrow> id_t \<Rightarrow> id_t \<Rightarrow> bool \<Rightarrow> bool \<Rightarrow> VG" where
  "with_edge g from to fs te = fst (create_edge g from to fs te)"

text \<open>Two nodes, 1 and 2, and no edge.\<close>

definition two_nodes :: VG where
  "two_nodes = with_node (with_node init ''ACGT'' 1) ''GGGA'' 2"

definition with_new_node :: "VG \<Rightarrow> string \<Rightarrow> VG" where
  "with_new_node g seq = (case create_node g seq of Inr (g', node) \<Rightarrow> g' | Inl err \<Rightarrow> g)"

text \<open>A graph whose id counter has fallen behind: node 1 from the counter, then node 10
  with a supplied id.\<close>

definition stale_counter :: VG where
  "stale_counter = with_node (with_new_node init ''A'') ''C'' 10"

text \<open>A graph whose only node has the largest id there is.\<close>

definition largest_id :: VG where
  "largest_id = with_node init ''A'' (2 ^ 63 - 1)"

text \<open>The id that \<^verbatim>\<open>create_node(seq)\<close> hands out.\<close>

definition next_node_id :: "VG \<Rightarrow> id_t" where
  "next_node_id g = (if current_id g = 1 then int64 (max_node_id g + 1) else current_id g)"

definition with_mapping :: "VG \<Rightarrow> string \<Rightarrow> mapping_t \<Rightarrow> VG" where
  "with_mapping g name m = g\<lparr>paths := append_mapping (paths g) name m\<rparr>"

text \<open>The graph an operation returns; the empty graph when it failed.\<close>

definition graph_of :: "error + VG \<Rightarrow> VG" where
  "graph_of r = (case r of Inr g \<Rightarrow> g | Inl err \<Rightarrow> init)"

text \<open>Nodes 1 and 2, the edge from the end of 1 to the start of 2, and a path P that
  covers node 1 and then node 2.\<close>

definition path_graph :: VG where
  "path_graph =
     with_mapping
       (with_mapping (with_edge two_nodes 1 2 False False) ''P''
          \<lparr>m_node_id = 1, m_is_reverse = False, m_length = 4, m_rank = 1\<rparr>)
       ''P'' \<lparr>m_node_id = 2, m_is_reverse = False, m_length = 4, m_rank = 2\<rparr>"

text \<open>Nodes 1 and 2 with the edge between them, a self loop on the end of node 1 and a
  self loop from the end of node 1 to its start.\<close>

definition loops_graph :: VG where
  "loops_graph =
     with_edge (with_edge (with_edge two_nodes 1 2 False False) 1 1 False True) 1 1 False False"

subsection \<open>The edge invariant\<close>

text \<open>The two sides an edge attaches to.\<close>

definition from_side :: "Edge \<Rightarrow> NodeSide" where
  "from_side e = (e_from e, \<not> from_start e)"

definition to_side :: "Edge \<Rightarrow> NodeSide" where
  "to_side e = (e_to e, to_end e)"

text \<open>The adjacency list on a side, and the entry that an edge to side \<open>b\<close> has on the
  list of side \<open>a\<close>: the other node, and whether the orientation flips.\<close>

definition adjacency :: "VG \<Rightarrow> NodeSide \<Rightarrow> (id_t \<times> bool) list" where
  "adjacency g a = (if snd a then edges_end g (fst a) else edges_start g (fst a))"

definition entry_for :: "NodeSide \<Rightarrow> NodeSide \<Rightarrow> id_t \<times> bool" where
  "entry_for a b = (fst b, snd a = snd b)"

text \<open>
  The invariant of section 8: for every edge of the graph, the list on each of its two
  sides has the entry for the other side, the edge is the record under its canonical
  side pair, and it is the only edge of the array with that pair.
\<close>

definition edge_invariant :: "VG \<Rightarrow> bool" where
  "edge_invariant g =
     (\<forall>pe \<in> set (graph_edge g).
        entry_for (from_side (snd pe)) (to_side (snd pe)) \<in> set (adjacency g (from_side (snd pe)))
      \<and> entry_for (to_side (snd pe)) (from_side (snd pe)) \<in> set (adjacency g (to_side (snd pe)))
      \<and> edge_by_sides g (pair_from_edge (snd pe)) = Some (fst pe)
      \<and> length (filter (\<lambda>x. pair_from_edge (snd x) = pair_from_edge (snd pe)) (graph_edge g)) = 1)"

text \<open>
  What the edge operations rely on besides: the edge objects have distinct addresses
  below the allocator, \<^verbatim>\<open>edge_index\<close> holds the position of every edge in the array, and
  \<^verbatim>\<open>edge_by_sides\<close> has no entry but those of the edges of the array.
\<close>

definition edge_wf :: "VG \<Rightarrow> bool" where
  "edge_wf g =
     (edge_invariant g
      \<and> distinct (map fst (graph_edge g))
      \<and> (\<forall>i < length (graph_edge g). edge_index g (fst (graph_edge g ! i)) = Some i)
      \<and> (\<forall>k p. edge_by_sides g k = Some p \<longrightarrow>
            (\<exists>e. (p, e) \<in> set (graph_edge g) \<and> pair_from_edge e = k))
      \<and> (\<forall>pe \<in> set (graph_edge g). fst pe < next_ptr g))"

subsection \<open>The node indices\<close>

text \<open>
  What the node operations rely on: the node objects have distinct addresses below the
  allocator, \<^verbatim>\<open>node_index\<close> holds the position of every node in the array, and every entry
  of \<^verbatim>\<open>node_by_id\<close> points at a node of the array with that id.
\<close>

definition node_wf :: "VG \<Rightarrow> bool" where
  "node_wf g =
     (distinct (map fst (graph_node g))
      \<and> (\<forall>i < length (graph_node g). node_index g (fst (graph_node g ! i)) = Some i)
      \<and> (\<forall>pn \<in> set (graph_node g). fst pn < next_ptr g)
      \<and> (\<forall>i p. node_by_id g i = Some p \<longrightarrow>
            (\<exists>n. (p, n) \<in> set (graph_node g) \<and> node_id n = i)))"

text \<open>An edge attaches to a node when one of its two ends is on it.\<close>

definition incident :: "Edge \<Rightarrow> id_t \<Rightarrow> bool" where
  "incident e i = (e_from e = i \<or> e_to e = i)"

subsection \<open>States named in the proofs\<close>

text \<open>The graph after a new edge \<open>e\<close> has been appended and indexed.\<close>

definition new_edge_state :: "VG \<Rightarrow> Edge \<Rightarrow> VG" where
  "new_edge_state g e =
     (index_edge_by_node_sides
        (g\<lparr>graph_edge := graph_edge g @ [(next_ptr g, e)], next_ptr := Suc (next_ptr g)\<rparr>)
        (next_ptr g) e)
       \<lparr>edge_index := (edge_index g)(next_ptr g \<mapsto> length (graph_edge g))\<rparr>"

text \<open>Taking position \<open>i\<close> out of an array by moving the last element there.\<close>

definition remove_swap :: "'a list \<Rightarrow> nat \<Rightarrow> 'a list" where
  "remove_swap xs i = butlast (xs[i := last xs])"

text \<open>The part of the state that the edge operations do not touch.\<close>

definition node_part :: "VG \<Rightarrow> (ptr \<times> Node) list \<times> (id_t \<rightharpoonup> ptr) \<times> (ptr \<rightharpoonup> nat) \<times> Paths \<times> id_t" where
  "node_part g = (graph_node g, node_by_id g, node_index g, paths g, current_id g)"

text \<open>The part of the state that the node and path operations do not touch, but for the
  allocator.\<close>

definition edge_part :: "VG \<Rightarrow> (ptr \<times> Edge) list \<times> (NodeSide \<times> NodeSide \<rightharpoonup> ptr) \<times> (ptr \<rightharpoonup> nat)
    \<times> (id_t \<rightharpoonup> (id_t \<times> bool) list) \<times> (id_t \<rightharpoonup> (id_t \<times> bool) list)" where
  "edge_part g = (graph_edge g, edge_by_sides g, edge_index g, edges_on_start g, edges_on_end g)"

subsection \<open>Dividing a node\<close>

text \<open>The pieces of a sequence cut at the positions, in order: the substrings between
  consecutive positions, from \<open>last_pos\<close> on.\<close>

fun pieces :: "string \<Rightarrow> int \<Rightarrow> int list \<Rightarrow> string list" where
  "pieces seq last_pos [] = [drop (nat last_pos) seq]"
| "pieces seq last_pos (pos # rest) =
     take (nat (pos - last_pos)) (drop (nat last_pos) seq) # pieces seq pos rest"

text \<open>The sequences that the loop of \<^verbatim>\<open>divide_node\<close> gives to the new nodes.\<close>

fun part_sequences :: "string \<Rightarrow> int \<Rightarrow> int list \<Rightarrow> string list" where
  "part_sequences seq last_pos [] = [drop (nat last_pos) seq]"
| "part_sequences seq last_pos (pos # rest) =
     substr seq last_pos (pos - last_pos) # part_sequences seq pos rest"

text \<open>
  The id counter is usable: it is positive, and it and the largest id are values of a
  signed 64-bit integer. Every node of the array is the one the id index has for its id.
\<close>

definition counter_ok :: "VG \<Rightarrow> bool" where
  "counter_ok g = (0 < current_id g \<and> current_id g < 2 ^ 63 \<and> max_node_id g < 2 ^ 63)"

definition ids_indexed :: "VG \<Rightarrow> bool" where
  "ids_indexed g = (\<forall>pn \<in> set (graph_node g). node_by_id g (node_id (snd pn)) = Some (fst pn))"

text \<open>The addresses of the mapping objects of a path collection, which are distinct.\<close>

definition tags :: "Paths \<Rightarrow> ptr list" where
  "tags ps = map fst (concat (map snd (path_list ps)))"

definition paths_wf :: "Paths \<Rightarrow> bool" where
  "paths_wf ps = distinct (tags ps)"

text \<open>The sequences of the nodes that \<^verbatim>\<open>divide_node\<close> returns, read in the graph it leaves.\<close>

definition divided :: "VG \<Rightarrow> ptr \<Rightarrow> int list \<Rightarrow> error + string option list" where
  "divided g node positions =
     (case divide_node g node positions of
        Inl err \<Rightarrow> Inl err
      | Inr (g', parts) \<Rightarrow> Inr (map (\<lambda>p. map_option sequence (deref_node g' p)) parts))"

subsection \<open>The three conditions on perfect path neighbours\<close>

text \<open>The mappings that the path called \<open>name\<close> has on node \<open>i\<close>.\<close>

definition mappings_on :: "Paths \<Rightarrow> id_t \<Rightarrow> string \<Rightarrow> mapping_t list" where
  "mappings_on ps i name =
     (case map_of (path_list ps) name of
        None \<Rightarrow> []
      | Some ms \<Rightarrow> map snd (filter (\<lambda>(p, m). m_node_id m = i) ms))"

text \<open>(a) The two nodes carry the same set of path names.\<close>

definition same_path_names :: "Paths \<Rightarrow> id_t \<Rightarrow> id_t \<Rightarrow> bool" where
  "same_path_names ps u v = (of_node ps u = of_node ps v)"

text \<open>
  (b) A mapping on the left node that goes with the left traversal has its neighbour on
  the right node one rank up, one that goes against it one rank down. The mappings of a
  path on the two nodes are consecutive and consistently oriented when every mapping on
  the left has its neighbour on the right, which goes with the right traversal exactly
  when the left one goes with the left traversal, no two mappings on the left have the
  same neighbour, and every mapping on the right is such a neighbour.
\<close>

definition wanted_rank :: "bool \<Rightarrow> mapping_t \<Rightarrow> int" where
  "wanted_rank left_backward m = m_rank m + (if m_is_reverse m = left_backward then 1 else - 1)"

text \<open>The rank that the test looks up on the right node for an entry of the left
  node's map from rank to mapping.\<close>

definition want :: "bool \<Rightarrow> int \<times> mapping_t \<Rightarrow> int" where
  "want left_backward e = fst e + (if m_is_reverse (snd e) = left_backward then 1 else - 1)"

definition consecutive :: "bool \<Rightarrow> bool \<Rightarrow> mapping_t list \<Rightarrow> mapping_t list \<Rightarrow> bool" where
  "consecutive left_backward right_backward ms1 ms2 =
     ((\<forall>m \<in> set ms1. \<exists>f \<in> set ms2. m_rank f = wanted_rank left_backward m
          \<and> ((m_is_reverse m = left_backward) = (m_is_reverse f = right_backward)))
      \<and> (\<forall>m \<in> set ms1. \<forall>m' \<in> set ms1.
            wanted_rank left_backward m = wanted_rank left_backward m' \<longrightarrow> m = m')
      \<and> (\<forall>f \<in> set ms2. \<exists>m \<in> set ms1. m_rank f = wanted_rank left_backward m))"

definition consecutive_on_paths :: "Paths \<Rightarrow> bool \<Rightarrow> bool \<Rightarrow> id_t \<Rightarrow> id_t \<Rightarrow> bool" where
  "consecutive_on_paths ps left_backward right_backward u v =
     (\<forall>name \<in> of_node ps u.
        consecutive left_backward right_backward (mappings_on ps u name) (mappings_on ps v name))"

text \<open>(c) Every mapping on either node covers the whole node.\<close>

definition total_matches :: "VG \<Rightarrow> Node \<Rightarrow> bool" where
  "total_matches g n =
     (\<forall>name \<in> of_node (paths g) (node_id n).
        \<forall>m \<in> set (mappings_on (paths g) (node_id n) name). m_length m = int (length (sequence n)))"

text \<open>The ranks of the mappings that a path has on a node are distinct.\<close>

definition ranks_distinct :: "Paths \<Rightarrow> id_t \<Rightarrow> bool" where
  "ranks_distinct ps i = (\<forall>name \<in> of_node ps i. distinct (map m_rank (mappings_on ps i name)))"

text \<open>Nodes 1 and 2 of four bases each and a path P whose mapping on node 1 covers two
  bases only.\<close>

definition half_covered :: VG where
  "half_covered =
     with_mapping
       (with_mapping (with_edge two_nodes 1 2 False False) ''P''
          \<lparr>m_node_id = 1, m_is_reverse = False, m_length = 2, m_rank = 1\<rparr>)
       ''P'' \<lparr>m_node_id = 2, m_is_reverse = False, m_length = 4, m_rank = 2\<rparr>"

subsection \<open>Walks and the unfolded graph\<close>

text \<open>
  Nodes 1 to 5 in a chain 1, 2, 3, 4 with a branch from 2 to 5, and an edge from the end
  of 4 to the end of 4 and one from the end of 5 to the end of 5, which reverse a walk.
\<close>

definition inversions :: VG where
  "inversions =
     with_edge (with_edge (with_edge (with_edge (with_edge (with_edge
       (with_node (with_node (with_node (with_node (with_node init ''G'' 1) ''AAA'' 2) ''A'' 3) ''A'' 4)
          ''AAAAA'' 5)
       1 2 False False) 2 3 False False) 3 4 False False) 2 5 False False)
       4 4 False True) 5 5 False True"

text \<open>The same graph without node 5.\<close>

definition one_inversion :: VG where
  "one_inversion =
     with_edge (with_edge (with_edge (with_edge
       (with_node (with_node (with_node (with_node init ''G'' 1) ''AAA'' 2) ''A'' 3) ''A'' 4)
       1 2 False False) 2 3 False False) 3 4 False False)
       4 4 False True"

text \<open>The nodes of the graph that \<^verbatim>\<open>unfold\<close> returns; none when it does not return one.\<close>

definition unfolded_nodes :: "(error + (VG \<times> (id_t \<rightharpoonup> id_t \<times> bool))) option \<Rightarrow> Node list" where
  "unfolded_nodes r = (case r of Some (Inr (u, tr)) \<Rightarrow> map snd (graph_node u) | _ \<Rightarrow> [])"

text \<open>A walk is a list of traversals, each among the traversals after the one before;
  it spells the sequences of its nodes, reverse complemented where it goes backward.\<close>

fun is_walk :: "VG \<Rightarrow> NodeTraversal list \<Rightarrow> bool" where
  "is_walk g (a # b # rest) =
     ((case nodes_next g a of Inl err \<Rightarrow> False | Inr nexts \<Rightarrow> b \<in> set nexts) \<and> is_walk g (b # rest))"
| "is_walk g _ = True"

definition walk_sequence :: "VG \<Rightarrow> NodeTraversal list \<Rightarrow> string" where
  "walk_sequence g walk =
     concat (map (\<lambda>t. case deref_node g (fst t) of
                          None \<Rightarrow> []
                        | Some n \<Rightarrow> if snd t then reverse_complement (sequence n) else sequence n) walk)"

subsection \<open>Dividing a node and concatenating the parts\<close>

text \<open>\<^verbatim>\<open>divide_node\<close> at the positions and then \<^verbatim>\<open>concat_nodes\<close> on the parts it returned, all
  forward.\<close>

definition divide_then_concat :: "VG \<Rightarrow> ptr \<Rightarrow> int list \<Rightarrow> error + (VG \<times> ptr)" where
  "divide_then_concat g node positions =
     (case divide_node g node positions of
        Inl err \<Rightarrow> Inl err
      | Inr (g1, parts) \<Rightarrow> concat_nodes g1 (map (\<lambda>p. (p, False)) parts))"

text \<open>The graph it returns; the empty graph when it failed.\<close>

definition returned_graph :: "error + (VG \<times> ptr) \<Rightarrow> VG" where
  "returned_graph r = (case r of Inl err \<Rightarrow> init | Inr (g, node) \<Rightarrow> g)"

text \<open>The mappings of every path, without the addresses of the mapping objects.\<close>

definition path_mappings :: "VG \<Rightarrow> (string \<times> mapping_t list) list" where
  "path_mappings g = map (\<lambda>(name, ms). (name, map snd ms)) (path_list (paths g))"

text \<open>One node \<open>AAAACCCC\<close> with id 1 and a path P that maps the whole node, rank 1.\<close>

definition whole_node_path :: VG where
  "whole_node_path =
     with_mapping (with_node init ''AAAACCCC'' 1) ''P''
       \<lparr>m_node_id = 1, m_is_reverse = False, m_length = 8, m_rank = 1\<rparr>"

text \<open>
  A graph made by \<^verbatim>\<open>create_node("ACGT")\<close>, which gives id 1 and leaves the counter at 2,
  then \<^verbatim>\<open>create_node("GG", 2)\<close>, \<^verbatim>\<open>create_node("T", 3)\<close> and \<^verbatim>\<open>create_edge(2, 3)\<close>. Node 1
  has no edge and no mapping.
\<close>

definition ids_in_use :: VG where
  "ids_in_use =
     with_edge (with_node (with_node (with_new_node init ''ACGT'') ''GG'' 2) ''T'' 3) 2 3 False False"

section \<open>Handles round-trip\<close>

lemma bit_HIGH_BIT: "bit HIGH_BIT n \<longleftrightarrow> n = 63"
  unfolding HIGH_BIT_def by (simp only: bit_push_bit_iff bit_1_iff) (auto simp: possible_bit_word)

lemma bit_LOW_BITS: "bit LOW_BITS n \<longleftrightarrow> n < 63"
  by (auto simp: LOW_BITS_def bit_HIGH_BIT bit_not_iff possible_bit_word)

lemma HIGH_BIT_nonzero: "HIGH_BIT \<noteq> 0"
proof
  assume "HIGH_BIT = 0"
  then have "bit HIGH_BIT 63 = bit (0::64 word) 63" by simp
  then show False by (simp add: bit_HIGH_BIT)
qed

lemma id_top_bit_clear:
  assumes "0 \<le> i" "i < 2 ^ 63"
  shows "\<not> bit (word_of_int i :: 64 word) 63"
proof -
  have "i div 2 ^ 63 = 0" using assms by (simp add: div_pos_pos_trivial)
  then have "\<not> bit i 63" unfolding bit_iff_odd by simp
  then show ?thesis by (simp add: bit_word_of_int_iff)
qed

lemma id_and_LOW_BITS:
  assumes "0 \<le> i" "i < 2 ^ 63"
  shows "(word_of_int i :: 64 word) AND LOW_BITS = word_of_int i"
proof (rule bit_word_eqI)
  fix n assume n: "n < LENGTH(64)"
  show "bit (word_of_int i AND LOW_BITS :: 64 word) n = bit (word_of_int i :: 64 word) n"
  proof (cases "n = 63")
    case True
    then show ?thesis using id_top_bit_clear[OF assms] by (simp add: bit_and_iff)
  next
    case False
    with n have "n < 63" by simp
    then show ?thesis by (simp add: bit_and_iff bit_LOW_BITS)
  qed
qed

lemma or_HIGH_and_LOW: "(w OR HIGH_BIT) AND LOW_BITS = w AND LOW_BITS"
  by (rule bit_word_eqI) (auto simp: bit_and_iff bit_or_iff bit_HIGH_BIT bit_LOW_BITS)

lemma sint_id:
  assumes "0 \<le> i" "i < 2 ^ 63"
  shows "sint (word_of_int i :: 64 word) = i"
  using assms by (simp add: sint_sbintrunc' signed_take_bit_int_eq_self)

lemma id_and_HIGH_BIT:
  assumes "0 \<le> i" "i < 2 ^ 63"
  shows "(word_of_int i :: 64 word) AND HIGH_BIT = 0"
  by (rule bit_word_eqI) (use id_top_bit_clear[OF assms] in \<open>auto simp: bit_and_iff bit_HIGH_BIT\<close>)

lemma get_id_get_handle:
  assumes "0 \<le> i" "i < 2 ^ 63"
  shows "get_id (get_handle i r) = i"
  using assms by (simp add: get_id_def get_handle_def Let_def or_HIGH_and_LOW id_and_LOW_BITS sint_id)

lemma get_is_reverse_get_handle:
  assumes "0 \<le> i" "i < 2 ^ 63"
  shows "get_is_reverse (get_handle i r) = r"
proof -
  have "(word_of_int i OR HIGH_BIT) AND HIGH_BIT = HIGH_BIT"
    by (rule bit_word_eqI) (auto simp: bit_and_iff bit_or_iff)
  then show ?thesis
    using assms
    by (simp add: get_is_reverse_def get_handle_def Let_def id_and_HIGH_BIT HIGH_BIT_nonzero)
qed

lemma flip_flip: "flip (flip h) = h"
  by (simp add: flip_def xor.assoc)

lemma get_id_range: "0 \<le> get_id h" "get_id h < 2 ^ 63"
proof -
  have nb: "\<not> bit (h AND LOW_BITS) 63" by (simp add: bit_and_iff bit_LOW_BITS)
  have "sint (h AND LOW_BITS) = signed_take_bit 63 (uint (h AND LOW_BITS))"
    by (simp add: sint_uint)
  also have "\<dots> = take_bit 63 (uint (h AND LOW_BITS))"
    using nb by (simp add: signed_take_bit_eq_if_positive bit_uint_iff)
  finally have e: "get_id h = take_bit 63 (uint (h AND LOW_BITS))" by (simp add: get_id_def)
  show "0 \<le> get_id h" unfolding e by simp
  show "get_id h < 2 ^ 63" unfolding e by (rule take_bit_int_less_exp)
qed

lemma negative_id_top_bit:
  assumes "- (2 ^ 63) \<le> i" "i < 0"
  shows "bit (word_of_int i :: 64 word) 63"
proof -
  have "i div 2 ^ 63 = - 1" using assms by (simp add: div_eq_minus1 zdiv_eq_0_iff) 
  then have "bit i 63" unfolding bit_iff_odd by simp
  then show ?thesis by (simp add: bit_word_of_int_iff)
qed

lemma get_is_reverse_negative:
  assumes "- (2 ^ 63) \<le> i" "i < 0"
  shows "get_is_reverse (get_handle i r)"
proof -
  have "bit (get_handle i r AND HIGH_BIT) 63"
    using negative_id_top_bit[OF assms]
    by (simp add: get_handle_def Let_def bit_and_iff bit_or_iff bit_HIGH_BIT)
  then have "get_handle i r AND HIGH_BIT \<noteq> 0" by auto
  then show ?thesis by (simp add: get_is_reverse_def)
qed

text \<open>
  C9, as the code has it. A handle keeps the low 63 bits of the id and uses bit 63 for
  the orientation, so \<open>get_id\<close> gives back the id that \<open>get_handle\<close> packed exactly when
  the id is in \<open>0 .. 2\<^sup>6\<^sup>3 - 1\<close>; for these ids \<open>get_is_reverse\<close> gives back the
  orientation. A negative id of the signed 64-bit \<^verbatim>\<open>id_t\<close> comes back as another id and
  always as reverse. \<open>flip\<close> is an involution on every handle.
\<close>

theorem handle_round_trip:
  "(get_id (get_handle i is_reverse) = i \<longleftrightarrow> 0 \<le> i \<and> i < 2 ^ 63)
   \<and> (0 \<le> i \<and> i < 2 ^ 63 \<longrightarrow> get_is_reverse (get_handle i is_reverse) = is_reverse)
   \<and> (- (2 ^ 63) \<le> i \<and> i < 0 \<longrightarrow> get_is_reverse (get_handle i is_reverse))
   \<and> flip (flip h) = h"
  using get_id_range[of "get_handle i is_reverse"]
  by (auto simp: get_id_get_handle get_is_reverse_get_handle flip_flip get_is_reverse_negative)

theorem handle_round_trip_witness:
  "get_id (get_handle 5 True) = 5
   \<and> get_is_reverse (get_handle 5 True) = True
   \<and> get_id (get_handle (- 5) False) \<noteq> - 5
   \<and> get_is_reverse (get_handle (- 5) False)
   \<and> flip (flip (get_handle 5 True)) = get_handle 5 True"
  using handle_round_trip[of 5 True "get_handle 5 True"]
    handle_round_trip[of "- 5" False "get_handle 5 True"] by simp

text \<open>
  The claim as stated fails for a negative id, which \<^verbatim>\<open>create_node(seq, id)\<close> accepts:
  the forward handle of node \<open>-1\<close> reads back as node \<open>2\<^sup>6\<^sup>3 - 1\<close>, reverse.
\<close>

theorem handle_loses_negative_id:
  "get_id (get_handle (- 1) False) = 2 ^ 63 - 1
   \<and> get_is_reverse (get_handle (- 1) False) = True"
  by code_simp

section \<open>Sums of ids\<close>

lemma int64_eq_iff: "int64 x = int64 y \<longleftrightarrow> x mod 2 ^ 64 = y mod 2 ^ 64"
proof -
  have "int64 x = int64 y \<longleftrightarrow> (word_of_int x :: 64 word) = word_of_int y"
    unfolding int64_def by (rule word_eq_iff_signed[symmetric])
  also have "\<dots> \<longleftrightarrow> x mod 2 ^ 64 = y mod 2 ^ 64"
    by (simp add: word_of_int_eq_iff take_bit_eq_mod)
  finally show ?thesis .
qed

lemma int64_id:
  assumes "- (2 ^ 63) \<le> x" "x < 2 ^ 63"
  shows "int64 x = x"
  using assms by (simp add: int64_def sint_sbintrunc' signed_take_bit_int_eq_self)

lemma int64_zero_iff: "int64 x = 0 \<longleftrightarrow> x mod 2 ^ 64 = 0"
  using int64_eq_iff[of x 0] by (simp add: int64_id)

lemma int64_wraps: "int64 (2 ^ 63 - 1 + 1) = - (2 ^ 63)"
  by (simp add: int64_def)

lemma int64_succ:
  assumes "int64 x = int64 y"
  shows "int64 (x + 1) = int64 (y + 1)"
  using assms unfolding int64_eq_iff by (metis mod_add_left_eq)

lemma int64_int64 [simp]: "int64 (int64 x) = int64 x"
  unfolding int64_def by simp

lemma int64_range: "- (2 ^ 63) \<le> int64 x" "int64 x < 2 ^ 63"
  unfolding int64_def using sint_range_size[of "word_of_int x :: 64 word"]
  by (simp_all add: word_size)

lemma int64_numeral: "int64 1 = 1" "int64 2 = 2" "int64 3 = 3" "int64 4 = 4" "int64 11 = 11"
  by (simp_all add: int64_id)
section \<open>Cancelling an iteration over the nodes\<close>

lemma serial_visits:
  "for_each_handle_serial (visit keep) nodes acc =
     acc @ takeWhile keep (forward_handles nodes) @ take 1 (dropWhile keep (forward_handles nodes))"
  by (induction nodes arbitrary: acc) (auto simp: visit_def forward_handles_def)

lemma parallel_visits:
  "for_each_handle_parallel (visit keep) nodes schedule acc =
     acc @ map (\<lambda>i. get_handle (node_id (snd (nodes ! i))) False) schedule"
  by (induction schedule arbitrary: acc) (auto simp: visit_def)

lemma schedule_visits_all:
  assumes "is_schedule (length nodes) schedule"
  shows "mset (map (\<lambda>i. get_handle (node_id (snd (nodes ! i))) False) schedule)
         = mset (forward_handles nodes)"
proof -
  have "mset schedule = mset [0..<length nodes]"
    using assms unfolding is_schedule_def
    by (metis distinct_upt mset_set_set set_upt)
  then have "mset (map ((!) nodes) schedule) = mset (map ((!) nodes) [0..<length nodes])"
    by (metis mset_map)
  then have "mset (map ((!) nodes) schedule) = mset nodes"
    by (simp add: map_nth)
  then have "mset (map (\<lambda>n. get_handle (node_id (snd n)) False) (map ((!) nodes) schedule))
             = mset (map (\<lambda>n. get_handle (node_id (snd n)) False) nodes)"
    by (metis mset_map)
  then show ?thesis by (simp add: forward_handles_def comp_def)
qed

text \<open>
  C7, as the code has it. Serial iteration visits the nodes in array order up to and
  including the first one on which the visitor returns false, and none after it. Parallel
  iteration ignores what the visitor returns: under every schedule each node is visited
  exactly once.
\<close>

theorem for_each_handle_cancellation:
  assumes "is_schedule (length (graph_node g)) schedule"
  shows "for_each_handle g (visit keep) False schedule [] =
           takeWhile keep (forward_handles (graph_node g))
           @ take 1 (dropWhile keep (forward_handles (graph_node g)))
       \<and> mset (for_each_handle g (visit keep) True schedule [])
           = mset (forward_handles (graph_node g))"
  using schedule_visits_all[OF assms]
  by (simp add: for_each_handle_def serial_visits parallel_visits)

lemma two_nodes_array:
  "graph_node two_nodes =
     [(0, \<lparr>node_id = 1, sequence = ''ACGT''\<rparr>), (1, \<lparr>node_id = 2, sequence = ''GGGA''\<rparr>)]"
  by (simp add: two_nodes_def with_node_def create_node_id_def init_def Let_def)

theorem for_each_handle_cancellation_witness:
  "for_each_handle two_nodes (visit never) False [1, 0] [] = [get_handle 1 False]
   \<and> mset (for_each_handle two_nodes (visit never) True [1, 0] [])
       = mset [get_handle 1 False, get_handle 2 False]"
proof -
  have s: "is_schedule (length (graph_node two_nodes)) [1, 0]"
    by (auto simp: is_schedule_def two_nodes_array)
  show ?thesis
    using for_each_handle_cancellation[OF s, of never]
    by (simp add: two_nodes_array forward_handles_def never_def)
qed

text \<open>
  The claim as stated fails on the parallel loop: the visitor returns false on the first
  node it is given, and the second node is visited all the same.
\<close>

theorem parallel_iteration_not_cancelled:
  "for_each_handle two_nodes (visit never) True [0, 1] [] = [get_handle 1 False, get_handle 2 False]"
  by (simp add: for_each_handle_def two_nodes_array visit_def never_def)

section \<open>Creating nodes\<close>

lemma create_node_id_fails_iff: "isl (create_node_id g seq i) \<longleftrightarrow> i = 0"
  by (simp add: create_node_id_def Let_def)

lemma create_node_id_result:
  assumes "i \<noteq> 0"
  shows "\<exists>g'. create_node_id g seq i = Inr (g', next_ptr g)
           \<and> graph_node g' = graph_node g @ [(next_ptr g, \<lparr>node_id = i, sequence = seq\<rparr>)]
           \<and> node_by_id g' i = Some (next_ptr g)
           \<and> node_index g' (next_ptr g) = Some (length (graph_node g))
           \<and> current_id g' = current_id g"
  using assms by (simp add: create_node_id_def Let_def)

lemma create_node_result:
  assumes "next_node_id g \<noteq> 0"
  shows "\<exists>g'. create_node g seq = Inr (g', next_ptr g)
           \<and> graph_node g' = graph_node g @ [(next_ptr g, \<lparr>node_id = next_node_id g, sequence = seq\<rparr>)]
           \<and> node_by_id g' (next_node_id g) = Some (next_ptr g)
           \<and> current_id g' = int64 (next_node_id g + 1)"
  using assms by (auto simp: create_node_def create_node_id_def next_node_id_def Let_def split: if_splits)

lemma create_node_fails:
  assumes "next_node_id g = 0"
  shows "create_node g seq = Inl AssertionFailed"
  using assms by (auto simp: create_node_def create_node_id_def next_node_id_def Let_def split: if_splits)

text \<open>
  C4, as the code has it. \<^verbatim>\<open>create_node(seq)\<close> gives the new node the value of the id
  counter, which is \<open>max_node_id + 1\<close> only while the counter still holds its initial value
  1, and moves the counter one past that id; it fails when that id is 0. Both sums are
  taken in the signed 64-bit \<^verbatim>\<open>id_t\<close>: they are the exact sums as long as these fit, and
  one more than the largest value \<open>2\<^sup>6\<^sup>3 - 1\<close> is the smallest, \<open>- 2\<^sup>6\<^sup>3\<close>.
  \<^verbatim>\<open>create_node(seq, id)\<close> fails exactly when the id is 0; any other id, in use or not,
  gives a new node with exactly that id at the end of the node array, and the id index
  then points at the new node.
\<close>

theorem create_node_assigns_id:
  "(next_node_id g \<noteq> 0 \<longrightarrow>
      (\<exists>g'. create_node g seq = Inr (g', next_ptr g)
         \<and> graph_node g' = graph_node g @ [(next_ptr g, \<lparr>node_id = next_node_id g, sequence = seq\<rparr>)]
         \<and> node_by_id g' (next_node_id g) = Some (next_ptr g)
         \<and> current_id g' = int64 (next_node_id g + 1)))
   \<and> (next_node_id g = 0 \<longrightarrow> create_node g seq = Inl AssertionFailed)
   \<and> (current_id g = 1 \<longrightarrow> next_node_id g = int64 (max_node_id g + 1))
   \<and> (current_id g \<noteq> 1 \<longrightarrow> next_node_id g = current_id g)
   \<and> (- (2 ^ 63) \<le> x \<and> x < 2 ^ 63 - 1 \<longrightarrow> int64 (x + 1) = x + 1)
   \<and> int64 (2 ^ 63 - 1 + 1) = - (2 ^ 63)
   \<and> (isl (create_node_id g seq i) \<longleftrightarrow> i = 0)
   \<and> (i \<noteq> 0 \<longrightarrow>
      (\<exists>g'. create_node_id g seq i = Inr (g', next_ptr g)
         \<and> graph_node g' = graph_node g @ [(next_ptr g, \<lparr>node_id = i, sequence = seq\<rparr>)]
         \<and> node_by_id g' i = Some (next_ptr g)))"
proof -
  have "int64 (x + 1) = x + 1" if "- (2 ^ 63) \<le> x" "x < 2 ^ 63 - 1"
    using that by (intro int64_id) simp_all
  moreover have "\<exists>g'. create_node_id g seq i = Inr (g', next_ptr g)
         \<and> graph_node g' = graph_node g @ [(next_ptr g, \<lparr>node_id = i, sequence = seq\<rparr>)]
         \<and> node_by_id g' i = Some (next_ptr g)" if "i \<noteq> 0"
    using create_node_id_result[OF that, of g seq] by blast
  moreover have "next_node_id g = (if current_id g = 1 then int64 (max_node_id g + 1) else current_id g)"
    by (simp add: next_node_id_def)
  ultimately show ?thesis
    using create_node_result[of g seq] create_node_fails[of g seq] int64_wraps
    by (simp add: create_node_id_fails_iff)
qed

lemma stale_counter_fields:
  "graph_node stale_counter =
     [(0, \<lparr>node_id = 1, sequence = ''A''\<rparr>), (1, \<lparr>node_id = 10, sequence = ''C''\<rparr>)]"
  "current_id stale_counter = 2"
  "next_ptr stale_counter = 2"
  "node_by_id stale_counter 10 = Some 1"
  by (simp_all add: stale_counter_def with_node_def with_new_node_def create_node_def
      create_node_id_def init_def max_node_id_def Let_def int64_id)

text \<open>A graph whose only node has the largest id, with the counter at its initial value.\<close>

lemma largest_id_fields:
  "graph_node largest_id = [(0, \<lparr>node_id = 2 ^ 63 - 1, sequence = ''A''\<rparr>)]"
  "current_id largest_id = 1"
  "next_ptr largest_id = 1"
  by (simp_all add: largest_id_def with_node_def create_node_id_def init_def Let_def)

theorem create_node_assigns_id_witness:
  "(\<exists>g'. create_node stale_counter ''G'' = Inr (g', 2)
      \<and> graph_node g' = graph_node stale_counter @ [(2, \<lparr>node_id = 2, sequence = ''G''\<rparr>)]
      \<and> node_by_id g' 2 = Some 2
      \<and> current_id g' = 3)
   \<and> (\<exists>g'. create_node largest_id ''G'' = Inr (g', 1)
      \<and> graph_node g' = graph_node largest_id @ [(1, \<lparr>node_id = - (2 ^ 63), sequence = ''G''\<rparr>)])
   \<and> create_node (init\<lparr>current_id := 0\<rparr>) ''G'' = Inl AssertionFailed
   \<and> (\<exists>g'. create_node_id stale_counter ''T'' 10 = Inr (g', 2)
      \<and> graph_node g' = graph_node stale_counter @ [(2, \<lparr>node_id = 10, sequence = ''T''\<rparr>)]
      \<and> node_by_id g' 10 = Some 2)"
proof -
  have n1: "next_node_id stale_counter = 2" by (simp add: next_node_id_def stale_counter_fields)
  have n2: "next_node_id largest_id = - (2 ^ 63)"
    using int64_wraps by (simp add: next_node_id_def largest_id_fields max_node_id_def)
  have n3: "next_node_id (init\<lparr>current_id := 0\<rparr>) = 0" by (simp add: next_node_id_def)
  have i3: "int64 3 = 3" by (rule int64_id) simp_all
  have a: "\<exists>g'. create_node stale_counter ''G'' = Inr (g', 2)
      \<and> graph_node g' = graph_node stale_counter @ [(2, \<lparr>node_id = 2, sequence = ''G''\<rparr>)]
      \<and> node_by_id g' 2 = Some 2
      \<and> current_id g' = 3"
    using create_node_assigns_id[of stale_counter "''G''" 0 10]
    by (simp add: n1 i3 stale_counter_fields)
  have b: "\<exists>g'. create_node largest_id ''G'' = Inr (g', 1)
      \<and> graph_node g' = graph_node largest_id @ [(1, \<lparr>node_id = - (2 ^ 63), sequence = ''G''\<rparr>)]"
    using create_node_assigns_id[of largest_id "''G''" 0 10]
    by (auto simp: n2 largest_id_fields)
  have c: "create_node (init\<lparr>current_id := 0\<rparr>) ''G'' = Inl AssertionFailed"
    using create_node_assigns_id[of "init\<lparr>current_id := 0\<rparr>" "''G''" 0 10]
    by (simp add: n3)
  have d: "\<exists>g'. create_node_id stale_counter ''T'' 10 = Inr (g', 2)
      \<and> graph_node g' = graph_node stale_counter @ [(2, \<lparr>node_id = 10, sequence = ''T''\<rparr>)]
      \<and> node_by_id g' 10 = Some 2"
    using create_node_assigns_id[of stale_counter "''T''" 0 10]
    by (simp add: stale_counter_fields)
  show ?thesis using a b c d by simp
qed

text \<open>
  The claim as stated fails twice on the graph with nodes 1 and 10 whose counter is at 2:
  a supplied id that is in use is accepted, and the id handed out by the counter is 2,
  not one more than the largest id.
\<close>

theorem create_node_claim_fails:
  "has_node stale_counter 10
   \<and> \<not> isl (create_node_id stale_counter ''T'' 10)
   \<and> max_node_id stale_counter + 1 = 11
   \<and> map (node_id \<circ> snd) (graph_node (with_new_node stale_counter ''G'')) = [1, 10, 2]"
  by (simp add: stale_counter_fields has_node_def create_node_id_def create_node_def
      with_new_node_def max_node_id_def Let_def int64_id)

section \<open>The edge indices stay consistent\<close>


lemma minmax_commute: "minmax a b = minmax b a"
  by (cases a; cases b) (auto simp: minmax_def side_less_def)

lemma pair_from_edge_sides: "pair_from_edge e = minmax (from_side e) (to_side e)"
  by (simp add: pair_from_edge_def from_side_def to_side_def)

lemma entry_for_inject: "entry_for a b = entry_for a b' \<Longrightarrow> b = b'"
  by (cases b; cases b') (auto simp: entry_for_def)

lemma entry_from: "entry_for (from_side e) (to_side e) = (e_to e, from_start e \<noteq> to_end e)"
  by (auto simp: entry_for_def from_side_def to_side_def)

lemma entry_to: "entry_for (to_side e) (from_side e) = (e_from e, from_start e \<noteq> to_end e)"
  by (auto simp: entry_for_def from_side_def to_side_def)

lemma adjacency_from: "adjacency g (from_side e) = (if from_start e then edges_start g (e_from e) else edges_end g (e_from e))"
  by (simp add: adjacency_def from_side_def)

lemma adjacency_to: "adjacency g (to_side e) = (if to_end e then edges_end g (e_to e) else edges_start g (e_to e))"
  by (simp add: adjacency_def to_side_def)

lemma index_edges_start:
  "edges_start (index_edge_by_node_sides g p e) n =
     edges_start g n
     @ (if from_start e \<and> e_from e = n then [(e_to e, from_start e \<noteq> to_end e)] else [])
     @ (if (e_from e \<noteq> e_to e \<or> from_start e = to_end e) \<and> \<not> to_end e \<and> e_to e = n
        then [(e_from e, from_start e \<noteq> to_end e)] else [])"
  by (cases "from_start e"; cases "to_end e") (simp_all add: index_edge_by_node_sides_def Let_def edges_start_def edges_end_def)

lemma index_edges_end:
  "edges_end (index_edge_by_node_sides g p e) n =
     edges_end g n
     @ (if \<not> from_start e \<and> e_from e = n then [(e_to e, from_start e \<noteq> to_end e)] else [])
     @ (if (e_from e \<noteq> e_to e \<or> from_start e = to_end e) \<and> to_end e \<and> e_to e = n
        then [(e_from e, from_start e \<noteq> to_end e)] else [])"
  by (cases "from_start e"; cases "to_end e") (simp_all add: index_edge_by_node_sides_def Let_def edges_start_def edges_end_def)


text \<open>Taking an element out of a vector keeps the others.\<close>

lemma in_swap_remove: "y \<in> set xs \<Longrightarrow> y \<noteq> x \<Longrightarrow> y \<in> set (swap_remove xs x)"
proof (induction xs)
  case Nil
  then show ?case by simp
next
  case (Cons a xs)
  show ?case
  proof (cases "a = x")
    case True
    with Cons.prems have yin: "y \<in> set xs" by auto
    then have ne: "xs \<noteq> []" by auto
    have "set (last xs # butlast xs) = set xs"
      using ne by (metis append_butlast_last_id insert_is_Un list.simps(15) set_append sup_commute empty_set list.set(2) Un_insert_right sup_bot.right_neutral)
    with yin True ne show ?thesis by simp
  next
    case False
    with Cons show ?thesis by auto
  qed
qed

lemma unindex_edges_start:
  "has_edge g e \<Longrightarrow> edges_start (unindex_edge_by_node_sides g e) n =
     (let l1 = (if from_start e \<and> e_from e = n
                then swap_remove (edges_start g n) (e_to e, from_start e \<noteq> to_end e) else edges_start g n)
      in if (e_from e \<noteq> e_to e \<or> from_start e = to_end e) \<and> \<not> to_end e \<and> e_to e = n
         then swap_remove l1 (e_from e, from_start e \<noteq> to_end e) else l1)"
  by (cases "from_start e"; cases "to_end e")
     (simp_all add: unindex_edge_by_node_sides_def Let_def edges_start_def edges_end_def store_ends_def)

lemma unindex_edges_end:
  "has_edge g e \<Longrightarrow> edges_end (unindex_edge_by_node_sides g e) n =
     (let l1 = (if \<not> from_start e \<and> e_from e = n
                then swap_remove (edges_end g n) (e_to e, from_start e \<noteq> to_end e) else edges_end g n)
      in if (e_from e \<noteq> e_to e \<or> from_start e = to_end e) \<and> to_end e \<and> e_to e = n
         then swap_remove l1 (e_from e, from_start e \<noteq> to_end e) else l1)"
  by (cases "from_start e"; cases "to_end e")
     (simp_all add: unindex_edge_by_node_sides_def Let_def edges_start_def edges_end_def store_ends_def)

lemma index_adjacency_mono: "x \<in> set (adjacency g a) \<Longrightarrow> x \<in> set (adjacency (index_edge_by_node_sides g p e) a)"
  by (cases "snd a") (auto simp: adjacency_def index_edges_start index_edges_end)

lemma index_adjacency_from:
  "entry_for (from_side e) (to_side e) \<in> set (adjacency (index_edge_by_node_sides g p e) (from_side e))"
  by (cases "from_start e") (auto simp: adjacency_from entry_from index_edges_start index_edges_end)

lemma index_adjacency_to:
  "entry_for (to_side e) (from_side e) \<in> set (adjacency (index_edge_by_node_sides g p e) (to_side e))"
  by (cases "from_start e"; cases "to_end e") (auto simp: adjacency_to entry_to index_edges_start index_edges_end)

lemma unindex_adjacency_keep:
  assumes "has_edge g e" "y \<in> set (adjacency g a)"
    and "a = from_side e \<longrightarrow> y \<noteq> entry_for (from_side e) (to_side e)"
    and "a = to_side e \<longrightarrow> y \<noteq> entry_for (to_side e) (from_side e)"
  shows "y \<in> set (adjacency (unindex_edge_by_node_sides g e) a)"
proof (cases "snd a")
  case True
  have "y \<in> set (edges_end (unindex_edge_by_node_sides g e) (fst a))"
    using assms True
    by (cases a) (auto simp: unindex_edges_end adjacency_def Let_def from_side_def to_side_def entry_for_def intro!: in_swap_remove)
  then show ?thesis using True by (simp add: adjacency_def)
next
  case False
  have "y \<in> set (edges_start (unindex_edge_by_node_sides g e) (fst a))"
    using assms False
    by (cases a) (auto simp: unindex_edges_start adjacency_def Let_def from_side_def to_side_def entry_for_def intro!: in_swap_remove)
  then show ?thesis using False by (simp add: adjacency_def)
qed

lemma unindex_fields:
  "graph_edge (unindex_edge_by_node_sides g e) = graph_edge g"
  "graph_node (unindex_edge_by_node_sides g e) = graph_node g"
  "edge_index (unindex_edge_by_node_sides g e) = edge_index g"
  "node_index (unindex_edge_by_node_sides g e) = node_index g"
  "node_by_id (unindex_edge_by_node_sides g e) = node_by_id g"
  "next_ptr (unindex_edge_by_node_sides g e) = next_ptr g"
  "current_id (unindex_edge_by_node_sides g e) = current_id g"
  "paths (unindex_edge_by_node_sides g e) = paths g"
  "has_edge g e \<Longrightarrow>
     edge_by_sides (unindex_edge_by_node_sides g e) = (edge_by_sides g)(pair_from_edge e := None)"
  by (simp_all add: unindex_edge_by_node_sides_def Let_def)

lemma adjacency_cong:
  "edges_on_start g' = edges_on_start g \<Longrightarrow> edges_on_end g' = edges_on_end g
   \<Longrightarrow> adjacency g' = adjacency g"
  by (auto simp: adjacency_def edges_start_def edges_end_def fun_eq_iff)

lemma index_fields:
  "graph_edge (index_edge_by_node_sides g p e) = graph_edge g"
  "graph_node (index_edge_by_node_sides g p e) = graph_node g"
  "edge_index (index_edge_by_node_sides g p e) = edge_index g"
  "node_index (index_edge_by_node_sides g p e) = node_index g"
  "node_by_id (index_edge_by_node_sides g p e) = node_by_id g"
  "next_ptr (index_edge_by_node_sides g p e) = next_ptr g"
  "current_id (index_edge_by_node_sides g p e) = current_id g"
  "paths (index_edge_by_node_sides g p e) = paths g"
  "edge_by_sides (index_edge_by_node_sides g p e) = (edge_by_sides g)(pair_from_edge e \<mapsto> p)"
  by (simp_all add: index_edge_by_node_sides_def Let_def)

subsection \<open>Creating an edge\<close>


lemma pair_unique:
  assumes "edge_wf g" "(p, e) \<in> set (graph_edge g)" "(p', e') \<in> set (graph_edge g)"
    "pair_from_edge e = pair_from_edge e'"
  shows "p = p' \<and> e = e'"
proof -
  have "edge_by_sides g (pair_from_edge e) = Some p" "edge_by_sides g (pair_from_edge e') = Some p'"
    using assms unfolding edge_wf_def edge_invariant_def by force+
  then have "p = p'" using assms(4) by simp
  moreover have "distinct (map fst (graph_edge g))" using assms(1) by (simp add: edge_wf_def)
  ultimately show ?thesis using assms(2,3) by (metis eq_key_imp_eq_value)
qed

lemma create_edge_existing:
  "get_edge g (f, \<not> fs) (t, te) = Some p \<Longrightarrow> create_edge g f t fs te = (g, p)"
  by (simp add: create_edge_def)

lemma create_edge_new:
  assumes "get_edge g (f, \<not> fs) (t, te) = None"
  shows "create_edge g f t fs te =
           (new_edge_state g \<lparr>e_from = f, e_to = t, from_start = fs, to_end = te\<rparr>, next_ptr g)"
proof -
  have "\<not> has_edge (g\<lparr>graph_edge := graph_edge g @ [(next_ptr g, \<lparr>e_from = f, e_to = t, from_start = fs, to_end = te\<rparr>)],
                       next_ptr := Suc (next_ptr g)\<rparr>) \<lparr>e_from = f, e_to = t, from_start = fs, to_end = te\<rparr>"
    using assms by (simp add: has_edge_def get_edge_def pair_from_edge_def)
  then show ?thesis
    using assms
    by (simp add: create_edge_def Let_def set_edge_def new_edge_state_def index_edge_by_node_sides_def)
qed

lemma new_edge_fields:
  "graph_edge (new_edge_state g e) = graph_edge g @ [(next_ptr g, e)]"
  "graph_node (new_edge_state g e) = graph_node g"
  "edge_index (new_edge_state g e) = (edge_index g)(next_ptr g \<mapsto> length (graph_edge g))"
  "node_index (new_edge_state g e) = node_index g"
  "node_by_id (new_edge_state g e) = node_by_id g"
  "next_ptr (new_edge_state g e) = Suc (next_ptr g)"
  "current_id (new_edge_state g e) = current_id g"
  "paths (new_edge_state g e) = paths g"
  "edge_by_sides (new_edge_state g e) = (edge_by_sides g)(pair_from_edge e \<mapsto> next_ptr g)"
  by (simp_all add: new_edge_state_def index_edge_by_node_sides_def Let_def)

lemma adjacency_edge_index_upd: "adjacency (g\<lparr>edge_index := x\<rparr>) = adjacency g"
  by (rule ext) (simp add: adjacency_def edges_start_def edges_end_def)

lemma adjacency_graph_edge_upd: "adjacency (g\<lparr>graph_edge := x, next_ptr := y\<rparr>) = adjacency g"
  by (rule ext) (simp add: adjacency_def edges_start_def edges_end_def)

lemma new_edge_adjacency_mono:
  "x \<in> set (adjacency g a) \<Longrightarrow> x \<in> set (adjacency (new_edge_state g e) a)"
  unfolding new_edge_state_def adjacency_edge_index_upd
  by (rule index_adjacency_mono) (simp add: adjacency_graph_edge_upd)

lemma new_edge_adjacency_from:
  "entry_for (from_side e) (to_side e) \<in> set (adjacency (new_edge_state g e) (from_side e))"
  unfolding new_edge_state_def adjacency_edge_index_upd by (rule index_adjacency_from)

lemma new_edge_adjacency_to:
  "entry_for (to_side e) (from_side e) \<in> set (adjacency (new_edge_state g e) (to_side e))"
  unfolding new_edge_state_def adjacency_edge_index_upd by (rule index_adjacency_to)

lemma new_edge_wf:
  assumes wf: "edge_wf g" and none: "edge_by_sides g (pair_from_edge e) = None"
  shows "edge_wf (new_edge_state g e)"
proof -
  let ?g = "new_edge_state g e"
  have inv: "edge_invariant g" and dist: "distinct (map fst (graph_edge g))"
    and idx: "\<forall>i < length (graph_edge g). edge_index g (fst (graph_edge g ! i)) = Some i"
    and ran: "\<forall>k p. edge_by_sides g k = Some p \<longrightarrow> (\<exists>e. (p, e) \<in> set (graph_edge g) \<and> pair_from_edge e = k)"
    and fresh: "\<forall>pe \<in> set (graph_edge g). fst pe < next_ptr g"
    using wf by (simp_all add: edge_wf_def)
  have other: "pair_from_edge (snd pe) \<noteq> pair_from_edge e" if "pe \<in> set (graph_edge g)" for pe
    using inv that none unfolding edge_invariant_def by force
  have nofilter: "filter (\<lambda>x. pair_from_edge (snd x) = pair_from_edge e) (graph_edge g) = []"
    using other by (auto simp: filter_empty_conv)
  have old: "entry_for (from_side (snd pe)) (to_side (snd pe)) \<in> set (adjacency ?g (from_side (snd pe)))
      \<and> entry_for (to_side (snd pe)) (from_side (snd pe)) \<in> set (adjacency ?g (to_side (snd pe)))
      \<and> edge_by_sides ?g (pair_from_edge (snd pe)) = Some (fst pe)
      \<and> length (filter (\<lambda>x. pair_from_edge (snd x) = pair_from_edge (snd pe)) (graph_edge ?g)) = 1"
    if "pe \<in> set (graph_edge g)" for pe
  proof -
    have h: "entry_for (from_side (snd pe)) (to_side (snd pe)) \<in> set (adjacency g (from_side (snd pe)))"
      "entry_for (to_side (snd pe)) (from_side (snd pe)) \<in> set (adjacency g (to_side (snd pe)))"
      "edge_by_sides g (pair_from_edge (snd pe)) = Some (fst pe)"
      "length (filter (\<lambda>x. pair_from_edge (snd x) = pair_from_edge (snd pe)) (graph_edge g)) = 1"
      using inv that unfolding edge_invariant_def by blast+
    have ne: "pair_from_edge e \<noteq> pair_from_edge (snd pe)" using other[OF that] by simp
    show ?thesis
      using h ne by (simp add: new_edge_fields new_edge_adjacency_mono)
  qed
  have new: "entry_for (from_side e) (to_side e) \<in> set (adjacency ?g (from_side e))
      \<and> entry_for (to_side e) (from_side e) \<in> set (adjacency ?g (to_side e))
      \<and> edge_by_sides ?g (pair_from_edge e) = Some (next_ptr g)
      \<and> length (filter (\<lambda>x. pair_from_edge (snd x) = pair_from_edge e) (graph_edge ?g)) = 1"
    by (simp add: new_edge_fields new_edge_adjacency_from new_edge_adjacency_to nofilter)
  have inv': "edge_invariant ?g"
    unfolding edge_invariant_def
  proof
    fix pe assume "pe \<in> set (graph_edge ?g)"
    then consider "pe \<in> set (graph_edge g)" | "pe = (next_ptr g, e)"
      by (auto simp: new_edge_fields)
    then show "entry_for (from_side (snd pe)) (to_side (snd pe)) \<in> set (adjacency ?g (from_side (snd pe)))
      \<and> entry_for (to_side (snd pe)) (from_side (snd pe)) \<in> set (adjacency ?g (to_side (snd pe)))
      \<and> edge_by_sides ?g (pair_from_edge (snd pe)) = Some (fst pe)
      \<and> length (filter (\<lambda>x. pair_from_edge (snd x) = pair_from_edge (snd pe)) (graph_edge ?g)) = 1"
    proof cases
      case 1 then show ?thesis by (rule old)
    next
      case 2 then show ?thesis using new by simp
    qed
  qed
  have notin: "next_ptr g \<notin> fst ` set (graph_edge g)" using fresh by auto
  have dist': "distinct (map fst (graph_edge ?g))"
    using dist notin by (simp add: new_edge_fields)
  have idx': "\<forall>i < length (graph_edge ?g). edge_index ?g (fst (graph_edge ?g ! i)) = Some i"
  proof (intro allI impI)
    fix i assume "i < length (graph_edge ?g)"
    then have "i < length (graph_edge g) \<or> i = length (graph_edge g)"
      by (auto simp: new_edge_fields)
    then consider "i < length (graph_edge g)" | "i = length (graph_edge g)"
      by blast
    then show "edge_index ?g (fst (graph_edge ?g ! i)) = Some i"
    proof cases
      case 1
      then have "fst (graph_edge g ! i) \<noteq> next_ptr g" using notin by (metis image_eqI nth_mem)
      with 1 idx show ?thesis by (simp add: new_edge_fields nth_append)
    next
      case 2 then show ?thesis by (simp add: new_edge_fields)
    qed
  qed
  have ran': "\<forall>k p. edge_by_sides ?g k = Some p \<longrightarrow> (\<exists>e'. (p, e') \<in> set (graph_edge ?g) \<and> pair_from_edge e' = k)"
  proof (intro allI impI)
    fix k p assume kp: "edge_by_sides ?g k = Some p"
    show "\<exists>e'. (p, e') \<in> set (graph_edge ?g) \<and> pair_from_edge e' = k"
    proof (cases "k = pair_from_edge e")
      case True
      with kp have "p = next_ptr g" by (simp add: new_edge_fields)
      with True show ?thesis by (auto simp: new_edge_fields)
    next
      case False
      with kp have "edge_by_sides g k = Some p" by (simp add: new_edge_fields)
      with ran obtain e' where "(p, e') \<in> set (graph_edge g)" "pair_from_edge e' = k" by blast
      then show ?thesis by (auto simp: new_edge_fields)
    qed
  qed
  have fresh': "\<forall>pe \<in> set (graph_edge ?g). fst pe < next_ptr ?g"
    using fresh by (auto simp: new_edge_fields)
  show ?thesis
    unfolding edge_wf_def using inv' dist' idx' ran' fresh' by blast
qed

lemma create_edge_wf:
  assumes "edge_wf g"
  shows "edge_wf (fst (create_edge g f t fs te))"
proof (cases "get_edge g (f, \<not> fs) (t, te)")
  case None
  then have "edge_by_sides g (pair_from_edge \<lparr>e_from = f, e_to = t, from_start = fs, to_end = te\<rparr>) = None"
    by (simp add: get_edge_def pair_from_edge_def)
  then show ?thesis using assms None by (simp add: create_edge_new new_edge_wf)
next
  case (Some p)
  then show ?thesis using assms by (simp add: create_edge_existing)
qed

subsection \<open>Removing from an array by swapping with the last element\<close>


lemma remove_swap_length: "length (remove_swap xs i) = length xs - 1"
  by (simp add: remove_swap_def)

lemma remove_swap_nth:
  assumes "j < length xs - 1"
  shows "remove_swap xs i ! j = (if j = i then last xs else xs ! j)"
  using assms by (simp add: remove_swap_def nth_butlast)

lemma remove_swap_set:
  assumes "distinct xs" "i < length xs"
  shows "set (remove_swap xs i) = set xs - {xs ! i}"
proof -
  from assms(2) have ne: "xs \<noteq> []" by auto
  then obtain ys l where xs: "xs = ys @ [l]" by (metis append_butlast_last_id)
  from assms(1) xs have d: "distinct ys" "l \<notin> set ys" by auto
  show ?thesis
  proof (cases "i = length ys")
    case True
    then show ?thesis using xs d by (auto simp: remove_swap_def)
  next
    case False
    with assms(2) xs have i: "i < length ys" by simp
    have "remove_swap xs i = ys[i := l]"
      using xs i by (simp add: remove_swap_def list_update_append)
    moreover have "set (ys[i := l]) = insert l (set ys - {ys ! i})"
      using d i by (simp add: set_update_distinct)
    ultimately show ?thesis using xs i d by (auto simp: nth_append)
  qed
qed

lemma remove_swap_distinct:
  assumes "distinct xs"
  shows "distinct (remove_swap xs i)"
proof (cases "i < length xs")
  case False
  then have "xs[i := last xs] = xs" by (simp add: list_update_beyond)
  then show ?thesis using assms by (simp add: remove_swap_def distinct_butlast)
next
  case True
  then have ne: "xs \<noteq> []" by auto
  then obtain ys l where xs: "xs = ys @ [l]" by (metis append_butlast_last_id)
  from assms xs have d: "distinct ys" "l \<notin> set ys" by auto
  show ?thesis
  proof (cases "i = length ys")
    case True
    then show ?thesis using xs d by (auto simp: remove_swap_def)
  next
    case False
    with True xs have i: "i < length ys" by simp
    have "remove_swap xs i = ys[i := l]"
      using xs i by (simp add: remove_swap_def list_update_append)
    then show ?thesis using d i by (simp add: distinct_list_update)
  qed
qed

lemma remove_swap_map: "map f (remove_swap xs i) = remove_swap (map f xs) i"
  by (cases "xs = []") (simp_all add: remove_swap_def map_butlast map_update last_map)

lemma swap_elements_butlast:
  assumes "i < length xs"
  shows "butlast (swap_elements xs i (length xs - 1)) = remove_swap xs i"
proof -
  from assms have ne: "xs \<noteq> []" by auto
  then have l: "last xs = xs ! (length xs - 1)" by (rule last_conv_nth)
  show ?thesis
    using assms by (simp add: swap_elements_def remove_swap_def butlast_list_update l)
qed

lemma butlast_remove_swap_last: "butlast xs = remove_swap xs (length xs - 1)"
  by (cases "xs = []") (simp_all add: remove_swap_def last_conv_nth)

subsection \<open>Destroying an edge\<close>


lemma filter_key_singleton:
  assumes "distinct xs" "x \<in> set xs" "\<forall>y \<in> set xs. key y = key x \<longrightarrow> y = x"
  shows "filter (\<lambda>y. key y = key x) xs = [x]"
  using assms
proof (induction xs)
  case Nil
  then show ?case by simp
next
  case (Cons a xs)
  show ?case
  proof (cases "a = x")
    case True
    with Cons.prems have "\<forall>y \<in> set xs. key y \<noteq> key x" by auto
    then have "filter (\<lambda>y. key y = key x) xs = []" by (simp add: filter_empty_conv)
    with True show ?thesis by simp
  next
    case False
    with Cons.prems have "key a \<noteq> key x" by auto
    moreover have "filter (\<lambda>y. key y = key x) xs = [x]"
      using Cons False by auto
    ultimately show ?thesis by simp
  qed
qed

lemma edge_wf_deref:
  assumes "edge_wf g" "(p, e) \<in> set (graph_edge g)"
  shows "deref_edge g p = Some e" "has_edge g e" "edge_by_sides g (pair_from_edge e) = Some p"
proof -
  have d: "distinct (map fst (graph_edge g))" using assms(1) by (simp add: edge_wf_def)
  show "deref_edge g p = Some e" using d assms(2) by (simp add: deref_edge_def)
  show s: "edge_by_sides g (pair_from_edge e) = Some p"
    using assms unfolding edge_wf_def edge_invariant_def by force
  then show "has_edge g e" by (simp add: has_edge_def)
qed

lemma edge_wf_index:
  assumes "edge_wf g" "(p, e) \<in> set (graph_edge g)"
  obtains i where "i < length (graph_edge g)" "graph_edge g ! i = (p, e)" "edge_index g p = Some i"
proof -
  from assms(2) obtain i where i: "i < length (graph_edge g)" "graph_edge g ! i = (p, e)"
    by (auto simp: in_set_conv_nth)
  have "edge_index g (fst (graph_edge g ! i)) = Some i"
    using assms(1) i(1) by (simp add: edge_wf_def)
  with i that show ?thesis by simp
qed

lemma destroy_edge_result:
  assumes wf: "edge_wf g" and mem: "(p, e) \<in> set (graph_edge g)"
    and i: "i < length (graph_edge g)" "graph_edge g ! i = (p, e)"
  shows "\<exists>g'. destroy_edge g (Some p) = Inr g'
          \<and> graph_edge g' = remove_swap (graph_edge g) i
          \<and> edge_by_sides g' = (edge_by_sides g)(pair_from_edge e := None)
          \<and> edge_index g' = (if i = length (graph_edge g) - 1 then (edge_index g)(p := None)
                               else (edge_index g)(p := None, fst (last (graph_edge g)) \<mapsto> i))
          \<and> edges_on_start g' = edges_on_start (unindex_edge_by_node_sides g e)
          \<and> edges_on_end g' = edges_on_end (unindex_edge_by_node_sides g e)
          \<and> graph_node g' = graph_node g \<and> node_index g' = node_index g \<and> node_by_id g' = node_by_id g
          \<and> next_ptr g' = next_ptr g \<and> current_id g' = current_id g \<and> paths g' = paths g"
proof -
  note d = edge_wf_deref[OF wf mem]
  have idx: "edge_index g p = Some i"
    using wf i by (metis edge_wf_def fst_conv)
  have ne: "graph_edge g \<noteq> []" using i by auto
  let ?g1 = "unindex_edge_by_node_sides g e"
  show ?thesis
  proof (cases "i = length (graph_edge g) - 1")
    case True
    then show ?thesis
      using d idx
      by (simp add: destroy_edge_def Let_def unindex_fields butlast_remove_swap_last)
  next
    case False
    let ?l = "last (graph_edge g)"
    have lnth: "graph_edge g ! (length (graph_edge g) - 1) = ?l" using ne by (simp add: last_conv_nth)
    have lmem: "?l \<in> set (graph_edge g)" using ne by simp
    have "?l \<noteq> (p, e)"
    proof
      assume "?l = (p, e)"
      then have "graph_edge g ! (length (graph_edge g) - 1) = graph_edge g ! i" using lnth i by simp
      moreover have "distinct (graph_edge g)" using wf by (metis distinct_map edge_wf_def)
      moreover have "length (graph_edge g) - 1 < length (graph_edge g)" using ne by simp
      ultimately have "length (graph_edge g) - 1 = i"
        using i(1) by (simp add: nth_eq_iff_index_eq)
      with False show False by simp
    qed
    then have "pair_from_edge (snd ?l) \<noteq> pair_from_edge e"
      using pair_unique[OF wf mem, of "fst ?l" "snd ?l"] lmem by (metis prod.collapse)
    moreover have "edge_by_sides g (pair_from_edge (snd ?l)) = Some (fst ?l)"
      using edge_wf_deref(3)[OF wf, of "fst ?l" "snd ?l"] lmem by simp
    ultimately have he: "pair_from_edge (snd ?l) \<noteq> pair_from_edge e"
        "edge_by_sides g (pair_from_edge (snd ?l)) = Some (fst ?l)"
      by simp_all
    have sw: "swap_elements (graph_edge g) i (length (graph_edge g) - 1) ! i = ?l"
      using i lnth False by (auto simp: swap_elements_def nth_list_update)
    have sb: "butlast (swap_elements (graph_edge g) i (length (graph_edge g) - Suc 0))
              = remove_swap (graph_edge g) i"
      using swap_elements_butlast[OF i(1)] by simp
    show ?thesis
      using d idx False i he sw lnth sb
      by (simp add: destroy_edge_def Let_def unindex_fields set_edge_def has_edge_def)
  qed
qed

lemma edge_wf_intro:
  assumes dist: "distinct (map fst (graph_edge g))"
    and ent: "\<And>pe. pe \<in> set (graph_edge g) \<Longrightarrow>
        entry_for (from_side (snd pe)) (to_side (snd pe)) \<in> set (adjacency g (from_side (snd pe)))
      \<and> entry_for (to_side (snd pe)) (from_side (snd pe)) \<in> set (adjacency g (to_side (snd pe)))
      \<and> edge_by_sides g (pair_from_edge (snd pe)) = Some (fst pe)"
    and idx: "\<forall>i < length (graph_edge g). edge_index g (fst (graph_edge g ! i)) = Some i"
    and ran: "\<forall>k p. edge_by_sides g k = Some p \<longrightarrow> (\<exists>e. (p, e) \<in> set (graph_edge g) \<and> pair_from_edge e = k)"
    and fresh: "\<forall>pe \<in> set (graph_edge g). fst pe < next_ptr g"
  shows "edge_wf g"
proof -
  have d: "distinct (graph_edge g)" using dist by (simp add: distinct_map)
  have count: "length (filter (\<lambda>x. pair_from_edge (snd x) = pair_from_edge (snd pe)) (graph_edge g)) = 1"
    if pe: "pe \<in> set (graph_edge g)" for pe
  proof -
    have "\<forall>y \<in> set (graph_edge g). pair_from_edge (snd y) = pair_from_edge (snd pe) \<longrightarrow> y = pe"
    proof (intro ballI impI)
      fix y assume y: "y \<in> set (graph_edge g)" "pair_from_edge (snd y) = pair_from_edge (snd pe)"
      have "edge_by_sides g (pair_from_edge (snd y)) = Some (fst y)"
        "edge_by_sides g (pair_from_edge (snd pe)) = Some (fst pe)"
        using ent[OF y(1)] ent[OF pe] by simp_all
      then have "fst y = fst pe" using y(2) by simp
      then show "y = pe" using dist y(1) pe by (metis eq_key_imp_eq_value prod.collapse)
    qed
    then have "filter (\<lambda>x. pair_from_edge (snd x) = pair_from_edge (snd pe)) (graph_edge g) = [pe]"
      using filter_key_singleton[OF d pe, of "\<lambda>x. pair_from_edge (snd x)"] by simp
    then show ?thesis by simp
  qed
  have "edge_invariant g"
    unfolding edge_invariant_def using ent count by blast
  then show ?thesis unfolding edge_wf_def using dist idx ran fresh by blast
qed

lemma edge_wf_entries:
  assumes "edge_wf g" "(p, e) \<in> set (graph_edge g)"
  shows "entry_for (from_side e) (to_side e) \<in> set (adjacency g (from_side e))"
    "entry_for (to_side e) (from_side e) \<in> set (adjacency g (to_side e))"
  using assms unfolding edge_wf_def edge_invariant_def by force+

lemma destroy_edge_member_wf:
  assumes wf: "edge_wf g" and mem: "(p, e) \<in> set (graph_edge g)"
    and res: "destroy_edge g (Some p) = Inr g'"
  shows "edge_wf g' \<and> set (graph_edge g') = set (graph_edge g) - {(p, e)}"
proof -
  obtain i where i: "i < length (graph_edge g)" "graph_edge g ! i = (p, e)"
    using mem by (auto simp: in_set_conv_nth)
  from destroy_edge_result[OF wf mem i] res
  have ge: "graph_edge g' = remove_swap (graph_edge g) i"
    and es: "edge_by_sides g' = (edge_by_sides g)(pair_from_edge e := None)"
    and ei: "edge_index g' = (if i = length (graph_edge g) - 1 then (edge_index g)(p := None)
                               else (edge_index g)(p := None, fst (last (graph_edge g)) \<mapsto> i))"
    and adj: "edges_on_start g' = edges_on_start (unindex_edge_by_node_sides g e)"
      "edges_on_end g' = edges_on_end (unindex_edge_by_node_sides g e)"
    and np: "next_ptr g' = next_ptr g"
    by auto
  have dist: "distinct (map fst (graph_edge g))" using wf by (simp add: edge_wf_def)
  then have d: "distinct (graph_edge g)" by (simp add: distinct_map)
  have setg: "set (graph_edge g') = set (graph_edge g) - {(p, e)}"
    using remove_swap_set[OF d i(1)] i(2) ge by simp
  have dist': "distinct (map fst (graph_edge g'))"
    using dist by (simp add: ge remove_swap_map remove_swap_distinct)
  have adj': "adjacency g' = adjacency (unindex_edge_by_node_sides g e)"
    using adj by (rule adjacency_cong)
  have he: "has_edge g e" using edge_wf_deref(2)[OF wf mem] .
  have ent: "entry_for (from_side (snd pe)) (to_side (snd pe)) \<in> set (adjacency g' (from_side (snd pe)))
      \<and> entry_for (to_side (snd pe)) (from_side (snd pe)) \<in> set (adjacency g' (to_side (snd pe)))
      \<and> edge_by_sides g' (pair_from_edge (snd pe)) = Some (fst pe)"
    if pe: "pe \<in> set (graph_edge g')" for pe
  proof -
    from pe setg have m: "(fst pe, snd pe) \<in> set (graph_edge g)" and ne: "pe \<noteq> (p, e)" by auto
    have np: "pair_from_edge (snd pe) \<noteq> pair_from_edge e"
      using pair_unique[OF wf m mem] ne by (metis prod.collapse)
    then have np': "minmax (from_side (snd pe)) (to_side (snd pe)) \<noteq> minmax (from_side e) (to_side e)"
      by (simp add: pair_from_edge_sides)
    have a1: "entry_for (from_side (snd pe)) (to_side (snd pe)) \<in> set (adjacency g' (from_side (snd pe)))"
      unfolding adj'
    proof (rule unindex_adjacency_keep[OF he edge_wf_entries(1)[OF wf m]]; rule impI; rule notI)
      assume "from_side (snd pe) = from_side e"
        "entry_for (from_side (snd pe)) (to_side (snd pe)) = entry_for (from_side e) (to_side e)"
      then show False using np' entry_for_inject by metis
    next
      assume "from_side (snd pe) = to_side e"
        "entry_for (from_side (snd pe)) (to_side (snd pe)) = entry_for (to_side e) (from_side e)"
      then show False using np' entry_for_inject minmax_commute by metis
    qed
    have a2: "entry_for (to_side (snd pe)) (from_side (snd pe)) \<in> set (adjacency g' (to_side (snd pe)))"
      unfolding adj'
    proof (rule unindex_adjacency_keep[OF he edge_wf_entries(2)[OF wf m]]; rule impI; rule notI)
      assume "to_side (snd pe) = from_side e"
        "entry_for (to_side (snd pe)) (from_side (snd pe)) = entry_for (from_side e) (to_side e)"
      then show False using np' entry_for_inject minmax_commute by metis
    next
      assume "to_side (snd pe) = to_side e"
        "entry_for (to_side (snd pe)) (from_side (snd pe)) = entry_for (to_side e) (from_side e)"
      then show False using np' entry_for_inject by metis
    qed
    have a3: "edge_by_sides g' (pair_from_edge (snd pe)) = Some (fst pe)"
      using edge_wf_deref(3)[OF wf m] np by (simp add: es)
    show ?thesis using a1 a2 a3 by simp
  qed
  have idx: "\<forall>j < length (graph_edge g). edge_index g (fst (graph_edge g ! j)) = Some j"
    using wf by (simp add: edge_wf_def)
  have nth_inj: "fst (graph_edge g ! j) = fst (graph_edge g ! k) \<longleftrightarrow> j = k"
    if "j < length (graph_edge g)" "k < length (graph_edge g)" for j k
    using dist that by (metis length_map nth_eq_iff_index_eq nth_map)
  have ne: "graph_edge g \<noteq> []" using i by auto
  have lastn: "last (graph_edge g) = graph_edge g ! (length (graph_edge g) - 1)"
    using ne by (rule last_conv_nth)
  have idx': "\<forall>j < length (graph_edge g'). edge_index g' (fst (graph_edge g' ! j)) = Some j"
  proof (intro allI impI)
    fix j assume "j < length (graph_edge g')"
    then have j: "j < length (graph_edge g) - 1" by (simp add: ge remove_swap_length)
    then have jl: "j < length (graph_edge g)" "j \<noteq> length (graph_edge g) - 1" by auto
    have nthj: "graph_edge g' ! j = (if j = i then last (graph_edge g) else graph_edge g ! j)"
      using j by (simp add: ge remove_swap_nth)
    show "edge_index g' (fst (graph_edge g' ! j)) = Some j"
    proof (cases "j = i")
      case True
      then have "i \<noteq> length (graph_edge g) - 1" using jl by simp
      then show ?thesis using True nthj by (simp add: ei)
    next
      case False
      have "fst (graph_edge g ! j) \<noteq> p" using nth_inj[OF jl(1) i(1)] False i(2) by auto
      moreover have "fst (graph_edge g ! j) \<noteq> fst (last (graph_edge g))"
        using nth_inj[OF jl(1), of "length (graph_edge g) - 1"] jl ne lastn by simp
      ultimately show ?thesis using False nthj idx jl by (simp add: ei)
    qed
  qed
  have ran: "\<forall>k q. edge_by_sides g k = Some q \<longrightarrow> (\<exists>e. (q, e) \<in> set (graph_edge g) \<and> pair_from_edge e = k)"
    using wf by (simp add: edge_wf_def)
  have ran': "\<forall>k q. edge_by_sides g' k = Some q \<longrightarrow> (\<exists>e'. (q, e') \<in> set (graph_edge g') \<and> pair_from_edge e' = k)"
  proof (intro allI impI)
    fix k q assume "edge_by_sides g' k = Some q"
    then have k: "k \<noteq> pair_from_edge e" "edge_by_sides g k = Some q"
      by (auto simp: es split: if_splits)
    with ran obtain e' where e': "(q, e') \<in> set (graph_edge g)" "pair_from_edge e' = k" by blast
    with k have "(q, e') \<noteq> (p, e)" by auto
    with e' show "\<exists>e'. (q, e') \<in> set (graph_edge g') \<and> pair_from_edge e' = k"
      using setg by auto
  qed
  have fresh': "\<forall>pe \<in> set (graph_edge g'). fst pe < next_ptr g'"
    using wf setg np by (auto simp: edge_wf_def)
  show ?thesis using edge_wf_intro[OF dist' ent idx' ran' fresh'] setg by simp
qed

lemma destroy_edge_wf:
  assumes wf: "edge_wf g" and res: "destroy_edge g edge = Inr g'"
  shows "edge_wf g'"
proof (cases edge)
  case None
  with res wf show ?thesis by (simp add: destroy_edge_def)
next
  case (Some p)
  show ?thesis
  proof (cases "deref_edge g p")
    case None
    with res Some show ?thesis by (simp add: destroy_edge_def)
  next
    case (Some e)
    then have "(p, e) \<in> set (graph_edge g)" by (simp add: deref_edge_def map_of_SomeD)
    then show ?thesis using destroy_edge_member_wf[OF wf] res \<open>edge = Some p\<close> by blast
  qed
qed

subsection \<open>Destroying the edges of a node\<close>


lemma minmax_idem: "minmax (fst (minmax a b)) (snd (minmax a b)) = minmax a b"
  by (cases a; cases b) (auto simp: minmax_def side_less_def)

lemma pair_from_start_edge_entry: "pair_from_start_edge n (entry_for (n, False) b) = minmax (n, False) b"
  by (cases b) (simp add: pair_from_start_edge_def entry_for_def)

lemma pair_from_end_edge_entry: "pair_from_end_edge n (entry_for (n, True) b) = minmax (n, True) b"
  by (cases b) (simp add: pair_from_end_edge_def entry_for_def)

lemma pair_from_start_edge_norm:
  "minmax (fst (pair_from_start_edge n x)) (snd (pair_from_start_edge n x)) = pair_from_start_edge n x"
  by (simp add: pair_from_start_edge_def minmax_idem)

lemma pair_from_end_edge_norm:
  "minmax (fst (pair_from_end_edge n x)) (snd (pair_from_end_edge n x)) = pair_from_end_edge n x"
  by (simp add: pair_from_end_edge_def minmax_idem)

lemma minmax_sides: "minmax a b = minmax c d \<Longrightarrow> (a = c \<and> b = d) \<or> (a = d \<and> b = c)"
  by (cases a; cases b; cases c; cases d) (auto simp: minmax_def side_less_def split: if_splits)

lemma set_set_insert: "set (set_insert lt x xs) = insert x (set xs)"
  by (induction xs) auto

lemma set_fold_set_insert: "set (fold (\<lambda>x acc. set_insert lt (f x) acc) xs acc0) = f ` set xs \<union> set acc0"
  by (induction xs arbitrary: acc0) (auto simp: set_set_insert)

lemma edge_wf_ran:
  assumes "edge_wf g" "edge_by_sides g k = Some p"
  shows "\<exists>e. (p, e) \<in> set (graph_edge g) \<and> pair_from_edge e = k"
  using assms unfolding edge_wf_def by blast

lemma destroy_edge_succeeds:
  assumes wf: "edge_wf g"
  shows "\<exists>g'. destroy_edge g (edge_by_sides g k) = Inr g'"
proof (cases "edge_by_sides g k")
  case None
  then show ?thesis by (simp add: destroy_edge_def)
next
  case (Some p)
  then obtain e where e: "(p, e) \<in> set (graph_edge g)" using edge_wf_ran[OF wf] by blast
  then obtain i where i: "i < length (graph_edge g)" "graph_edge g ! i = (p, e)"
    by (auto simp: in_set_conv_nth)
  from destroy_edge_result[OF wf e i] Some show ?thesis by auto
qed

lemma destroy_edge_by_pair:
  assumes wf: "edge_wf g" and res: "destroy_edge g (edge_by_sides g k) = Inr g'"
  shows "edge_wf g' \<and> set (graph_edge g') = {pe \<in> set (graph_edge g). pair_from_edge (snd pe) \<noteq> k}
         \<and> graph_node g' = graph_node g \<and> node_index g' = node_index g \<and> node_by_id g' = node_by_id g
         \<and> next_ptr g' = next_ptr g \<and> current_id g' = current_id g \<and> paths g' = paths g"
proof (cases "edge_by_sides g k")
  case None
  have "pair_from_edge (snd pe) \<noteq> k" if "pe \<in> set (graph_edge g)" for pe
    using edge_wf_deref(3)[OF wf, of "fst pe" "snd pe"] that None by auto
  then show ?thesis using None res wf by (auto simp: destroy_edge_def)
next
  case (Some p)
  then obtain e where e: "(p, e) \<in> set (graph_edge g)" "pair_from_edge e = k"
    using edge_wf_ran[OF wf] by blast
  obtain i where i: "i < length (graph_edge g)" "graph_edge g ! i = (p, e)"
    using e(1) by (auto simp: in_set_conv_nth)
  have r: "destroy_edge g (Some p) = Inr g'" using res Some by simp
  from destroy_edge_member_wf[OF wf e(1) r]
  have w: "edge_wf g'" and s: "set (graph_edge g') = set (graph_edge g) - {(p, e)}" by auto
  have "{pe \<in> set (graph_edge g). pair_from_edge (snd pe) \<noteq> k} = set (graph_edge g) - {(p, e)}"
  proof (intro set_eqI iffI)
    fix pe assume "pe \<in> {pe \<in> set (graph_edge g). pair_from_edge (snd pe) \<noteq> k}"
    then show "pe \<in> set (graph_edge g) - {(p, e)}" using e(2) by auto
  next
    fix pe assume a: "pe \<in> set (graph_edge g) - {(p, e)}"
    then have "pair_from_edge (snd pe) \<noteq> pair_from_edge e"
      using pair_unique[OF wf e(1), of "fst pe" "snd pe"] by (metis DiffD1 DiffD2 insertI1 prod.collapse)
    with a e(2) show "pe \<in> {pe \<in> set (graph_edge g). pair_from_edge (snd pe) \<noteq> k}" by auto
  qed
  with w s destroy_edge_result[OF wf e(1) i] r show ?thesis by auto
qed

lemma destroy_edges_fold:
  assumes "edge_wf g" "\<forall>s \<in> set sides. minmax (fst s) (snd s) = s"
  shows "\<exists>g'. fold_err destroy_edge_sides g sides = Inr g'
         \<and> edge_wf g' \<and> set (graph_edge g') = {pe \<in> set (graph_edge g). pair_from_edge (snd pe) \<notin> set sides}
         \<and> graph_node g' = graph_node g \<and> node_index g' = node_index g \<and> node_by_id g' = node_by_id g
         \<and> next_ptr g' = next_ptr g \<and> current_id g' = current_id g \<and> paths g' = paths g"
  using assms
proof (induction sides arbitrary: g)
  case Nil
  then show ?case by simp
next
  case (Cons s sides)
  have k: "destroy_edge_sides g s = destroy_edge g (edge_by_sides g s)"
    using Cons.prems(2) by (simp add: destroy_edge_sides_def get_edge_def)
  obtain g1 where g1: "destroy_edge g (edge_by_sides g s) = Inr g1"
    using destroy_edge_succeeds[OF Cons.prems(1)] by blast
  note p = destroy_edge_by_pair[OF Cons.prems(1) g1]
  from p have wf1: "edge_wf g1" by simp
  from Cons.IH[OF wf1] Cons.prems(2) obtain g' where g': "fold_err destroy_edge_sides g1 sides = Inr g'"
    "edge_wf g'" "set (graph_edge g') = {pe \<in> set (graph_edge g1). pair_from_edge (snd pe) \<notin> set sides}"
    "graph_node g' = graph_node g1" "node_index g' = node_index g1" "node_by_id g' = node_by_id g1"
    "next_ptr g' = next_ptr g1" "current_id g' = current_id g1" "paths g' = paths g1"
    by auto
  have "fold_err destroy_edge_sides g (s # sides) = Inr g'" using k g1 g'(1) by simp
  moreover have "set (graph_edge g') = {pe \<in> set (graph_edge g). pair_from_edge (snd pe) \<notin> set (s # sides)}"
    using g'(3) p by auto
  ultimately show ?case using g' p by auto
qed

lemma incident_sides: "incident e i \<longleftrightarrow> fst (from_side e) = i \<or> fst (to_side e) = i"
  by (simp add: incident_def from_side_def to_side_def)

lemma edges_to_destroy_set:
  "set (fold (\<lambda>other_end acc. set_insert sides_less (pair_from_end_edge i other_end) acc) (edges_end g i)
         (fold (\<lambda>other_end acc. set_insert sides_less (pair_from_start_edge i other_end) acc) (edges_start g i) []))
   = pair_from_start_edge i ` set (edges_start g i) \<union> pair_from_end_edge i ` set (edges_end g i)"
  by (auto simp: set_fold_set_insert)

lemma incident_in_edges_to_destroy:
  assumes wf: "edge_wf g" and mem: "(p, e) \<in> set (graph_edge g)"
  shows "pair_from_edge e \<in> pair_from_start_edge i ` set (edges_start g i) \<union> pair_from_end_edge i ` set (edges_end g i)
         \<longleftrightarrow> incident e i"
proof
  assume "incident e i"
  then consider "from_side e = (i, False)" | "from_side e = (i, True)" | "to_side e = (i, False)" | "to_side e = (i, True)"
    by (cases "from_side e"; cases "to_side e") (auto simp: incident_sides)
  then show "pair_from_edge e \<in> pair_from_start_edge i ` set (edges_start g i) \<union> pair_from_end_edge i ` set (edges_end g i)"
  proof cases
    case 1
    then have "entry_for (i, False) (to_side e) \<in> set (edges_start g i)"
      using edge_wf_entries(1)[OF wf mem] by (simp add: adjacency_def)
    then have "pair_from_start_edge i (entry_for (i, False) (to_side e)) \<in> pair_from_start_edge i ` set (edges_start g i)"
      by (rule imageI)
    then show ?thesis using 1 by (simp add: pair_from_start_edge_entry pair_from_edge_sides)
  next
    case 2
    then have "entry_for (i, True) (to_side e) \<in> set (edges_end g i)"
      using edge_wf_entries(1)[OF wf mem] by (simp add: adjacency_def)
    then have "pair_from_end_edge i (entry_for (i, True) (to_side e)) \<in> pair_from_end_edge i ` set (edges_end g i)"
      by (rule imageI)
    then show ?thesis using 2 by (simp add: pair_from_end_edge_entry pair_from_edge_sides)
  next
    case 3
    then have "entry_for (i, False) (from_side e) \<in> set (edges_start g i)"
      using edge_wf_entries(2)[OF wf mem] by (simp add: adjacency_def)
    then have "pair_from_start_edge i (entry_for (i, False) (from_side e)) \<in> pair_from_start_edge i ` set (edges_start g i)"
      by (rule imageI)
    then show ?thesis using 3 by (simp add: pair_from_start_edge_entry pair_from_edge_sides minmax_commute)
  next
    case 4
    then have "entry_for (i, True) (from_side e) \<in> set (edges_end g i)"
      using edge_wf_entries(2)[OF wf mem] by (simp add: adjacency_def)
    then have "pair_from_end_edge i (entry_for (i, True) (from_side e)) \<in> pair_from_end_edge i ` set (edges_end g i)"
      by (rule imageI)
    then show ?thesis using 4 by (simp add: pair_from_end_edge_entry pair_from_edge_sides minmax_commute)
  qed
next
  assume "pair_from_edge e \<in> pair_from_start_edge i ` set (edges_start g i) \<union> pair_from_end_edge i ` set (edges_end g i)"
  then obtain s b where "minmax (from_side e) (to_side e) = minmax (i, s) b"
    by (auto simp: pair_from_edge_sides pair_from_start_edge_def pair_from_end_edge_def)
  from minmax_sides[OF this] show "incident e i" by (auto simp: incident_sides)
qed

section \<open>Destroying a node\<close>


lemma edge_wf_frame:
  assumes "edge_wf g" "graph_edge g' = graph_edge g" "edge_by_sides g' = edge_by_sides g"
    "edge_index g' = edge_index g" "edges_on_start g' = edges_on_start g"
    "edges_on_end g' = edges_on_end g" "next_ptr g \<le> next_ptr g'"
  shows "edge_wf g'"
proof -
  have "adjacency g' = adjacency g" using assms(5,6) by (rule adjacency_cong)
  then show ?thesis
    using assms unfolding edge_wf_def edge_invariant_def by (auto simp: less_le_trans)
qed

lemma node_wf_deref:
  assumes "node_wf g" "(p, n) \<in> set (graph_node g)"
  shows "deref_node g p = Some n"
  using assms by (simp add: node_wf_def deref_node_def)

lemma erase_adjacency_wf:
  assumes wf: "edge_wf g" and none: "\<forall>pe \<in> set (graph_edge g). \<not> incident (snd pe) i"
  shows "edge_wf (g\<lparr>edges_on_start := (edges_on_start g)(i := None),
                     edges_on_end := (edges_on_end g)(i := None)\<rparr>)"
    (is "edge_wf ?g")
proof -
  have adj: "adjacency ?g a = adjacency g a" if "fst a \<noteq> i" for a
    using that by (simp add: adjacency_def edges_start_def edges_end_def)
  have "edge_wf ?g"
  proof (rule edge_wf_intro)
    show "distinct (map fst (graph_edge ?g))" using wf by (simp add: edge_wf_def)
  next
    fix pe assume pe: "pe \<in> set (graph_edge ?g)"
    then have m: "(fst pe, snd pe) \<in> set (graph_edge g)" by simp
    from none pe have ni: "fst (from_side (snd pe)) \<noteq> i" "fst (to_side (snd pe)) \<noteq> i"
      by (auto simp: incident_sides)
    show "entry_for (from_side (snd pe)) (to_side (snd pe)) \<in> set (adjacency ?g (from_side (snd pe)))
      \<and> entry_for (to_side (snd pe)) (from_side (snd pe)) \<in> set (adjacency ?g (to_side (snd pe)))
      \<and> edge_by_sides ?g (pair_from_edge (snd pe)) = Some (fst pe)"
      using edge_wf_entries[OF wf m] edge_wf_deref(3)[OF wf m] adj[OF ni(1)] adj[OF ni(2)] by simp
  next
    show "\<forall>j < length (graph_edge ?g). edge_index ?g (fst (graph_edge ?g ! j)) = Some j"
      using wf by (simp add: edge_wf_def)
  next
    show "\<forall>k p. edge_by_sides ?g k = Some p \<longrightarrow> (\<exists>e. (p, e) \<in> set (graph_edge ?g) \<and> pair_from_edge e = k)"
      using edge_wf_ran[OF wf] by simp
  next
    show "\<forall>pe \<in> set (graph_edge ?g). fst pe < next_ptr ?g" using wf by (simp add: edge_wf_def)
  qed
  then show ?thesis .
qed

lemma destroy_node_result:
  assumes ewf: "edge_wf g" and nwf: "node_wf g" and hn: "has_node g (node_id n)"
    and i: "i < length (graph_node g)" "graph_node g ! i = (node, n)"
  shows "\<exists>g'. destroy_node g node = Inr g'
          \<and> graph_node g' = remove_swap (graph_node g) i
          \<and> node_by_id g' = (if i = length (graph_node g) - 1 then (node_by_id g)(node_id n := None)
               else (node_by_id g)(node_id (snd (last (graph_node g))) \<mapsto> fst (last (graph_node g)),
                                   node_id n := None))
          \<and> node_index g' = (if i = length (graph_node g) - 1 then (node_index g)(node := None)
               else (node_index g)(fst (last (graph_node g)) \<mapsto> i, node := None))
          \<and> set (graph_edge g') = {pe \<in> set (graph_edge g). \<not> incident (snd pe) (node_id n)}
          \<and> edge_wf g'
          \<and> next_ptr g' = next_ptr g \<and> current_id g' = current_id g \<and> paths g' = paths g"
proof -
  have mem: "(node, n) \<in> set (graph_node g)" using i by (metis nth_mem)
  have dn: "deref_node g node = Some n" using node_wf_deref[OF nwf mem] .
  have idx: "node_index g node = Some i" using nwf i by (metis node_wf_def fst_conv)
  let ?L = "fold (\<lambda>other_end acc. set_insert sides_less (pair_from_end_edge (node_id n) other_end) acc)
              (edges_end g (node_id n))
              (fold (\<lambda>other_end acc. set_insert sides_less (pair_from_start_edge (node_id n) other_end) acc)
                 (edges_start g (node_id n)) [])"
  have Lset: "set ?L = pair_from_start_edge (node_id n) ` set (edges_start g (node_id n))
                    \<union> pair_from_end_edge (node_id n) ` set (edges_end g (node_id n))"
    by (rule edges_to_destroy_set)
  have norm: "\<forall>s \<in> set ?L. minmax (fst s) (snd s) = s"
    unfolding Lset by (auto simp: pair_from_start_edge_norm pair_from_end_edge_norm)
  from destroy_edges_fold[OF ewf norm] obtain g1 where g1:
    "fold_err destroy_edge_sides g ?L = Inr g1" "edge_wf g1"
    "set (graph_edge g1) = {pe \<in> set (graph_edge g). pair_from_edge (snd pe) \<notin> set ?L}"
    "graph_node g1 = graph_node g" "node_index g1 = node_index g" "node_by_id g1 = node_by_id g"
    "next_ptr g1 = next_ptr g" "current_id g1 = current_id g" "paths g1 = paths g"
    by blast
  have edges1: "set (graph_edge g1) = {pe \<in> set (graph_edge g). \<not> incident (snd pe) (node_id n)}"
    unfolding g1(3) Lset
    using incident_in_edges_to_destroy[OF ewf, of _ _ "node_id n"] by (metis (no_types, lifting) prod.collapse)
  let ?g2 = "g1\<lparr>edges_on_start := (edges_on_start g1)(node_id n := None),
                 edges_on_end := (edges_on_end g1)(node_id n := None)\<rparr>"
  have wf2: "edge_wf ?g2"
    by (rule erase_adjacency_wf[OF g1(2)]) (simp add: edges1)
  have ne: "graph_node g \<noteq> []" using i by auto
  have lnth: "graph_node g ! (length (graph_node g) - Suc 0) = last (graph_node g)"
    using ne by (simp add: last_conv_nth)
  show ?thesis
  proof (cases "i = length (graph_node g) - 1")
    case True
    let ?g' = "?g2\<lparr>node_by_id := (node_by_id g)(node_id n := None),
                   node_index := (node_index g)(node := None),
                   graph_node := butlast (graph_node g)\<rparr>"
    have r: "destroy_node g node = Inr ?g'"
      using dn hn g1 idx True by (simp add: destroy_node_def Let_def)
    have "edge_wf ?g'" by (rule edge_wf_frame[OF wf2]) simp_all
    then show ?thesis
      using r True g1 edges1 by (simp add: butlast_remove_swap_last)
  next
    case False
    let ?l = "last (graph_node g)"
    let ?g' = "?g2\<lparr>node_by_id := (node_by_id g)(node_id (snd ?l) \<mapsto> fst ?l, node_id n := None),
                   node_index := (node_index g)(fst ?l \<mapsto> i, node := None),
                   graph_node := remove_swap (graph_node g) i\<rparr>"
    have sw: "swap_elements (graph_node g) i (length (graph_node g) - Suc 0) ! i = ?l"
      using i lnth False by (auto simp: swap_elements_def nth_list_update)
    have sb: "butlast (swap_elements (graph_node g) i (length (graph_node g) - Suc 0))
              = remove_swap (graph_node g) i"
      using swap_elements_butlast[OF i(1)] by simp
    have r: "destroy_node g node = Inr ?g'"
      using dn hn g1 idx False i sw sb lnth by (simp add: destroy_node_def Let_def)
    have "edge_wf ?g'" by (rule edge_wf_frame[OF wf2]) simp_all
    then show ?thesis
      using r False g1 edges1 by simp
  qed
qed

lemma node_wf_index:
  assumes "node_wf g" "i < length (graph_node g)"
  shows "node_index g (fst (graph_node g ! i)) = Some i"
  using assms by (simp add: node_wf_def)

lemma node_wf_by_id:
  assumes "node_wf g" "node_by_id g i = Some p"
  shows "\<exists>n. (p, n) \<in> set (graph_node g) \<and> node_id n = i"
  using assms unfolding node_wf_def by blast

lemma node_wf_remove:
  assumes nwf: "node_wf g" and i: "i < length (graph_node g)" "graph_node g ! i = (node, n)"
    and gn: "graph_node g' = remove_swap (graph_node g) i"
    and nb: "node_by_id g' = (if i = length (graph_node g) - 1 then (node_by_id g)(node_id n := None)
               else (node_by_id g)(node_id (snd (last (graph_node g))) \<mapsto> fst (last (graph_node g)),
                                   node_id n := None))"
    and ni: "node_index g' = (if i = length (graph_node g) - 1 then (node_index g)(node := None)
               else (node_index g)(fst (last (graph_node g)) \<mapsto> i, node := None))"
    and np: "next_ptr g' = next_ptr g"
  shows "node_wf g' \<and> set (graph_node g') = set (graph_node g) - {(node, n)}"
proof -
  have dist: "distinct (map fst (graph_node g))" using nwf by (simp add: node_wf_def)
  then have d: "distinct (graph_node g)" by (simp add: distinct_map)
  have setg: "set (graph_node g') = set (graph_node g) - {(node, n)}"
    using remove_swap_set[OF d i(1)] i(2) gn by simp
  have dist': "distinct (map fst (graph_node g'))"
    using dist by (simp add: gn remove_swap_map remove_swap_distinct)
  have nth_inj: "fst (graph_node g ! j) = fst (graph_node g ! k) \<longleftrightarrow> j = k"
    if "j < length (graph_node g)" "k < length (graph_node g)" for j k
    using dist that by (metis length_map nth_eq_iff_index_eq nth_map)
  have ne: "graph_node g \<noteq> []" using i by auto
  have lastn: "last (graph_node g) = graph_node g ! (length (graph_node g) - 1)"
    using ne by (rule last_conv_nth)
  have lmem: "last (graph_node g) \<in> set (graph_node g)" using ne by simp
  have idx': "\<forall>j < length (graph_node g'). node_index g' (fst (graph_node g' ! j)) = Some j"
  proof (intro allI impI)
    fix j assume "j < length (graph_node g')"
    then have j: "j < length (graph_node g) - 1" by (simp add: gn remove_swap_length)
    then have jl: "j < length (graph_node g)" "j \<noteq> length (graph_node g) - 1" by auto
    have nthj: "graph_node g' ! j = (if j = i then last (graph_node g) else graph_node g ! j)"
      using j by (simp add: gn remove_swap_nth)
    show "node_index g' (fst (graph_node g' ! j)) = Some j"
    proof (cases "j = i")
      case True
      then have il: "i \<noteq> length (graph_node g) - 1" using jl by simp
      have "fst (last (graph_node g)) \<noteq> node"
        using nth_inj[OF i(1), of "length (graph_node g) - 1"] il ne lastn i(2) by auto
      then show ?thesis using True nthj il by (simp add: ni)
    next
      case False
      have "fst (graph_node g ! j) \<noteq> node" using nth_inj[OF jl(1) i(1)] False i(2) by auto
      moreover have "fst (graph_node g ! j) \<noteq> fst (last (graph_node g))"
        using nth_inj[OF jl(1), of "length (graph_node g) - 1"] jl ne lastn by simp
      ultimately show ?thesis using False nthj node_wf_index[OF nwf jl(1)] by (simp add: ni)
    qed
  qed
  have fresh': "\<forall>pn \<in> set (graph_node g'). fst pn < next_ptr g'"
    using nwf setg np by (auto simp: node_wf_def)
  have byid': "\<forall>j p. node_by_id g' j = Some p \<longrightarrow> (\<exists>n'. (p, n') \<in> set (graph_node g') \<and> node_id n' = j)"
  proof (intro allI impI)
    fix j p assume a: "node_by_id g' j = Some p"
    then have jn: "j \<noteq> node_id n" by (auto simp: nb split: if_splits)
    show "\<exists>n'. (p, n') \<in> set (graph_node g') \<and> node_id n' = j"
    proof (cases "i \<noteq> length (graph_node g) - 1 \<and> j = node_id (snd (last (graph_node g)))")
      case True
      then have "p = fst (last (graph_node g))" using a jn by (simp add: nb)
      moreover have "last (graph_node g) \<noteq> (node, n)" using True jn by auto
      ultimately show ?thesis using True lmem setg by (metis DiffI prod.collapse singletonD)
    next
      case False
      then have "node_by_id g j = Some p" using a jn by (auto simp: nb split: if_splits)
      from node_wf_by_id[OF nwf this] obtain n' where n': "(p, n') \<in> set (graph_node g)" "node_id n' = j"
        by blast
      with jn have "(p, n') \<noteq> (node, n)" by auto
      with n' setg show ?thesis by auto
    qed
  qed
  show ?thesis unfolding node_wf_def using dist' idx' fresh' byid' setg by blast
qed

lemma destroy_node_id_result:
  assumes ewf: "edge_wf g" and nwf: "node_wf g" and hn: "has_node g i"
  shows "\<exists>g' node n. destroy_node_id g i = Inr g' \<and> node_by_id g i = Some node
          \<and> (node, n) \<in> set (graph_node g) \<and> node_id n = i
          \<and> set (graph_node g') = set (graph_node g) - {(node, n)}
          \<and> \<not> has_node g' i
          \<and> set (graph_edge g') = {pe \<in> set (graph_edge g). \<not> incident (snd pe) i}
          \<and> paths g' = paths g \<and> edge_wf g' \<and> node_wf g'
          \<and> next_ptr g' = next_ptr g \<and> current_id g' = current_id g"
proof -
  from hn obtain node where node: "node_by_id g i = Some node" by (auto simp: has_node_def)
  from node_wf_by_id[OF nwf node] obtain n where n: "(node, n) \<in> set (graph_node g)" "node_id n = i"
    by blast
  then obtain k where k: "k < length (graph_node g)" "graph_node g ! k = (node, n)"
    by (auto simp: in_set_conv_nth)
  have hn': "has_node g (node_id n)" using hn n by simp
  from destroy_node_result[OF ewf nwf hn' k] obtain g' where g':
    "destroy_node g node = Inr g'" "graph_node g' = remove_swap (graph_node g) k"
    "node_by_id g' = (if k = length (graph_node g) - 1 then (node_by_id g)(node_id n := None)
               else (node_by_id g)(node_id (snd (last (graph_node g))) \<mapsto> fst (last (graph_node g)),
                                   node_id n := None))"
    "node_index g' = (if k = length (graph_node g) - 1 then (node_index g)(node := None)
               else (node_index g)(fst (last (graph_node g)) \<mapsto> k, node := None))"
    "set (graph_edge g') = {pe \<in> set (graph_edge g). \<not> incident (snd pe) (node_id n)}"
    "edge_wf g'" "next_ptr g' = next_ptr g" "current_id g' = current_id g" "paths g' = paths g"
    by blast
  note r = node_wf_remove[OF nwf k g'(2) g'(3) g'(4) g'(7)]
  have "\<not> has_node g' i" using g'(3) n(2) by (simp add: has_node_def)
  moreover have "destroy_node_id g i = Inr g'" using node g'(1) by (simp add: destroy_node_id_def get_node_def)
  ultimately show ?thesis using node n g' r by auto
qed

section \<open>Graphs built by the operations are well formed\<close>


lemma edge_wf_init: "edge_wf init"
  by (simp add: edge_wf_def edge_invariant_def init_def)

lemma node_wf_init: "node_wf init"
  by (simp add: node_wf_def init_def)

lemma create_node_id_fields:
  assumes "create_node_id g seq i = Inr (g', node)"
  shows "graph_node g' = graph_node g @ [(next_ptr g, \<lparr>node_id = i, sequence = seq\<rparr>)]"
    "node = next_ptr g" "next_ptr g' = Suc (next_ptr g)"
    "node_by_id g' = (node_by_id g)(i \<mapsto> next_ptr g)"
    "node_index g' = (node_index g)(next_ptr g \<mapsto> length (graph_node g))"
    "graph_edge g' = graph_edge g" "edge_by_sides g' = edge_by_sides g" "edge_index g' = edge_index g"
    "edges_on_start g' = edges_on_start g" "edges_on_end g' = edges_on_end g"
    "current_id g' = current_id g" "paths g' = paths g" "i \<noteq> 0"
  using assms by (auto simp: create_node_id_def Let_def split: if_splits)

lemma create_node_id_edge_wf:
  assumes "edge_wf g" "create_node_id g seq i = Inr (g', node)"
  shows "edge_wf g'"
  by (rule edge_wf_frame[OF assms(1)]) (simp_all add: create_node_id_fields[OF assms(2)])

lemma create_node_id_node_wf:
  assumes nwf: "node_wf g" and c: "create_node_id g seq i = Inr (g', node)"
  shows "node_wf g'"
proof -
  note f = create_node_id_fields[OF c]
  have notin: "next_ptr g \<notin> fst ` set (graph_node g)" using nwf by (auto simp: node_wf_def)
  have 1: "distinct (map fst (graph_node g'))" using nwf notin by (simp add: f node_wf_def)
  have 2: "\<forall>j < length (graph_node g'). node_index g' (fst (graph_node g' ! j)) = Some j"
  proof (intro allI impI)
    fix j assume "j < length (graph_node g')"
    then have "j < length (graph_node g) \<or> j = length (graph_node g)" by (auto simp: f)
    then show "node_index g' (fst (graph_node g' ! j)) = Some j"
    proof
      assume j: "j < length (graph_node g)"
      then have "fst (graph_node g ! j) \<noteq> next_ptr g" using notin by (metis image_eqI nth_mem)
      with j node_wf_index[OF nwf j] show ?thesis by (simp add: f nth_append)
    next
      assume "j = length (graph_node g)"
      then show ?thesis by (simp add: f)
    qed
  qed
  have 3: "\<forall>pn \<in> set (graph_node g'). fst pn < next_ptr g'"
    using nwf by (auto simp: f node_wf_def)
  have 4: "\<forall>j p. node_by_id g' j = Some p \<longrightarrow> (\<exists>n. (p, n) \<in> set (graph_node g') \<and> node_id n = j)"
  proof (intro allI impI)
    fix j p assume a: "node_by_id g' j = Some p"
    show "\<exists>n. (p, n) \<in> set (graph_node g') \<and> node_id n = j"
    proof (cases "j = i")
      case True
      with a have "p = next_ptr g" by (simp add: f)
      then have "(p, \<lparr>node_id = i, sequence = seq\<rparr>) \<in> set (graph_node g')" by (simp add: f)
      with True show ?thesis by force
    next
      case False
      with a have "node_by_id g j = Some p" by (simp add: f)
      from node_wf_by_id[OF nwf this] show ?thesis by (auto simp: f)
    qed
  qed
  show ?thesis unfolding node_wf_def using 1 2 3 4 by blast
qed

lemma with_node_wf:
  assumes "edge_wf g" "node_wf g"
  shows "edge_wf (with_node g seq i)" "node_wf (with_node g seq i)"
proof -
  show "edge_wf (with_node g seq i)"
    using assms(1) create_node_id_edge_wf[OF assms(1)]
    by (auto simp: with_node_def split: sum.splits)
  show "node_wf (with_node g seq i)"
    using assms(2) create_node_id_node_wf[OF assms(2)]
    by (auto simp: with_node_def split: sum.splits)
qed

lemma create_edge_frame:
  "graph_node (fst (create_edge g f t fs te)) = graph_node g"
  "node_by_id (fst (create_edge g f t fs te)) = node_by_id g"
  "node_index (fst (create_edge g f t fs te)) = node_index g"
  "paths (fst (create_edge g f t fs te)) = paths g"
  "current_id (fst (create_edge g f t fs te)) = current_id g"
  "next_ptr g \<le> next_ptr (fst (create_edge g f t fs te))"
  by (cases "get_edge g (f, \<not> fs) (t, te)"; simp add: create_edge_new create_edge_existing new_edge_fields)+

lemma node_wf_frame:
  assumes "node_wf g" "graph_node g' = graph_node g" "node_by_id g' = node_by_id g"
    "node_index g' = node_index g" "next_ptr g \<le> next_ptr g'"
  shows "node_wf g'"
  using assms unfolding node_wf_def by (auto simp: less_le_trans)

lemma create_edge_node_wf:
  assumes "node_wf g"
  shows "node_wf (fst (create_edge g f t fs te))"
  by (rule node_wf_frame[OF assms]) (simp_all add: create_edge_frame)

lemma with_edge_wf:
  assumes "edge_wf g" "node_wf g"
  shows "edge_wf (with_edge g f t fs te)" "node_wf (with_edge g f t fs te)"
  using assms by (simp_all add: with_edge_def create_edge_wf create_edge_node_wf)

lemma with_mapping_wf:
  assumes "edge_wf g" "node_wf g"
  shows "edge_wf (with_mapping g name m)" "node_wf (with_mapping g name m)"
proof -
  show "edge_wf (with_mapping g name m)"
    by (rule edge_wf_frame[OF assms(1)]) (simp_all add: with_mapping_def)
  show "node_wf (with_mapping g name m)"
    by (rule node_wf_frame[OF assms(2)]) (simp_all add: with_mapping_def)
qed

lemma two_nodes_wf: "edge_wf two_nodes" "node_wf two_nodes"
  unfolding two_nodes_def by (simp_all add: with_node_wf edge_wf_init node_wf_init)

lemma path_graph_wf: "edge_wf path_graph" "node_wf path_graph"
  unfolding path_graph_def by (simp_all add: with_mapping_wf with_edge_wf two_nodes_wf)

lemma two_nodes_fields:
  "node_by_id two_nodes 1 = Some 0" "node_by_id two_nodes 2 = Some 1"
  "next_ptr two_nodes = 2" "graph_edge two_nodes = []" "edge_by_sides two_nodes = Map.empty"
  "paths two_nodes = empty_paths" "current_id two_nodes = 1"
  by (simp_all add: two_nodes_def with_node_def create_node_id_def init_def Let_def)

lemma path_graph_fields:
  "graph_node path_graph =
     [(0, \<lparr>node_id = 1, sequence = ''ACGT''\<rparr>), (1, \<lparr>node_id = 2, sequence = ''GGGA''\<rparr>)]"
  "graph_edge path_graph = [(2, \<lparr>e_from = 1, e_to = 2, from_start = False, to_end = False\<rparr>)]"
  "node_by_id path_graph 1 = Some 0"
  "node_by_id path_graph 2 = Some 1"
  "current_id path_graph = 1"
  "path_list (paths path_graph) =
     [(''P'', [(0, \<lparr>m_node_id = 1, m_is_reverse = False, m_length = 4, m_rank = 1\<rparr>),
               (1, \<lparr>m_node_id = 2, m_is_reverse = False, m_length = 4, m_rank = 2\<rparr>)])]"
  by (simp_all add: path_graph_def with_mapping_def with_edge_def create_edge_new get_edge_def
      two_nodes_fields two_nodes_array new_edge_fields append_mapping_def empty_paths_def)

section \<open>What destroying a node removes\<close>

text \<open>
  C3, as the code has it. In a graph whose indices are consistent, \<^verbatim>\<open>destroy_node(id)\<close> on
  an id that is present succeeds, takes the node the id index pointed at out of the node
  array and the id out of the id index, and removes exactly the edges that attach to
  either side of the node. It does not touch the path collection: the mappings on the
  node stay in their paths, as do the mappings before and after them.
\<close>

theorem destroy_node_removes:
  assumes "edge_wf g" and "node_wf g" and "has_node g i"
  shows "\<exists>g' node n. destroy_node_id g i = Inr g'
          \<and> node_by_id g i = Some node \<and> (node, n) \<in> set (graph_node g) \<and> node_id n = i
          \<and> set (graph_node g') = set (graph_node g) - {(node, n)}
          \<and> \<not> has_node g' i
          \<and> set (graph_edge g') = {pe \<in> set (graph_edge g). \<not> incident (snd pe) i}
          \<and> paths g' = paths g"
  using destroy_node_id_result[OF assms] by blast

theorem destroy_node_removes_witness:
  "\<exists>g'. destroy_node_id path_graph 1 = Inr g'
     \<and> set (graph_node g') = {(1, \<lparr>node_id = 2, sequence = ''GGGA''\<rparr>)}
     \<and> \<not> has_node g' 1
     \<and> set (graph_edge g') = {}
     \<and> paths g' = paths path_graph"
proof -
  have h: "has_node path_graph 1" by (simp add: has_node_def path_graph_fields)
  from destroy_node_removes[OF path_graph_wf h] obtain g' node n where g':
    "destroy_node_id path_graph 1 = Inr g'"
    "node_by_id path_graph 1 = Some node" "(node, n) \<in> set (graph_node path_graph)"
    "set (graph_node g') = set (graph_node path_graph) - {(node, n)}"
    "\<not> has_node g' 1"
    "set (graph_edge g') = {pe \<in> set (graph_edge path_graph). \<not> incident (snd pe) 1}"
    "paths g' = paths path_graph"
    by blast
  from g'(2,3) have "(node, n) = (0, \<lparr>node_id = 1, sequence = ''ACGT''\<rparr>)"
    by (auto simp: path_graph_fields)
  with g'(4) have "set (graph_node g') = {(1, \<lparr>node_id = 2, sequence = ''GGGA''\<rparr>)}"
    by (auto simp: path_graph_fields)
  moreover have "set (graph_edge g') = {}"
    using g'(6) by (simp add: path_graph_fields incident_def)
  ultimately show ?thesis using g' by blast
qed

text \<open>
  The claim as stated fails: after node 1 of the example is destroyed, path P still has
  its mapping on node 1.
\<close>

theorem destroy_node_keeps_mappings:
  "\<not> isl (destroy_node_id path_graph 1)
   \<and> has_node_mapping (paths (graph_of (destroy_node_id path_graph 1))) 1
   \<and> path_list (paths (graph_of (destroy_node_id path_graph 1))) = path_list (paths path_graph)"
proof -
  have h: "has_node path_graph 1" by (simp add: has_node_def path_graph_fields)
  from destroy_node_id_result[OF path_graph_wf h] obtain g' where g':
    "destroy_node_id path_graph 1 = Inr g'" "paths g' = paths path_graph"
    by blast
  have "has_node_mapping (paths path_graph) 1"
    by (simp add: has_node_mapping_def get_node_mapping_by_path_name_def path_graph_fields)
  with g' show ?thesis by (simp add: graph_of_def)
qed

section \<open>What the edge operations leave alone\<close>


lemma fold_err_invariant:
  assumes "fold_err f s xs = Inr s'" "P s" "\<And>a x b. P a \<Longrightarrow> f a x = Inr b \<Longrightarrow> P b"
  shows "P s'"
  using assms
proof (induction xs arbitrary: s)
  case Nil
  then show ?case by simp
next
  case (Cons x xs)
  from Cons.prems(1) obtain s1 where s1: "f s x = Inr s1" "fold_err f s1 xs = Inr s'"
    by (auto split: sum.splits)
  have "P s1" using Cons.prems(2,3) s1(1) by blast
  from Cons.IH[OF s1(2) this Cons.prems(3)] show ?case .
qed

lemma node_part_upd [simp]:
  "node_part (g\<lparr>graph_edge := a\<rparr>) = node_part g"
  "node_part (g\<lparr>edge_index := b\<rparr>) = node_part g"
  "node_part (g\<lparr>edge_by_sides := c\<rparr>) = node_part g"
  "node_part (g\<lparr>edges_on_start := d\<rparr>) = node_part g"
  "node_part (g\<lparr>edges_on_end := e\<rparr>) = node_part g"
  "node_part (g\<lparr>next_ptr := f\<rparr>) = node_part g"
  by (simp_all add: node_part_def)

lemma node_part_index [simp]: "node_part (index_edge_by_node_sides g p e) = node_part g"
  by (simp add: node_part_def index_fields)

lemma node_part_unindex [simp]: "node_part (unindex_edge_by_node_sides g e) = node_part g"
  by (simp add: node_part_def unindex_fields)

lemma node_part_set_edge [simp]: "node_part (set_edge g p e) = node_part g"
  by (simp add: set_edge_def)

lemma node_part_create_edge [simp]: "node_part (fst (create_edge g f t fs te)) = node_part g"
  by (simp add: create_edge_def Let_def split: option.splits)



lemma destroy_edge_node_part_case:
  "case destroy_edge g edge of Inl err \<Rightarrow> True | Inr g' \<Rightarrow> node_part g' = node_part g"
  by (simp add: destroy_edge_def Let_def split: option.splits)

lemma destroy_edge_node_part:
  assumes "destroy_edge g edge = Inr g'"
  shows "node_part g' = node_part g"
  using destroy_edge_node_part_case[of g edge] assms by simp

lemma destroy_edge_sides_node_part:
  "destroy_edge_sides g s = Inr g' \<Longrightarrow> node_part g' = node_part g"
  by (simp add: destroy_edge_sides_def destroy_edge_node_part)

lemma destroy_edge_handles_node_part:
  "destroy_edge_handles g l r = Inr g' \<Longrightarrow> node_part g' = node_part g"
  by (auto simp: destroy_edge_handles_def destroy_edge_node_part split: option.splits)

lemma create_edge_handles_node_part:
  "create_edge_handles g l r = Inr g' \<Longrightarrow> node_part g' = node_part g"
  by (auto simp: create_edge_handles_def split: sum.splits option.splits)

lemma fold_err_node_part:
  assumes "fold_err f g xs = Inr g'" "\<And>a x b. f a x = Inr b \<Longrightarrow> node_part b = node_part a"
  shows "node_part g' = node_part g"
proof (rule fold_err_invariant[OF assms(1), of "\<lambda>a. node_part a = node_part g"])
  show "node_part g = node_part g" by (rule refl)
next
  fix a x b assume "node_part a = node_part g" "f a x = Inr b"
  then show "node_part b = node_part g" using assms(2)[of a x b] by (rule_tac trans)
qed

lemma destroy_node_paths:
  assumes "destroy_node g node = Inr g'"
  shows "paths g' = paths g \<and> current_id g' = current_id g"
proof (cases "deref_node g node")
  case None
  with assms show ?thesis by (simp add: destroy_node_def)
next
  case n: (Some n)
  show ?thesis
  proof (cases "has_node g (node_id n)")
    case False
    with assms n show ?thesis by (simp add: destroy_node_def)
  next
    case True
    define L where "L = fold (\<lambda>other_end acc. set_insert sides_less (pair_from_end_edge (node_id n) other_end) acc)
                   (edges_end g (node_id n))
                   (fold (\<lambda>other_end acc. set_insert sides_less (pair_from_start_edge (node_id n) other_end) acc)
                      (edges_start g (node_id n)) [])"
    show ?thesis
    proof (cases "fold_err destroy_edge_sides g L")
      case (Inl err)
      with assms n True show ?thesis by (simp add: destroy_node_def L_def)
    next
      case (Inr g1)
      have p1: "paths g1 = paths g \<and> current_id g1 = current_id g"
        using fold_err_node_part[OF Inr destroy_edge_sides_node_part] by (simp add: node_part_def)
      have "case destroy_node g node of Inl err \<Rightarrow> True
            | Inr g' \<Rightarrow> paths g' = paths g1 \<and> current_id g' = current_id g1"
        using n True Inr by (simp add: destroy_node_def Let_def L_def)
      with assms p1 show ?thesis by simp
    qed
  qed
qed

section \<open>Re-orienting a node\<close>


lemma bind_Inr:
  "(case x of Inl err \<Rightarrow> Inl err | Inr v \<Rightarrow> f v) = Inr r \<longleftrightarrow> (\<exists>v. x = Inr v \<and> f v = Inr r)"
  by (cases x) auto

lemma get_sequence_node_part:
  assumes "node_part g' = node_part g"
  shows "get_sequence g' h = get_sequence g h"
proof -
  have "node_by_id g' = node_by_id g" "deref_node g' = deref_node g"
    using assms by (auto simp: node_part_def deref_node_def)
  then show ?thesis by (simp add: get_sequence_def split: option.splits)
qed

lemma get_sequence_reverse:
  assumes "get_is_reverse h" "get_sequence g h = Inr s"
  shows "\<exists>old n. node_by_id g (get_id h) = Some old \<and> deref_node g old = Some n
           \<and> s = reverse_complement (sequence n)"
  using assms
  by (auto simp: get_sequence_def get_is_reverse_def split: option.splits)

lemma destroy_handle_paths:
  assumes "destroy_handle g h = Inr g'"
  shows "paths g' = paths g \<and> current_id g' = current_id g"
  using assms destroy_node_paths
  by (auto simp: destroy_handle_def destroy_node_id_def split: sum.splits)

lemma apply_orientation_forward:
  "\<not> get_is_reverse handle \<Longrightarrow> apply_orientation g handle = Inr (g, handle)"
  by (simp add: apply_orientation_def)

lemma apply_orientation_reverse:
  assumes r: "get_is_reverse handle" and a: "apply_orientation g handle = Inr (g', new_handle)"
  shows "new_handle = get_handle (get_id handle) False
       \<and> (\<exists>old n node. node_by_id g (get_id handle) = Some old \<and> deref_node g old = Some n
             \<and> node_by_id g' (get_id handle) = Some node
             \<and> last (graph_node g') =
                 (node, \<lparr>node_id = get_id handle, sequence = reverse_complement (sequence n)\<rparr>))
       \<and> current_id g' = current_id g \<and> paths g' = paths g"
proof -
  define right_nodes where "right_nodes = snd (follow_edges g handle False push_back_handle [])"
  define left_nodes where "left_nodes = snd (follow_edges g handle True push_back_handle [])"
  define i where "i = get_id handle"
  define fl where "fl = (\<lambda>g' left. create_edge_handles g'
                          (if left = handle then flip (get_handle i False)
                           else if left = flip handle then get_handle i False else left)
                          (get_handle i False))"
  define fr where "fr = (\<lambda>g' right. create_edge_handles g' (get_handle i False)
                          (if right = handle then flip (get_handle i False)
                           else if right = flip handle then get_handle i False else right))"
  from a r obtain g1 g2 new_sequence g3 g4 new_node g5 where
    s1: "fold_err (\<lambda>g' left. destroy_edge_handles g' left handle) g left_nodes = Inr g1"
    and s2: "fold_err (\<lambda>g' right. destroy_edge_handles g' handle right) g1 right_nodes = Inr g2"
    and s3: "get_sequence g2 handle = Inr new_sequence"
    and s4: "destroy_handle g2 handle = Inr g3"
    and s5: "create_node_id g3 new_sequence i = Inr (g4, new_node)"
    and s6: "fold_err fl g4 left_nodes = Inr g5"
    and s7: "fold_err fr g5 right_nodes = Inr g'"
    and nh: "new_handle = get_handle i False"
    unfolding apply_orientation_def Let_def left_nodes_def right_nodes_def i_def fl_def fr_def
    by (clarsimp simp: bind_Inr)
  have n1: "node_part g1 = node_part g"
    by (rule fold_err_node_part[OF s1]) (rule destroy_edge_handles_node_part)
  have n2: "node_part g2 = node_part g1"
    by (rule fold_err_node_part[OF s2]) (rule destroy_edge_handles_node_part)
  have n5: "node_part g5 = node_part g4"
    by (rule fold_err_node_part[OF s6]) (simp add: fl_def create_edge_handles_node_part)
  have n6: "node_part g' = node_part g5"
    by (rule fold_err_node_part[OF s7]) (simp add: fr_def create_edge_handles_node_part)
  have "get_sequence g handle = Inr new_sequence"
    using s3 get_sequence_node_part[of g2 g handle] n1 n2 by simp
  from get_sequence_reverse[OF r this] obtain old n where old:
    "node_by_id g (get_id handle) = Some old" "deref_node g old = Some n"
    "new_sequence = reverse_complement (sequence n)"
    by blast
  note p3 = destroy_handle_paths[OF s4]
  note f4 = create_node_id_fields[OF s5]
  have "graph_node g' = graph_node g4" "node_by_id g' = node_by_id g4"
    "paths g' = paths g4" "current_id g' = current_id g4"
    using n5 n6 by (simp_all add: node_part_def)
  moreover have "paths g2 = paths g" "current_id g2 = current_id g"
    using n1 n2 by (simp_all add: node_part_def)
  ultimately show ?thesis
    using old p3 f4 nh by (simp add: i_def)
qed


lemma set_edge_next_ptr: "next_ptr (set_edge g p e) = next_ptr g"
  by (simp add: set_edge_def index_fields)

lemma destroy_edge_next_ptr_case:
  "case destroy_edge g edge of Inl err \<Rightarrow> True | Inr g' \<Rightarrow> next_ptr g' = next_ptr g"
  by (simp add: destroy_edge_def Let_def set_edge_next_ptr unindex_fields split: option.splits)

lemma destroy_edge_handles_next_ptr:
  assumes "destroy_edge_handles g l r = Inr g'"
  shows "next_ptr g' = next_ptr g"
proof (cases "get_edge g (get_id l, \<not> get_is_reverse l) (get_id r, get_is_reverse r)")
  case None
  with assms show ?thesis by (simp add: destroy_edge_handles_def)
next
  case (Some found)
  with assms have "destroy_edge g (Some found) = Inr g'" by (simp add: destroy_edge_handles_def)
  then show ?thesis using destroy_edge_next_ptr_case[of g "Some found"] by simp
qed

lemma destroy_edge_handles_wf:
  assumes "edge_wf g" "destroy_edge_handles g l r = Inr g'"
  shows "edge_wf g'"
proof (cases "get_edge g (get_id l, \<not> get_is_reverse l) (get_id r, get_is_reverse r)")
  case None
  with assms show ?thesis by (simp add: destroy_edge_handles_def)
next
  case (Some found)
  with assms(2) have "destroy_edge g (Some found) = Inr g'" by (simp add: destroy_edge_handles_def)
  with assms(1) show ?thesis by (rule destroy_edge_wf)
qed

lemma destroy_edges_handles_wf:
  assumes "fold_err f g xs = Inr g'" "edge_wf g" "node_wf g"
    and "\<And>a x b. f a x = Inr b \<Longrightarrow> \<exists>l r. destroy_edge_handles a l r = Inr b"
  shows "edge_wf g' \<and> node_wf g' \<and> node_part g' = node_part g \<and> next_ptr g' = next_ptr g"
proof (rule fold_err_invariant[OF assms(1),
      of "\<lambda>a. edge_wf a \<and> node_wf a \<and> node_part a = node_part g \<and> next_ptr a = next_ptr g"])
  show "edge_wf g \<and> node_wf g \<and> node_part g = node_part g \<and> next_ptr g = next_ptr g"
    using assms(2,3) by simp
next
  fix a x b
  assume a: "edge_wf a \<and> node_wf a \<and> node_part a = node_part g \<and> next_ptr a = next_ptr g"
    and f: "f a x = Inr b"
  from assms(4)[OF f] obtain l r where d: "destroy_edge_handles a l r = Inr b" by blast
  have np: "node_part b = node_part a" by (rule destroy_edge_handles_node_part[OF d])
  have nx: "next_ptr b = next_ptr a" by (rule destroy_edge_handles_next_ptr[OF d])
  have "node_wf b"
    by (rule node_wf_frame[of a]) (use a np nx in \<open>simp_all add: node_part_def\<close>)
  then show "edge_wf b \<and> node_wf b \<and> node_part b = node_part g \<and> next_ptr b = next_ptr g"
    using a np nx destroy_edge_handles_wf[OF _ d] by simp
qed


lemma apply_orientation_replaces:
  assumes r: "get_is_reverse handle" and a: "apply_orientation g handle = Inr (g', new_handle)"
    and ewf: "edge_wf g" and nwf: "node_wf g"
    and old: "node_by_id g (get_id handle) = Some old" "deref_node g old = Some n"
    and new: "node_by_id g' (get_id handle) = Some node"
  shows "set (graph_node g') = set (graph_node g) - {(old, n)}
           \<union> {(node, \<lparr>node_id = get_id handle, sequence = reverse_complement (sequence n)\<rparr>)}
       \<and> deref_node g' old = None"
proof -
  define right_nodes where "right_nodes = snd (follow_edges g handle False push_back_handle [])"
  define left_nodes where "left_nodes = snd (follow_edges g handle True push_back_handle [])"
  define i where "i = get_id handle"
  define fl where "fl = (\<lambda>g' left. create_edge_handles g'
                          (if left = handle then flip (get_handle i False)
                           else if left = flip handle then get_handle i False else left)
                          (get_handle i False))"
  define fr where "fr = (\<lambda>g' right. create_edge_handles g' (get_handle i False)
                          (if right = handle then flip (get_handle i False)
                           else if right = flip handle then get_handle i False else right))"
  from a r obtain g1 g2 new_sequence g3 g4 new_node g5 where
    s1: "fold_err (\<lambda>g' left. destroy_edge_handles g' left handle) g left_nodes = Inr g1"
    and s2: "fold_err (\<lambda>g' right. destroy_edge_handles g' handle right) g1 right_nodes = Inr g2"
    and s3: "get_sequence g2 handle = Inr new_sequence"
    and s4: "destroy_handle g2 handle = Inr g3"
    and s5: "create_node_id g3 new_sequence i = Inr (g4, new_node)"
    and s6: "fold_err fl g4 left_nodes = Inr g5"
    and s7: "fold_err fr g5 right_nodes = Inr g'"
    unfolding apply_orientation_def Let_def left_nodes_def right_nodes_def i_def fl_def fr_def
    by (clarsimp simp: bind_Inr)
  have w1: "edge_wf g1 \<and> node_wf g1 \<and> node_part g1 = node_part g \<and> next_ptr g1 = next_ptr g"
    by (rule destroy_edges_handles_wf[OF s1 ewf nwf]) blast
  then have w2: "edge_wf g2 \<and> node_wf g2 \<and> node_part g2 = node_part g1 \<and> next_ptr g2 = next_ptr g1"
    by (intro destroy_edges_handles_wf[OF s2]) blast+
  have f2: "graph_node g2 = graph_node g" "node_by_id g2 = node_by_id g" "next_ptr g2 = next_ptr g"
    using w1 w2 by (simp_all add: node_part_def)
  have n5: "node_part g5 = node_part g4"
    by (rule fold_err_node_part[OF s6]) (simp add: fl_def create_edge_handles_node_part)
  have n6: "node_part g' = node_part g5"
    by (rule fold_err_node_part[OF s7]) (simp add: fr_def create_edge_handles_node_part)
  have "get_sequence g handle = Inr new_sequence"
    using s3 get_sequence_node_part[of g2 g handle] w1 w2 by simp
  from get_sequence_reverse[OF r this] old have ns: "new_sequence = reverse_complement (sequence n)"
    by auto
  have hn: "has_node g2 i" using old(1) by (simp add: has_node_def f2 i_def)
  from destroy_node_id_result[OF _ _ hn] w2 obtain g3' node0 and n0 :: Node where d:
    "destroy_node_id g2 i = Inr g3'" "node_by_id g2 i = Some node0"
    "(node0, n0) \<in> set (graph_node g2)"
    "set (graph_node g3') = set (graph_node g2) - {(node0, n0)}"
    "next_ptr g3' = next_ptr g2"
    by blast
  have g3: "g3' = g3" using d(1) s4 by (simp add: destroy_handle_def i_def)
  have node0: "node0 = old" using d(2) old(1) by (simp add: f2 i_def)
  have "deref_node g node0 = Some n0" using node_wf_deref[OF nwf] d(3) by (simp add: f2)
  then have n0: "n0 = n" using old(2) node0 by simp
  note f4 = create_node_id_fields[OF s5]
  have f': "graph_node g' = graph_node g4" "node_by_id g' = node_by_id g4"
    using n5 n6 by (simp_all add: node_part_def)
  have node: "node = next_ptr g" using new by (simp add: f' f4 i_def g3[symmetric] d(5) f2)
  let ?new = "\<lparr>node_id = get_id handle, sequence = reverse_complement (sequence n)\<rparr>"
  have gn: "graph_node g' = graph_node g3 @ [(node, ?new)]"
    by (simp add: f' f4 ns i_def node g3[symmetric] d(5) f2)
  have s3: "set (graph_node g3) = set (graph_node g) - {(old, n)}"
    using d(4) by (simp add: g3 node0 n0 f2)
  have setg: "set (graph_node g') = set (graph_node g) - {(old, n)} \<union> {(node, ?new)}"
    by (simp add: gn s3)
  have lt: "\<forall>pn \<in> set (graph_node g). fst pn < next_ptr g" using nwf by (simp add: node_wf_def)
  have mem: "(old, n) \<in> set (graph_node g)"
    using old(2) by (simp add: deref_node_def map_of_SomeD)
  have "old \<notin> fst ` set (graph_node g')"
  proof
    assume "old \<in> fst ` set (graph_node g')"
    then obtain m where m: "(old, m) \<in> set (graph_node g')" by auto
    from lt mem have "old \<noteq> node" by (auto simp: node)
    with m setg have m': "(old, m) \<in> set (graph_node g)" "m \<noteq> n" by auto
    from node_wf_deref[OF nwf m'(1)] old(2) m'(2) show False by simp
  qed
  then have "deref_node g' old = None" by (simp add: deref_node_def map_of_eq_None_iff)
  with setg show ?thesis by simp
qed

text \<open>
  C10. \<^verbatim>\<open>apply_orientation\<close> on a forward handle returns the handle and the graph as they
  are. On a reverse handle, when it returns, the handle returned is the forward handle of
  the same id, the id index points at a new node at the end of the node array that has
  this id and the reverse complement of the sequence the old node stored, the id counter
  has not moved (no fresh id was taken), and the path collection is the same, so the
  mappings on the node are not rewritten. In a graph whose indices are consistent the new
  node replaces the old one: the node array holds the nodes it held, without the old node
  and with the new one, and the old node object is gone.
\<close>

theorem apply_orientation_reuses_id:
  "(\<not> get_is_reverse handle \<longrightarrow> apply_orientation g handle = Inr (g, handle))
   \<and> (get_is_reverse handle \<and> apply_orientation g handle = Inr (g', new_handle) \<longrightarrow>
        new_handle = get_handle (get_id handle) False
        \<and> (\<exists>old n node. node_by_id g (get_id handle) = Some old \<and> deref_node g old = Some n
              \<and> node_by_id g' (get_id handle) = Some node
              \<and> last (graph_node g') =
                  (node, \<lparr>node_id = get_id handle, sequence = reverse_complement (sequence n)\<rparr>)
              \<and> (edge_wf g \<and> node_wf g \<longrightarrow>
                    set (graph_node g') = set (graph_node g) - {(old, n)}
                      \<union> {(node, \<lparr>node_id = get_id handle, sequence = reverse_complement (sequence n)\<rparr>)}
                    \<and> deref_node g' old = None))
        \<and> current_id g' = current_id g
        \<and> paths g' = paths g)"
proof (intro conjI impI)
  show "apply_orientation g handle = Inr (g, handle)" if "\<not> get_is_reverse handle"
    using that by (rule apply_orientation_forward)
next
  assume h: "get_is_reverse handle \<and> apply_orientation g handle = Inr (g', new_handle)"
  then have r: "get_is_reverse handle" and a: "apply_orientation g handle = Inr (g', new_handle)"
    by simp_all
  from apply_orientation_reverse[OF r a] obtain old node and n :: Node where o:
    "new_handle = get_handle (get_id handle) False"
    "node_by_id g (get_id handle) = Some old" "deref_node g old = Some n"
    "node_by_id g' (get_id handle) = Some node"
    "last (graph_node g') =
       (node, \<lparr>node_id = get_id handle, sequence = reverse_complement (sequence n)\<rparr>)"
    "current_id g' = current_id g" "paths g' = paths g"
    by blast
  show "new_handle = get_handle (get_id handle) False" by (rule o(1))
  show "current_id g' = current_id g" by (rule o(6))
  show "paths g' = paths g" by (rule o(7))
  have "set (graph_node g') = set (graph_node g) - {(old, n)}
            \<union> {(node, \<lparr>node_id = get_id handle, sequence = reverse_complement (sequence n)\<rparr>)}
         \<and> deref_node g' old = None" if "edge_wf g \<and> node_wf g"
    using apply_orientation_replaces[OF r a _ _ o(2,3,4)] that by simp
  then show "\<exists>old n node. node_by_id g (get_id handle) = Some old \<and> deref_node g old = Some n
              \<and> node_by_id g' (get_id handle) = Some node
              \<and> last (graph_node g') =
                  (node, \<lparr>node_id = get_id handle, sequence = reverse_complement (sequence n)\<rparr>)
              \<and> (edge_wf g \<and> node_wf g \<longrightarrow>
                    set (graph_node g') = set (graph_node g) - {(old, n)}
                      \<union> {(node, \<lparr>node_id = get_id handle, sequence = reverse_complement (sequence n)\<rparr>)}
                    \<and> deref_node g' old = None)"
    using o(2,3,4,5) by blast
qed

lemma apply_orientation_example_returns:
  "\<not> isl (apply_orientation path_graph (get_handle 2 True))"
  by code_simp

theorem apply_orientation_reuses_id_witness:
  "apply_orientation path_graph (get_handle 2 False) = Inr (path_graph, get_handle 2 False)
   \<and> snd (projr (apply_orientation path_graph (get_handle 2 True))) = get_handle 2 False
   \<and> snd ` set (graph_node (fst (projr (apply_orientation path_graph (get_handle 2 True)))))
       = {\<lparr>node_id = 1, sequence = ''ACGT''\<rparr>, \<lparr>node_id = 2, sequence = ''TCCC''\<rparr>}
   \<and> deref_node (fst (projr (apply_orientation path_graph (get_handle 2 True)))) 1 = None
   \<and> current_id (fst (projr (apply_orientation path_graph (get_handle 2 True)))) = current_id path_graph
   \<and> paths (fst (projr (apply_orientation path_graph (get_handle 2 True)))) = paths path_graph"
proof -
  let ?r = "apply_orientation path_graph (get_handle 2 True)"
  let ?g = "fst (projr ?r)"
  have fwd: "\<not> get_is_reverse (get_handle 2 False)" by (simp add: get_is_reverse_get_handle)
  have rev: "get_is_reverse (get_handle 2 True)" by (simp add: get_is_reverse_get_handle)
  have i: "get_id (get_handle 2 True) = 2" by (simp add: get_id_get_handle)
  have r: "?r = Inr (?g, snd (projr ?r))"
    using apply_orientation_example_returns by (cases ?r) simp_all
  have f: "apply_orientation path_graph (get_handle 2 False) = Inr (path_graph, get_handle 2 False)"
    using apply_orientation_reuses_id[of "get_handle 2 False" path_graph] fwd by simp
  from apply_orientation_reuses_id[of "get_handle 2 True" path_graph ?g "snd (projr ?r)"] rev r
  obtain old node and n :: Node where o:
    "snd (projr ?r) = get_handle 2 False"
    "node_by_id path_graph 2 = Some old" "deref_node path_graph old = Some n"
    "edge_wf path_graph \<and> node_wf path_graph \<longrightarrow>
       set (graph_node ?g) = set (graph_node path_graph) - {(old, n)}
          \<union> {(node, \<lparr>node_id = 2, sequence = reverse_complement (sequence n)\<rparr>)}
       \<and> deref_node ?g old = None"
    "current_id ?g = current_id path_graph" "paths ?g = paths path_graph"
    unfolding i by blast
  have old: "old = 1" using o(2) by (simp add: path_graph_fields)
  have n: "n = \<lparr>node_id = 2, sequence = ''GGGA''\<rparr>"
    using o(3) by (simp add: old deref_node_def path_graph_fields)
  have rc: "reverse_complement (sequence n) = ''TCCC''"
    by (simp add: n reverse_complement_def complement_def)
  from o(4) path_graph_wf have s: "set (graph_node ?g) = set (graph_node path_graph) - {(old, n)}
          \<union> {(node, \<lparr>node_id = 2, sequence = ''TCCC''\<rparr>)}" "deref_node ?g 1 = None"
    by (simp_all add: rc old)
  have d: "set (graph_node path_graph) - {(old, n)} = {(0, \<lparr>node_id = 1, sequence = ''ACGT''\<rparr>)}"
    by (simp add: path_graph_fields old n insert_Diff_if)
  have "snd ` set (graph_node ?g) = {\<lparr>node_id = 1, sequence = ''ACGT''\<rparr>, \<lparr>node_id = 2, sequence = ''TCCC''\<rparr>}"
    unfolding s(1) d by (simp add: insert_commute)
  then show ?thesis using f o(1,5,6) s(2) by simp
qed

section \<open>Every mutation keeps the edge indices consistent\<close>


lemma edge_part_upd [simp]:
  "edge_part (g\<lparr>graph_node := a\<rparr>) = edge_part g"
  "edge_part (g\<lparr>node_index := b\<rparr>) = edge_part g"
  "edge_part (g\<lparr>node_by_id := c\<rparr>) = edge_part g"
  "edge_part (g\<lparr>paths := d\<rparr>) = edge_part g"
  "edge_part (g\<lparr>current_id := e\<rparr>) = edge_part g"
  "edge_part (g\<lparr>next_ptr := f\<rparr>) = edge_part g"
  by (simp_all add: edge_part_def)

lemma edge_wf_edge_part:
  assumes "edge_wf g" "edge_part g' = edge_part g" "next_ptr g \<le> next_ptr g'"
  shows "edge_wf g'"
  by (rule edge_wf_frame[OF assms(1)]) (use assms(2,3) in \<open>simp_all add: edge_part_def\<close>)

lemma create_node_edge_part:
  assumes "create_node g seq = Inr (g', node)"
  shows "edge_part g' = edge_part g \<and> next_ptr g' = Suc (next_ptr g) \<and> paths g' = paths g"
  using assms by (auto simp: create_node_def create_node_id_def Let_def split: if_splits)

lemma create_node_edge_wf:
  assumes "edge_wf g" "create_node g seq = Inr (g', node)"
  shows "edge_wf g'"
  by (rule edge_wf_edge_part[OF assms(1)]) (simp_all add: create_node_edge_part[OF assms(2)])

lemma destroy_node_edge_wf:
  assumes wf: "edge_wf g" and d: "destroy_node g node = Inr g'"
  shows "edge_wf g'"
proof (cases "deref_node g node")
  case None
  with d show ?thesis by (simp add: destroy_node_def)
next
  case n: (Some n)
  show ?thesis
  proof (cases "has_node g (node_id n)")
    case False
    with d n wf show ?thesis by (simp add: destroy_node_def)
  next
    case True
    define L where "L = fold (\<lambda>other_end acc. set_insert sides_less (pair_from_end_edge (node_id n) other_end) acc)
                   (edges_end g (node_id n))
                   (fold (\<lambda>other_end acc. set_insert sides_less (pair_from_start_edge (node_id n) other_end) acc)
                      (edges_start g (node_id n)) [])"
    have Lset: "set L = pair_from_start_edge (node_id n) ` set (edges_start g (node_id n))
                    \<union> pair_from_end_edge (node_id n) ` set (edges_end g (node_id n))"
      unfolding L_def by (rule edges_to_destroy_set)
    have norm: "\<forall>s \<in> set L. minmax (fst s) (snd s) = s"
      unfolding Lset by (auto simp: pair_from_start_edge_norm pair_from_end_edge_norm)
    from destroy_edges_fold[OF wf norm] obtain g1 where g1:
      "fold_err destroy_edge_sides g L = Inr g1" "edge_wf g1"
      "set (graph_edge g1) = {pe \<in> set (graph_edge g). pair_from_edge (snd pe) \<notin> set L}"
      "next_ptr g1 = next_ptr g"
      by blast
    have edges1: "set (graph_edge g1) = {pe \<in> set (graph_edge g). \<not> incident (snd pe) (node_id n)}"
      unfolding g1(3) Lset
      using incident_in_edges_to_destroy[OF wf, of _ _ "node_id n"] by (metis (no_types, lifting) prod.collapse)
    define g2 where "g2 = g1\<lparr>edges_on_start := (edges_on_start g1)(node_id n := None),
                   edges_on_end := (edges_on_end g1)(node_id n := None)\<rparr>"
    have wf2: "edge_wf g2"
      unfolding g2_def by (rule erase_adjacency_wf[OF g1(2)]) (simp add: edges1)
    have "case destroy_node g node of Inl err \<Rightarrow> True
          | Inr g' \<Rightarrow> edge_part g' = edge_part g2 \<and> next_ptr g' = next_ptr g2"
      using n True g1(1) by (simp add: destroy_node_def Let_def L_def g2_def)
    with d have "edge_part g' = edge_part g2" "next_ptr g' = next_ptr g2" by simp_all
    then show ?thesis using edge_wf_edge_part[OF wf2] by simp
  qed
qed

lemma fold_create_edge_wf:
  assumes "edge_wf g"
  shows "edge_wf (fold (\<lambda>e g'. fst (create_edge g' (f1 e) (f2 e) (f3 e) (f4 e))) es g)"
  using assms by (induction es arbitrary: g) (simp_all add: create_edge_wf)

lemma connect_parts_wf:
  assumes "edge_wf g"
  shows "edge_wf (connect_parts g ids)"
  using assms by (induction g ids rule: connect_parts.induct) (simp_all add: create_edge_wf)

lemma create_parts_edge_wf:
  assumes "edge_wf g" "create_parts g seq last_pos positions = Inr (g', parts)"
  shows "edge_wf g'"
  using assms
proof (induction positions arbitrary: g last_pos parts)
  case Nil
  then show ?case by (auto simp: bind_Inr create_node_edge_wf split: sum.splits)
next
  case (Cons pos rest)
  from Cons.prems(2) obtain g1 n1 ps where
    c1: "create_node g (substr seq last_pos (pos - last_pos)) = Inr (g1, n1)"
    and c2: "create_parts g1 seq pos rest = Inr (g', ps)"
    by (auto split: sum.splits)
  from Cons.IH[OF create_node_edge_wf[OF Cons.prems(1) c1] c2] show ?case .
qed

lemma move_edges_wf:
  assumes "edge_wf g"
  shows "edge_wf (move_edges g old part_ids)"
  unfolding move_edges_def Let_def
  by (intro connect_parts_wf fold_create_edge_wf assms)

lemma divide_node_InrD:
  assumes d: "divide_node g node positions = Inr (g', parts)"
  shows "\<exists>n g1 part_nodes ps.
      node_at g node = Inr n
      \<and> find (\<lambda>pos. pos < 0 \<or> pos > int (length (sequence n))) positions = None
      \<and> create_parts g (sequence n) 0 positions = Inr (g1, parts)
      \<and> map_err (node_at g1) parts = Inr part_nodes
      \<and> divide_paths (paths (move_edges g1 (node_id n) (map node_id part_nodes))) n positions
            (map node_id part_nodes) = Inr ps
      \<and> destroy_node ((move_edges g1 (node_id n) (map node_id part_nodes))\<lparr>paths := ps\<rparr>) node = Inr g'"
proof (cases "node_at g node")
  case (Inl err)
  with d show ?thesis by (simp add: divide_node_def)
next
  case n: (Inr n)
  show ?thesis
  proof (cases "find (\<lambda>pos. pos < 0 \<or> pos > int (length (sequence n))) positions")
    case (Some pos)
    with d n show ?thesis by (simp add: divide_node_def)
  next
    case f: None
    show ?thesis
    proof (cases "create_parts g (sequence n) 0 positions")
      case (Inl err)
      with d n f show ?thesis by (simp add: divide_node_def)
    next
      case (Inr r)
      obtain g1 parts1 where r: "r = (g1, parts1)" by (cases r)
      note cp = Inr[unfolded r]
      show ?thesis
      proof (cases "map_err (node_at g1) parts1")
        case (Inl err)
        with d n f cp show ?thesis by (simp add: divide_node_def)
      next
        case pn: (Inr part_nodes)
        define g3 where "g3 = move_edges g1 (node_id n) (map node_id part_nodes)"
        show ?thesis
        proof (cases "divide_paths (paths g3) n positions (map node_id part_nodes)")
          case (Inl err)
          with d n f cp pn show ?thesis by (simp add: divide_node_def Let_def g3_def)
        next
          case ps: (Inr ps)
          show ?thesis
          proof (cases "destroy_node (g3\<lparr>paths := ps\<rparr>) node")
            case (Inl err)
            with d n f cp pn ps show ?thesis by (simp add: divide_node_def Let_def g3_def)
          next
            case (Inr g4)
            with d n f cp pn ps have "g4 = g'" "parts1 = parts"
              by (simp_all add: divide_node_def Let_def g3_def)
            with n f cp pn ps Inr show ?thesis unfolding g3_def by blast
          qed
        qed
      qed
    qed
  qed
qed

lemma divide_node_edge_wf:
  assumes wf: "edge_wf g" and d: "divide_node g node positions = Inr (g', parts)"
  shows "edge_wf g'"
proof -
  from divide_node_InrD[OF d] obtain n :: Node and g1 and part_nodes :: "Node list" and ps where
    cp: "create_parts g (sequence n) 0 positions = Inr (g1, parts)"
    and dn: "destroy_node ((move_edges g1 (node_id n) (map node_id part_nodes))\<lparr>paths := ps\<rparr>) node = Inr g'"
    by blast
  have "edge_wf g1" by (rule create_parts_edge_wf[OF wf cp])
  then have "edge_wf (move_edges g1 (node_id n) (map node_id part_nodes))" by (rule move_edges_wf)
  then have "edge_wf ((move_edges g1 (node_id n) (map node_id part_nodes))\<lparr>paths := ps\<rparr>)"
    by (rule edge_wf_edge_part) simp_all
  then show ?thesis using dn by (rule destroy_node_edge_wf)
qed

lemma connect_prev_wf:
  assumes "edge_wf g" "connect_prev front back new_id g prev = Inr g'"
  shows "edge_wf g'"
  using assms by (auto simp: connect_prev_def Let_def create_edge_wf split: if_splits)

lemma connect_next_wf:
  assumes "edge_wf g" "connect_next front back new_id g next = Inr g'"
  shows "edge_wf g'"
  using assms by (auto simp: connect_next_def Let_def create_edge_wf split: if_splits)

lemma bind_InrE:
  assumes "(case x of Inl err \<Rightarrow> Inl err | Inr v \<Rightarrow> f v) = Inr r"
  obtains v where "x = Inr v" "f v = Inr r"
  using assms by (cases x) auto

lemma connect_left_wf:
  assumes "edge_wf g" "connect_left g nodes new_id = Inr g'"
  shows "edge_wf g'"
proof -
  from assms(2)[unfolded connect_left_def] obtain prevs where
    "(case map_err (with_id g) prevs of Inl err \<Rightarrow> Inl err
      | Inr prevs_ids \<Rightarrow> fold_err (connect_prev (hd nodes) (last nodes) new_id) g prevs_ids) = Inr g'"
    by (rule bind_InrE)
  then obtain xs where x: "fold_err (connect_prev (hd nodes) (last nodes) new_id) g xs = Inr g'"
    by (rule bind_InrE)
  show ?thesis
    by (rule fold_err_invariant[OF x, of edge_wf]) (fact assms(1), rule connect_prev_wf)
qed

lemma connect_right_wf:
  assumes "edge_wf g" "connect_right g nodes new_id = Inr g'"
  shows "edge_wf g'"
proof -
  from assms(2)[unfolded connect_right_def] obtain nexts where
    "(case map_err (with_id g) nexts of Inl err \<Rightarrow> Inl err
      | Inr nexts_ids \<Rightarrow> fold_err (connect_next (hd nodes) (last nodes) new_id) g nexts_ids) = Inr g'"
    by (rule bind_InrE)
  then obtain xs where x: "fold_err (connect_next (hd nodes) (last nodes) new_id) g xs = Inr g'"
    by (rule bind_InrE)
  show ?thesis
    by (rule fold_err_invariant[OF x, of edge_wf]) (fact assms(1), rule connect_next_wf)
qed

lemma concat_nodes_InrD:
  assumes c: "concat_nodes g nodes = Inr (g', node)"
  shows "\<exists>node_vals new_mappings g1 new_node g3 g4.
      nodes \<noteq> [] \<and> hd nodes \<noteq> last nodes
      \<and> map_err (\<lambda>n. case node_at g (fst n) of Inl err \<Rightarrow> Inl err | Inr nd \<Rightarrow> Inr (nd, snd n)) nodes
            = Inr node_vals
      \<and> concat_mappings_for_nodes g node_vals = Inr new_mappings
      \<and> create_node g (concat (map (\<lambda>n. if snd n then reverse_complement (sequence (fst n))
                                        else sequence (fst n)) node_vals)) = Inr (g1, node)
      \<and> node_at g1 node = Inr new_node
      \<and> connect_left (g1\<lparr>paths := replace_mappings (paths g1) node_vals new_mappings (node_id new_node)\<rparr>)
            nodes (node_id new_node) = Inr g3
      \<and> connect_right g3 nodes (node_id new_node) = Inr g4
      \<and> fold_err destroy_node g4 (map fst nodes) = Inr g'"
proof -
  have ne: "nodes \<noteq> []" "hd nodes \<noteq> last nodes"
    using c by (auto simp: concat_nodes_def split: if_splits)
  define seqf where "seqf = (\<lambda>n :: Node \<times> bool. if snd n then reverse_complement (sequence (fst n))
                                        else sequence (fst n))"
  show ?thesis
  proof (cases "map_err (\<lambda>n. case node_at g (fst n) of Inl err \<Rightarrow> Inl err | Inr nd \<Rightarrow> Inr (nd, snd n)) nodes")
    case (Inl err)
    with c ne show ?thesis by (simp add: concat_nodes_def)
  next
    case nv: (Inr node_vals)
    show ?thesis
    proof (cases "concat_mappings_for_nodes g node_vals")
      case (Inl err)
      with c ne nv show ?thesis by (simp add: concat_nodes_def)
    next
      case nm: (Inr new_mappings)
      show ?thesis
      proof (cases "create_node g (concat (map seqf node_vals))")
        case (Inl err)
        with c ne nv nm show ?thesis by (simp add: concat_nodes_def Let_def seqf_def)
      next
        case (Inr r)
        obtain g1 node1 where r: "r = (g1, node1)" by (cases r)
        note cn = Inr[unfolded r]
        show ?thesis
        proof (cases "node_at g1 node1")
          case (Inl err)
          with c ne nv nm cn show ?thesis by (simp add: concat_nodes_def Let_def seqf_def)
        next
          case nn: (Inr new_node)
          define g2 where "g2 = g1\<lparr>paths := replace_mappings (paths g1) node_vals new_mappings (node_id new_node)\<rparr>"
          show ?thesis
          proof (cases "connect_left g2 nodes (node_id new_node)")
            case (Inl err)
            with c ne nv nm cn nn show ?thesis by (simp add: concat_nodes_def Let_def seqf_def g2_def)
          next
            case cl: (Inr g3)
            show ?thesis
            proof (cases "connect_right g3 nodes (node_id new_node)")
              case (Inl err)
              with c ne nv nm cn nn cl show ?thesis
                by (simp add: concat_nodes_def Let_def seqf_def g2_def)
            next
              case cr: (Inr g4)
              show ?thesis
              proof (cases "fold_err destroy_node g4 (map fst nodes)")
                case (Inl err)
                with c ne nv nm cn nn cl cr show ?thesis
                  by (simp add: concat_nodes_def Let_def seqf_def g2_def)
              next
                case (Inr g5)
                with c ne nv nm cn nn cl cr have "g5 = g'" "node1 = node"
                  by (simp_all add: concat_nodes_def Let_def seqf_def g2_def)
                with ne nv nm cn nn cl cr Inr show ?thesis unfolding g2_def seqf_def by blast
              qed
            qed
          qed
        qed
      qed
    qed
  qed
qed

lemma concat_nodes_edge_wf:
  assumes wf: "edge_wf g" and c: "concat_nodes g nodes = Inr (g', node)"
  shows "edge_wf g'"
proof -
  from concat_nodes_InrD[OF c] obtain seq g1 ps i g3 g4 where
    c1: "create_node g seq = Inr (g1, node)"
    and c3: "connect_left (g1\<lparr>paths := ps\<rparr>) nodes i = Inr g3"
    and c4: "connect_right g3 nodes i = Inr g4"
    and c5: "fold_err destroy_node g4 (map fst nodes) = Inr g'"
    by blast
  have "edge_wf g1" by (rule create_node_edge_wf[OF wf c1])
  then have "edge_wf (g1\<lparr>paths := ps\<rparr>)" by (rule edge_wf_edge_part) simp_all
  then have "edge_wf g3" using c3 by (rule connect_left_wf)
  then have w4: "edge_wf g4" using c4 by (rule connect_right_wf)
  show ?thesis
    by (rule fold_err_invariant[OF c5, of edge_wf]) (fact w4, rule destroy_node_edge_wf)
qed

lemma loops_graph_wf: "edge_wf loops_graph" "node_wf loops_graph"
  unfolding loops_graph_def by (simp_all add: with_edge_wf two_nodes_wf)

lemma edge_wf_invariant: "edge_wf g \<Longrightarrow> edge_invariant g"
  by (simp add: edge_wf_def)

text \<open>
  C6. The empty graph has the invariant of section 8 together with the consistency of
  the edge bookkeeping (\<open>edge_wf\<close>), and each of the six mutations, when it returns, hands
  both on: for every edge of the array the adjacency list on each of its two sides holds
  the entry for the other side, and the edge is the one record under its canonical side
  pair. Nothing is assumed about the two ends of an edge, so self loops on one side and
  between the two sides of a node are covered.
\<close>

theorem edge_invariant_preserved:
  assumes "edge_wf g"
  shows "edge_invariant init \<and> edge_wf init
    \<and> edge_invariant (fst (create_edge g from to fs te)) \<and> edge_wf (fst (create_edge g from to fs te))
    \<and> (destroy_edge g edge = Inr g1 \<longrightarrow> edge_invariant g1 \<and> edge_wf g1)
    \<and> (create_node g seq = Inr (g2, n2) \<longrightarrow> edge_invariant g2 \<and> edge_wf g2)
    \<and> (create_node_id g seq i = Inr (g3, n3) \<longrightarrow> edge_invariant g3 \<and> edge_wf g3)
    \<and> (destroy_node g node = Inr g4 \<longrightarrow> edge_invariant g4 \<and> edge_wf g4)
    \<and> (divide_node g node positions = Inr (g5, parts) \<longrightarrow> edge_invariant g5 \<and> edge_wf g5)
    \<and> (concat_nodes g nodes = Inr (g6, n6) \<longrightarrow> edge_invariant g6 \<and> edge_wf g6)"
proof -
  have 0: "edge_wf init" by (rule edge_wf_init)
  have 1: "edge_wf (fst (create_edge g from to fs te))" by (rule create_edge_wf[OF assms])
  have 2: "edge_wf g1" if "destroy_edge g edge = Inr g1"
    using that by (rule destroy_edge_wf[OF assms])
  have 3: "edge_wf g2" if "create_node g seq = Inr (g2, n2)"
    using that by (rule create_node_edge_wf[OF assms])
  have 4: "edge_wf g3" if "create_node_id g seq i = Inr (g3, n3)"
    using that by (rule create_node_id_edge_wf[OF assms])
  have 5: "edge_wf g4" if "destroy_node g node = Inr g4"
    using that by (rule destroy_node_edge_wf[OF assms])
  have 6: "edge_wf g5" if "divide_node g node positions = Inr (g5, parts)"
    using that by (rule divide_node_edge_wf[OF assms])
  have 7: "edge_wf g6" if "concat_nodes g nodes = Inr (g6, n6)"
    using that by (rule concat_nodes_edge_wf[OF assms])
  show ?thesis
    using 0 1 2 3 4 5 6 7 by (simp add: edge_wf_invariant)
qed

lemma edge_invariant_examples_return:
  "\<not> isl (destroy_edge loops_graph (get_edge loops_graph (1, True) (1, True)))"
  "\<not> isl (create_node loops_graph ''A'')"
  "\<not> isl (destroy_node loops_graph 0)"
  "\<not> isl (divide_node loops_graph 0 [2])"
  "\<not> isl (concat_nodes path_graph [(0, False), (1, False)])"
  by code_simp+

lemma not_isl_projr: "\<not> isl r \<Longrightarrow> r = Inr (projr r)"
  by (cases r) simp_all

theorem edge_invariant_preserved_witness:
  "edge_invariant (fst (create_edge loops_graph 2 2 True False))
   \<and> edge_invariant (projr (destroy_edge loops_graph (get_edge loops_graph (1, True) (1, True))))
   \<and> edge_invariant (fst (projr (create_node loops_graph ''A'')))
   \<and> edge_invariant (projr (destroy_node loops_graph 0))
   \<and> edge_invariant (fst (projr (divide_node loops_graph 0 [2])))
   \<and> edge_invariant (fst (projr (concat_nodes path_graph [(0, False), (1, False)])))"
proof -
  note r = edge_invariant_examples_return[THEN not_isl_projr]
  have 1: "edge_invariant (fst (create_edge loops_graph 2 2 True False))"
    using edge_invariant_preserved[OF loops_graph_wf(1)] by blast
  have 2: "edge_invariant (projr (destroy_edge loops_graph (get_edge loops_graph (1, True) (1, True))))"
    using edge_invariant_preserved[OF loops_graph_wf(1)] r(1) by blast
  have 3: "edge_invariant (fst (projr (create_node loops_graph ''A'')))"
    using edge_invariant_preserved[OF loops_graph_wf(1),
        of _ _ _ _ _ _ "''A''" "fst (projr (create_node loops_graph ''A''))"
           "snd (projr (create_node loops_graph ''A''))"] r(2)
    by simp
  have 4: "edge_invariant (projr (destroy_node loops_graph 0))"
    using edge_invariant_preserved[OF loops_graph_wf(1)] r(3) by blast
  have 5: "edge_invariant (fst (projr (divide_node loops_graph 0 [2])))"
    using edge_invariant_preserved[OF loops_graph_wf(1),
        of _ _ _ _ _ _ _ _ _ _ _ _ 0 _ "[2]" "fst (projr (divide_node loops_graph 0 [2]))"
           "snd (projr (divide_node loops_graph 0 [2]))"] r(4)
    by simp
  have 6: "edge_invariant (fst (projr (concat_nodes path_graph [(0, False), (1, False)])))"
    using edge_invariant_preserved[OF path_graph_wf(1),
        of _ _ _ _ _ _ _ _ _ _ _ _ _ _ _ _ _ "[(0, False), (1, False)]"
           "fst (projr (concat_nodes path_graph [(0, False), (1, False)]))"
           "snd (projr (concat_nodes path_graph [(0, False), (1, False)]))"] r(5)
    by simp
  show ?thesis using 1 2 3 4 5 6 by simp
qed

subsection \<open>The nodes made by dividing\<close>


lemma max_node_id_fold:
  "fold (\<lambda>(p, n) max_id. if node_id n > max_id then node_id n else max_id) xs m \<ge> m
   \<and> (\<forall>pn \<in> set xs. node_id (snd pn) \<le> fold (\<lambda>(p, n) max_id. if node_id n > max_id then node_id n else max_id) xs m)"
proof (induction xs arbitrary: m)
  case Nil
  then show ?case by simp
next
  case (Cons x xs)
  obtain p n where x: "x = (p, n)" by (cases x)
  let ?m' = "if node_id n > m then node_id n else m"
  from Cons.IH[of ?m'] show ?case
    by (auto simp: x intro: order_trans)
qed

lemma max_node_id_nonneg: "0 \<le> max_node_id g"
  using max_node_id_fold[where xs="graph_node g" and m=0] by (simp add: max_node_id_def)

lemma int64_nonzero:
  assumes "0 < u" "u < 2 ^ 64"
  shows "int64 u \<noteq> 0"
  using assms by (simp add: int64_zero_iff)

lemma int64_not_one:
  assumes "1 < u" "u \<le> 2 ^ 64"
  shows "int64 u \<noteq> 1"
proof
  assume "int64 u = 1"
  then have "int64 u = int64 1" by (simp add: int64_id)
  then have e: "u mod 2 ^ 64 = 1" unfolding int64_eq_iff by simp
  show False
  proof (cases "u = 2 ^ 64")
    case True
    with e show False by simp
  next
    case False
    with assms have "u mod 2 ^ 64 = u" by simp
    with e assms show False by simp
  qed
qed

text \<open>The ids that the counter hands out next are \<open>u\<close>, \<open>u + 1\<close>, ... in 64 bits.\<close>

lemma counter_ok_next:
  assumes "counter_ok g" "int m < 2 ^ 63"
  shows "\<exists>u. 0 < u \<and> u + int m < 2 ^ 64 \<and> next_node_id g = int64 u"
proof (cases "current_id g = 1")
  case True
  have "0 < max_node_id g + 1" using max_node_id_nonneg[of g] by simp
  moreover have "max_node_id g + 1 + int m < 2 ^ 64" using assms by (simp add: counter_ok_def)
  ultimately show ?thesis
    using True by (intro exI[of _ "max_node_id g + 1"]) (simp add: next_node_id_def)
next
  case False
  have "int64 (current_id g) = current_id g"
    using assms(1) by (intro int64_id) (simp_all add: counter_ok_def)
  moreover have "current_id g + int m < 2 ^ 64" using assms by (simp add: counter_ok_def)
  ultimately show ?thesis
    using False assms(1)
    by (intro exI[of _ "current_id g"]) (simp add: next_node_id_def counter_ok_def)
qed

lemma create_node_fields:
  assumes "next_node_id g \<noteq> 0"
  shows "\<exists>g'. create_node g seq = Inr (g', next_ptr g)
           \<and> graph_node g' = graph_node g @ [(next_ptr g, \<lparr>node_id = next_node_id g, sequence = seq\<rparr>)]
           \<and> node_by_id g' = (node_by_id g)(next_node_id g \<mapsto> next_ptr g)
           \<and> node_index g' = (node_index g)(next_ptr g \<mapsto> length (graph_node g))
           \<and> next_ptr g' = Suc (next_ptr g)
           \<and> current_id g' = int64 (next_node_id g + 1)
           \<and> edge_part g' = edge_part g \<and> paths g' = paths g"
  using assms
  by (auto simp: create_node_def create_node_id_def next_node_id_def Let_def edge_part_def)

lemma create_node_node_wf:
  assumes "node_wf g" "create_node g seq = Inr (g', node)"
  shows "node_wf g'"
proof -
  let ?g2 = "(if current_id g = 1 then g\<lparr>current_id := int64 (max_node_id g + 1)\<rparr> else g)"
  let ?g3 = "?g2\<lparr>current_id := int64 (current_id ?g2 + 1)\<rparr>"
  have "node_wf ?g3" by (rule node_wf_frame[OF assms(1)]) simp_all
  moreover have "create_node_id ?g3 seq (current_id ?g2) = Inr (g', node)"
    using assms(2) by (simp add: create_node_def Let_def)
  ultimately show ?thesis by (rule create_node_id_node_wf)
qed

lemma map_err_Inr:
  assumes "list_all2 (\<lambda>x y. f x = Inr y) xs ys"
  shows "map_err f xs = Inr ys"
  using assms by (induction rule: list_all2_induct) simp_all

lemma map_err_length:
  "map_err f xs = Inr ys \<Longrightarrow> length ys = length xs"
  by (induction xs arbitrary: ys) (auto split: sum.splits)

lemma node_at_member:
  assumes "node_wf g" "(p, n) \<in> set (graph_node g)"
  shows "node_at g p = Inr n"
  using node_wf_deref[OF assms] by (simp add: node_at_def)

lemma part_sequences_length: "length (part_sequences seq last_pos positions) = Suc (length positions)"
  by (induction positions arbitrary: last_pos) simp_all

lemma pieces_length: "length (pieces seq last_pos positions) = Suc (length positions)"
  by (induction positions arbitrary: last_pos) simp_all

lemma part_sequences_sorted:
  assumes "sorted_wrt (<) (last_pos # positions)"
  shows "part_sequences seq last_pos positions = pieces seq last_pos positions"
  using assms by (induction positions arbitrary: last_pos) (simp_all add: substr_def)

lemma pieces_nonempty:
  assumes "sorted_wrt (<) (last_pos # positions)" "0 \<le> last_pos"
    and "\<forall>pos \<in> set (last_pos # positions). pos < int (length seq)"
  shows "[] \<notin> set (pieces seq last_pos positions)"
  using assms by (induction positions arbitrary: last_pos) auto

lemma pieces_concat:
  assumes "sorted_wrt (<) (last_pos # positions)" "0 \<le> last_pos"
  shows "concat (pieces seq last_pos positions) = drop (nat last_pos) seq"
  using assms
proof (induction positions arbitrary: last_pos)
  case Nil
  then show ?case by simp
next
  case (Cons pos rest)
  then have lp: "last_pos < pos" "0 \<le> pos" and srt: "sorted_wrt (<) (pos # rest)" by auto
  have "nat pos = nat (pos - last_pos) + nat last_pos" using lp Cons.prems(2) by simp
  then have "drop (nat pos) seq = drop (nat (pos - last_pos)) (drop (nat last_pos) seq)"
    by (simp only: drop_drop)
  then have "concat (pieces seq last_pos (pos # rest))
      = take (nat (pos - last_pos)) (drop (nat last_pos) seq)
        @ drop (nat (pos - last_pos)) (drop (nat last_pos) seq)"
    using Cons.IH[OF srt lp(2)] by (simp del: drop_drop)
  then show ?case by (simp only: append_take_drop_id)
qed

lemma create_parts_result:
  assumes "node_wf g" "0 < u" "u + int (length positions) < 2 ^ 64" "next_node_id g = int64 u"
  shows "\<exists>g1 parts part_nodes. create_parts g seq last_pos positions = Inr (g1, parts)
     \<and> graph_node g1 = graph_node g @ zip parts part_nodes
     \<and> length parts = length part_nodes
     \<and> map sequence part_nodes = part_sequences seq last_pos positions
     \<and> node_wf g1 \<and> edge_part g1 = edge_part g \<and> paths g1 = paths g
     \<and> next_ptr g \<le> next_ptr g1
     \<and> (\<forall>i. node_by_id g i \<noteq> None \<longrightarrow> node_by_id g1 i \<noteq> None)
     \<and> (\<forall>pn \<in> set part_nodes. node_by_id g1 (node_id pn) \<noteq> None)"
  using assms
proof (induction positions arbitrary: g last_pos u)
  case Nil
  have nz: "next_node_id g \<noteq> 0" using Nil.prems by (simp add: int64_nonzero)
  from create_node_fields[OF nz, of "drop (nat last_pos) seq"] obtain g' where g':
    "create_node g (drop (nat last_pos) seq) = Inr (g', next_ptr g)"
    "graph_node g' = graph_node g @ [(next_ptr g, \<lparr>node_id = next_node_id g, sequence = drop (nat last_pos) seq\<rparr>)]"
    "node_by_id g' = (node_by_id g)(next_node_id g \<mapsto> next_ptr g)"
    "next_ptr g' = Suc (next_ptr g)" "edge_part g' = edge_part g" "paths g' = paths g"
    by blast
  have wf': "node_wf g'" by (rule create_node_node_wf[OF Nil.prems(1) g'(1)])
  show ?case
    apply (rule exI[of _ g'], rule exI[of _ "[next_ptr g]"])
    apply (rule exI[of _ "[\<lparr>node_id = next_node_id g, sequence = drop (nat last_pos) seq\<rparr>]"])
    using g' wf' by simp
next
  case (Cons pos rest)
  let ?s = "substr seq last_pos (pos - last_pos)"
  let ?new = "\<lparr>node_id = next_node_id g, sequence = ?s\<rparr>"
  have ub: "u + 1 + int (length rest) < 2 ^ 64" using Cons.prems(3) by simp
  then have u1: "0 < u + 1" "u + 1 < 2 ^ 64" "1 < u + 1" "u + 1 \<le> 2 ^ 64"
    using Cons.prems(2) by simp_all
  have nz: "next_node_id g \<noteq> 0" using Cons.prems(2,4) ub by (simp add: int64_nonzero)
  from create_node_fields[OF nz, of ?s] obtain ga where ga:
    "create_node g ?s = Inr (ga, next_ptr g)"
    "graph_node ga = graph_node g @ [(next_ptr g, ?new)]"
    "node_by_id ga = (node_by_id g)(next_node_id g \<mapsto> next_ptr g)"
    "next_ptr ga = Suc (next_ptr g)" "current_id ga = int64 (next_node_id g + 1)"
    "edge_part ga = edge_part g" "paths ga = paths g"
    by blast
  have wfa: "node_wf ga" by (rule create_node_node_wf[OF Cons.prems(1) ga(1)])
  have "int64 (next_node_id g) = int64 u" using Cons.prems(4) by simp
  then have cur: "current_id ga = int64 (u + 1)" unfolding ga(5) by (rule int64_succ)
  have nxt: "next_node_id ga = int64 (u + 1)"
    using int64_not_one[OF u1(3,4)] by (simp add: next_node_id_def cur)
  from Cons.IH[OF wfa u1(1) ub nxt] obtain g1 parts and part_nodes :: "Node list" where r:
    "create_parts ga seq pos rest = Inr (g1, parts)"
    "graph_node g1 = graph_node ga @ zip parts part_nodes"
    "length parts = length part_nodes"
    "map sequence part_nodes = part_sequences seq pos rest"
    "node_wf g1" "edge_part g1 = edge_part ga" "paths g1 = paths ga"
    "next_ptr ga \<le> next_ptr g1"
    "\<forall>i. node_by_id ga i \<noteq> None \<longrightarrow> node_by_id g1 i \<noteq> None"
    "\<forall>pn \<in> set part_nodes. node_by_id g1 (node_id pn) \<noteq> None"
    by blast
  have newid: "node_by_id g1 (next_node_id g) \<noteq> None"
    using r(9) ga(3) by simp
  have mono: "\<forall>i. node_by_id g i \<noteq> None \<longrightarrow> node_by_id g1 i \<noteq> None"
    using r(9) ga(3) by simp
  show ?case
    apply (rule exI[of _ g1], rule exI[of _ "next_ptr g # parts"], rule exI[of _ "?new # part_nodes"])
    using ga(1,2,4,6,7) r(1-8,10) newid mono by simp
qed

subsection \<open>Dividing the mappings succeeds\<close>


lemma tags_set: "set (tags ps) = (\<Union>nm \<in> set (path_list ps). fst ` set (snd nm))"
  by (auto simp: tags_def)

lemma mapping_path_name_Some:
  assumes "p \<in> set (tags ps)"
  shows "\<exists>name. mapping_path_name ps p = Some name"
proof -
  from assms obtain nm where nm: "nm \<in> set (path_list ps)" "p \<in> fst ` set (snd nm)"
    unfolding tags_set by blast
  have "nm \<in> set (filter (\<lambda>(name, ms). p \<in> fst ` set ms) (path_list ps))"
    using nm by (simp add: case_prod_unfold)
  then obtain x xs where "filter (\<lambda>(name, ms). p \<in> fst ` set ms) (path_list ps) = x # xs"
    by (cases "filter (\<lambda>(name, ms). p \<in> fst ` set ms) (path_list ps)") auto
  then show ?thesis by (cases x) (simp add: mapping_path_name_def)
qed

lemma remove_mapping_tags:
  "set (tags ps) - {p} \<subseteq> set (tags (fst (remove_mapping ps p)))"
  unfolding tags_set remove_mapping_def
  by (auto split: option.splits) force+

lemma insert_mapping_tags:
  "set (tags ps) \<subseteq> set (tags (fst (insert_mapping ps w name m)))"
proof
  fix p assume "p \<in> set (tags ps)"
  then obtain n ms where nm: "(n, ms) \<in> set (path_list ps)" "p \<in> fst ` set ms"
    unfolding tags_set by force
  let ?f = "\<lambda>(n, ms). if n = name then (n, take w ms @ [(next_mapping ps, m)] @ drop w ms) else (n, ms)"
  have "?f (n, ms) \<in> set (path_list (fst (insert_mapping ps w name m)))"
    using nm(1) by (force simp: insert_mapping_def)
  moreover have "p \<in> fst ` set (snd (?f (n, ms)))"
  proof (cases "n = name")
    case True
    have "set ms = set (take w ms) \<union> set (drop w ms)" by (metis append_take_drop_id set_append)
    with nm(2) True show ?thesis by auto
  next
    case False
    with nm(2) show ?thesis by simp
  qed
  ultimately show "p \<in> set (tags (fst (insert_mapping ps w name m)))"
    unfolding tags_set by blast
qed

lemma insert_mappings_tags:
  "set (tags ps) \<subseteq> set (tags (insert_mappings ps w name ms))"
proof (induction ms arbitrary: ps w)
  case Nil
  then show ?case by simp
next
  case (Cons m ms)
  obtain ps' w' where i: "insert_mapping ps w name m = (ps', w')" by (cases "insert_mapping ps w name m")
  have "set (tags ps) \<subseteq> set (tags ps')" using insert_mapping_tags[of ps w name m] i by simp
  also have "\<dots> \<subseteq> set (tags (insert_mappings ps' w' name ms))" by (rule Cons.IH)
  finally show ?case by (simp add: i)
qed

lemma divide_mapping_ok:
  assumes "fst pm \<in> set (tags ps)"
  shows "\<exists>ps'. divide_mapping sz positions ids ps pm = Inr ps' \<and> set (tags ps) - {fst pm} \<subseteq> set (tags ps')"
proof -
  from mapping_path_name_Some[OF assms] obtain name where n: "mapping_path_name ps (fst pm) = Some name"
    by blast
  obtain chunks remainder where c: "cut_chunks sz positions ids (snd pm) 0 = (chunks, remainder)"
    by (cases "cut_chunks sz positions ids (snd pm) 0")
  obtain ps1 mpit where r: "remove_mapping ps (fst pm) = (ps1, mpit)"
    by (cases "remove_mapping ps (fst pm)")
  have "set (tags ps) - {fst pm} \<subseteq> set (tags ps1)"
    using remove_mapping_tags[of ps "fst pm"] r by simp
  then have "set (tags ps) - {fst pm} \<subseteq> set (tags (insert_mappings ps1 mpit name ms))" for ms
    using insert_mappings_tags[of ps1 mpit name ms] by blast
  then show ?thesis
    by (simp add: divide_mapping_def n c r Let_def)
qed

lemma divide_mappings_ok:
  assumes "distinct (map fst L)" "fst ` set L \<subseteq> set (tags ps)"
  shows "\<exists>ps'. fold_err (divide_mapping sz positions ids) ps L = Inr ps'"
  using assms
proof (induction L arbitrary: ps)
  case Nil
  then show ?case by simp
next
  case (Cons pm L)
  from Cons.prems(2) have "fst pm \<in> set (tags ps)" by simp
  from divide_mapping_ok[OF this, of sz positions ids] obtain ps1 where
    d: "divide_mapping sz positions ids ps pm = Inr ps1" "set (tags ps) - {fst pm} \<subseteq> set (tags ps1)"
    by blast
  have "fst ` set L \<subseteq> set (tags ps1)"
  proof
    fix q assume q: "q \<in> fst ` set L"
    from Cons.prems(1) have "fst pm \<notin> fst ` set L" by simp
    with q have "q \<noteq> fst pm" by blast
    moreover from q Cons.prems(2) have "q \<in> set (tags ps)" by auto
    ultimately show "q \<in> set (tags ps1)" using d(2) by blast
  qed
  moreover have "distinct (map fst L)" using Cons.prems(1) by simp
  ultimately obtain ps' where "fold_err (divide_mapping sz positions ids) ps1 L = Inr ps'"
    using Cons.IH by blast
  then show ?case by (simp add: d(1))
qed

lemma concat_filter_nonempty:
  "concat (map snd (filter (\<lambda>(name, ms). ms \<noteq> []) xs)) = concat (map snd xs)"
  by (induction xs) auto

lemma node_mappings_filter:
  "concat (map snd (get_node_mapping_by_path_name ps i))
     = filter (\<lambda>(p, m). m_node_id m = i) (concat (map snd (path_list ps)))"
  unfolding get_node_mapping_by_path_name_def concat_filter_nonempty
  by (induction "path_list ps" arbitrary: ps) (auto simp: filter_concat comp_def case_prod_unfold)

lemma divide_paths_ok:
  assumes "paths_wf ps"
  shows "\<exists>ps'. divide_paths ps n positions ids = Inr ps'"
proof -
  let ?L = "concat (map snd (get_node_mapping_by_path_name ps (node_id n)))"
  have "distinct (map fst ?L)"
    using assms unfolding node_mappings_filter paths_wf_def tags_def by (rule distinct_map_filter)
  moreover have "fst ` set ?L \<subseteq> set (tags ps)"
    unfolding node_mappings_filter tags_def by auto
  ultimately show ?thesis
    using divide_mappings_ok[of ?L ps] by (simp add: divide_paths_def)
qed

subsection \<open>What dividing a node returns\<close>


lemma fold_create_edge_node_part:
  "node_part (fold (\<lambda>e g'. fst (create_edge g' (f1 e) (f2 e) (f3 e) (f4 e))) es g) = node_part g"
  by (induction es arbitrary: g) simp_all

lemma connect_parts_node_part: "node_part (connect_parts g ids) = node_part g"
  by (induction g ids rule: connect_parts.induct) simp_all

lemma move_edges_node_part: "node_part (move_edges g old part_ids) = node_part g"
  unfolding move_edges_def Let_def
  by (simp only: connect_parts_node_part fold_create_edge_node_part)

lemma fold_create_edge_next_ptr:
  "next_ptr g \<le> next_ptr (fold (\<lambda>e g'. fst (create_edge g' (f1 e) (f2 e) (f3 e) (f4 e))) es g)"
proof (induction es arbitrary: g)
  case Nil
  then show ?case by simp
next
  case (Cons e es)
  have "next_ptr g \<le> next_ptr (fst (create_edge g (f1 e) (f2 e) (f3 e) (f4 e)))"
    by (simp add: create_edge_frame)
  also note Cons.IH
  finally show ?case by simp
qed

lemma connect_parts_next_ptr: "next_ptr g \<le> next_ptr (connect_parts g ids)"
proof (induction g ids rule: connect_parts.induct)
  case (1 g a b rest)
  have "next_ptr g \<le> next_ptr (fst (create_edge g a b False False))"
    by (simp add: create_edge_frame)
  also note 1
  finally show ?case by simp
qed simp_all

lemma move_edges_node_wf:
  assumes "node_wf g"
  shows "node_wf (move_edges g old part_ids)"
proof (rule node_wf_frame[OF assms])
  have np: "node_part (move_edges g old part_ids) = node_part g" by (rule move_edges_node_part)
  then show "graph_node (move_edges g old part_ids) = graph_node g"
    "node_by_id (move_edges g old part_ids) = node_by_id g"
    "node_index (move_edges g old part_ids) = node_index g"
    by (simp_all add: node_part_def)
  show "next_ptr g \<le> next_ptr (move_edges g old part_ids)"
    unfolding move_edges_def Let_def
    by (rule order_trans[OF fold_create_edge_next_ptr connect_parts_next_ptr])
qed


lemma divide_node_result:
  assumes ewf: "edge_wf g" and nwf: "node_wf g" and cok: "counter_ok g" and idx: "ids_indexed g"
    and pwf: "paths_wf (paths g)" and mem: "(node, n) \<in> set (graph_node g)"
    and len: "int (length positions) < 2 ^ 63"
    and ok: "\<forall>pos \<in> set positions. 0 \<le> pos \<and> pos \<le> int (length (sequence n))"
  shows "\<exists>g' parts part_nodes. divide_node g node positions = Inr (g', parts)
      \<and> length parts = length part_nodes
      \<and> map sequence part_nodes = part_sequences (sequence n) 0 positions
      \<and> set (graph_node g') = set (graph_node g) - {(node, n)} \<union> set (zip parts part_nodes)
      \<and> map (deref_node g') parts = map Some part_nodes
      \<and> deref_node g' node = None \<and> \<not> has_node g' (node_id n)
      \<and> edge_wf g' \<and> node_wf g'"
proof -
  have na: "node_at g node = Inr n" by (rule node_at_member[OF nwf mem])
  have f: "find (\<lambda>pos. pos < 0 \<or> pos > int (length (sequence n))) positions = None"
    using ok by (auto simp: find_None_iff)
  from counter_ok_next[OF cok len] obtain u where
    u: "0 < u" "u + int (length positions) < 2 ^ 64" "next_node_id g = int64 u"
    by blast
  from create_parts_result[OF nwf u, of "sequence n" 0]
  obtain g1 parts and part_nodes :: "Node list" where cp:
    "create_parts g (sequence n) 0 positions = Inr (g1, parts)"
    "graph_node g1 = graph_node g @ zip parts part_nodes"
    "length parts = length part_nodes"
    "map sequence part_nodes = part_sequences (sequence n) 0 positions"
    "node_wf g1" "edge_part g1 = edge_part g" "paths g1 = paths g"
    "next_ptr g \<le> next_ptr g1"
    "\<forall>i. node_by_id g i \<noteq> None \<longrightarrow> node_by_id g1 i \<noteq> None"
    by blast
  have zmem: "(parts ! i, part_nodes ! i) \<in> set (graph_node g1)" if "i < length parts" for i
  proof -
    have "zip parts part_nodes ! i \<in> set (zip parts part_nodes)"
      using that cp(3) by (intro nth_mem) simp
    then show ?thesis using that cp(3) by (simp add: cp(2))
  qed
  have me: "map_err (node_at g1) parts = Inr part_nodes"
  proof (rule map_err_Inr)
    show "list_all2 (\<lambda>x y. node_at g1 x = Inr y) parts part_nodes"
      unfolding list_all2_conv_all_nth using cp(3) node_at_member[OF cp(5) zmem] by simp
  qed
  define ids where "ids = map node_id part_nodes"
  define g3 where "g3 = move_edges g1 (node_id n) ids"
  have np3: "node_part g3 = node_part g1" unfolding g3_def by (rule move_edges_node_part)
  then have g3f: "graph_node g3 = graph_node g1" "node_by_id g3 = node_by_id g1"
    "node_index g3 = node_index g1" "paths g3 = paths g1"
    by (simp_all add: node_part_def)
  have ewf1: "edge_wf g1" by (rule edge_wf_edge_part[OF ewf cp(6) cp(8)])
  have ewf3: "edge_wf g3" unfolding g3_def by (rule move_edges_wf[OF ewf1])
  have nwf3: "node_wf g3" unfolding g3_def by (rule move_edges_node_wf[OF cp(5)])
  from divide_paths_ok[OF pwf, of n positions ids] obtain ps where
    dp: "divide_paths (paths g3) n positions ids = Inr ps"
    by (auto simp: g3f(4) cp(7))
  define g3' where "g3' = g3\<lparr>paths := ps\<rparr>"
  have ewf3': "edge_wf g3'" unfolding g3'_def by (rule edge_wf_edge_part[OF ewf3]) simp_all
  have nwf3': "node_wf g3'" unfolding g3'_def by (rule node_wf_frame[OF nwf3]) simp_all
  have gn3': "graph_node g3' = graph_node g @ zip parts part_nodes"
    by (simp add: g3'_def g3f cp(2))
  have "node_by_id g (node_id n) = Some node" using idx mem by (auto simp: ids_indexed_def)
  then have "node_by_id g1 (node_id n) \<noteq> None" using cp(9) by simp
  then have hn: "has_node g3' (node_id n)" by (simp add: has_node_def g3'_def g3f)
  from mem obtain k where k: "k < length (graph_node g)" "graph_node g ! k = (node, n)"
    by (auto simp: in_set_conv_nth)
  have k': "k < length (graph_node g3')" "graph_node g3' ! k = (node, n)"
    using k by (simp_all add: gn3' nth_append)
  from destroy_node_result[OF ewf3' nwf3' hn k'] obtain g' where g':
    "destroy_node g3' node = Inr g'"
    "graph_node g' = remove_swap (graph_node g3') k"
    "node_by_id g' = (if k = length (graph_node g3') - 1 then (node_by_id g3')(node_id n := None)
               else (node_by_id g3')(node_id (snd (last (graph_node g3'))) \<mapsto> fst (last (graph_node g3')),
                                   node_id n := None))"
    "node_index g' = (if k = length (graph_node g3') - 1 then (node_index g3')(node := None)
               else (node_index g3')(fst (last (graph_node g3')) \<mapsto> k, node := None))"
    "edge_wf g'" "next_ptr g' = next_ptr g3'"
    by blast
  from node_wf_remove[OF nwf3' k' g'(2,3,4,6)] have rm:
    "node_wf g'" "set (graph_node g') = set (graph_node g3') - {(node, n)}"
    by simp_all
  have dist: "distinct (map fst (graph_node g3'))" using nwf3' by (simp add: node_wf_def)
  have fresh: "node \<notin> fst ` set (zip parts part_nodes)"
    using dist mem unfolding gn3' by (auto simp: image_iff) force
  have res: "divide_node g node positions = Inr (g', parts)"
    using g'(1) dp by (simp add: divide_node_def na f cp(1) me Let_def ids_def g3_def g3'_def)
  have setg: "set (graph_node g') = set (graph_node g) - {(node, n)} \<union> set (zip parts part_nodes)"
    using fresh unfolding rm(2) gn3' by (auto simp: image_iff)
  have "deref_node g' (parts ! i) = Some (part_nodes ! i)" if "i < length parts" for i
  proof (rule node_wf_deref[OF rm(1)])
    have "zip parts part_nodes ! i \<in> set (zip parts part_nodes)"
      using that cp(3) by (intro nth_mem) simp
    then show "(parts ! i, part_nodes ! i) \<in> set (graph_node g')"
      using that cp(3) by (simp add: setg)
  qed
  then have der: "map (deref_node g') parts = map Some part_nodes"
    using cp(3) by (simp add: list_eq_iff_nth_eq)
  have "node \<notin> fst ` set (graph_node g')"
  proof
    assume "node \<in> fst ` set (graph_node g')"
    then obtain m where m: "(node, m) \<in> set (graph_node g')" by auto
    then have m3: "(node, m) \<in> set (graph_node g3')" "m \<noteq> n" using rm(2) by auto
    have "(node, n) \<in> set (graph_node g3')" using mem by (simp add: gn3')
    from node_wf_deref[OF nwf3' this] node_wf_deref[OF nwf3' m3(1)] m3(2) show False by simp
  qed
  then have gone: "deref_node g' node = None" by (simp add: deref_node_def map_of_eq_None_iff)
  have nh: "\<not> has_node g' (node_id n)" by (simp add: has_node_def g'(3))
  show ?thesis
    using res cp(3,4) setg der gone nh g'(5) rm(1) by blast
qed

section \<open>The offsets of a division\<close>


text \<open>
  C5, as the code has it. In a graph whose indices are consistent and whose id counter
  is positive (the counter, the ids and the number of offsets being 64-bit values),
  \<^verbatim>\<open>divide_node\<close> fails
  exactly when some offset is below 0 or above the length of the sequence, and the fatal
  error names the id of the node and the first such offset; the offsets 0 and the length
  itself are accepted, and so is a list that is not increasing. When the offsets lie
  strictly inside the sequence and increase strictly, the node is replaced by one new
  node more than there are offsets; the new nodes carry, in order, the pieces of the
  sequence between the offsets, which together are the sequence, and no piece of a
  sequence that is not empty is empty.
\<close>

theorem divide_node_offsets:
  assumes "edge_wf g" and "node_wf g" and "counter_ok g" and "ids_indexed g"
    and "paths_wf (paths g)" and "(node, n) \<in> set (graph_node g)"
    and "int (length positions) < 2 ^ 63"
  shows "(\<forall>pos. find (\<lambda>pos. pos < 0 \<or> int (length (sequence n)) < pos) positions = Some pos
            \<longrightarrow> divide_node g node positions = Inl (CannotDivide (node_id n) pos))
     \<and> (isl (divide_node g node positions)
            \<longleftrightarrow> (\<exists>pos \<in> set positions. pos < 0 \<or> int (length (sequence n)) < pos))
     \<and> (sorted_wrt (<) positions
          \<and> (\<forall>pos \<in> set positions. 0 < pos \<and> pos < int (length (sequence n)))
        \<longrightarrow> (\<exists>g' parts part_nodes. divide_node g node positions = Inr (g', parts)
              \<and> length parts = length positions + 1
              \<and> map (deref_node g') parts = map Some part_nodes
              \<and> map sequence part_nodes = pieces (sequence n) 0 positions
              \<and> concat (pieces (sequence n) 0 positions) = sequence n
              \<and> (sequence n \<noteq> [] \<longrightarrow> [] \<notin> set (pieces (sequence n) 0 positions))
              \<and> set (graph_node g') = set (graph_node g) - {(node, n)} \<union> set (zip parts part_nodes)
              \<and> deref_node g' node = None \<and> \<not> has_node g' (node_id n)))"
proof (intro conjI allI impI)
  let ?bad = "\<lambda>pos. pos < 0 \<or> int (length (sequence n)) < pos"
  have na: "node_at g node = Inr n" by (rule node_at_member[OF assms(2,6)])
  show "divide_node g node positions = Inl (CannotDivide (node_id n) pos)"
    if "find ?bad positions = Some pos" for pos
    using that na by (simp add: divide_node_def)
  show "isl (divide_node g node positions) \<longleftrightarrow> (\<exists>pos \<in> set positions. ?bad pos)"
  proof (cases "find ?bad positions")
    case None
    then have ok: "\<forall>pos \<in> set positions. 0 \<le> pos \<and> pos \<le> int (length (sequence n))"
      by (auto simp: find_None_iff)
    from divide_node_result[OF assms ok] obtain g' parts where
      "divide_node g node positions = Inr (g', parts)" by blast
    with ok show ?thesis by auto
  next
    case (Some pos)
    then have "divide_node g node positions = Inl (CannotDivide (node_id n) pos)"
      using na by (simp add: divide_node_def)
    moreover from Some have "pos \<in> set positions" "?bad pos"
      by (auto simp: find_Some_iff)
    ultimately show ?thesis by auto
  qed
next
  assume pre: "sorted_wrt (<) positions
      \<and> (\<forall>pos \<in> set positions. 0 < pos \<and> pos < int (length (sequence n)))"
  then have ok: "\<forall>pos \<in> set positions. 0 \<le> pos \<and> pos \<le> int (length (sequence n))"
    by auto
  from pre have srt: "sorted_wrt (<) (0 # positions)" by simp
  from divide_node_result[OF assms ok] obtain g' parts and part_nodes :: "Node list" where r:
    "divide_node g node positions = Inr (g', parts)"
    "length parts = length part_nodes"
    "map sequence part_nodes = part_sequences (sequence n) 0 positions"
    "set (graph_node g') = set (graph_node g) - {(node, n)} \<union> set (zip parts part_nodes)"
    "map (deref_node g') parts = map Some part_nodes"
    "deref_node g' node = None" "\<not> has_node g' (node_id n)"
    by blast
  have seqs: "map sequence part_nodes = pieces (sequence n) 0 positions"
    using r(3) part_sequences_sorted[OF srt] by simp
  have "length part_nodes = length (pieces (sequence n) 0 positions)"
    using seqs by (metis length_map)
  then have len: "length parts = length positions + 1"
    using r(2) by (simp add: pieces_length)
  have cat: "concat (pieces (sequence n) 0 positions) = sequence n"
    using pieces_concat[OF srt, of "sequence n"] by simp
  have ne: "[] \<notin> set (pieces (sequence n) 0 positions)" if "sequence n \<noteq> []"
    using pieces_nonempty[OF srt, of "sequence n"] pre that by simp
  show "\<exists>g' parts part_nodes. divide_node g node positions = Inr (g', parts)
              \<and> length parts = length positions + 1
              \<and> map (deref_node g') parts = map Some part_nodes
              \<and> map sequence part_nodes = pieces (sequence n) 0 positions
              \<and> concat (pieces (sequence n) 0 positions) = sequence n
              \<and> (sequence n \<noteq> [] \<longrightarrow> [] \<notin> set (pieces (sequence n) 0 positions))
              \<and> set (graph_node g') = set (graph_node g) - {(node, n)} \<union> set (zip parts part_nodes)
              \<and> deref_node g' node = None \<and> \<not> has_node g' (node_id n)"
    using r(1,4,5,6,7) len seqs cat ne by blast
qed

theorem divide_node_offsets_witness:
  "divide_node path_graph 0 [5] = Inl (CannotDivide 1 5)
   \<and> (\<exists>g' parts. divide_node path_graph 0 [2] = Inr (g', parts)
        \<and> map (\<lambda>p. map_option sequence (deref_node g' p)) parts = [Some ''AC'', Some ''GT'']
        \<and> deref_node g' 0 = None \<and> \<not> has_node g' 1)"
proof -
  let ?n = "\<lparr>node_id = 1, sequence = ''ACGT''\<rparr>"
  have c: "counter_ok path_graph"
    by (simp add: counter_ok_def path_graph_fields max_node_id_def)
  have i: "ids_indexed path_graph" by (simp add: ids_indexed_def path_graph_fields)
  have p: "paths_wf (paths path_graph)" by (simp add: paths_wf_def tags_def path_graph_fields)
  have m: "(0, ?n) \<in> set (graph_node path_graph)" by (simp add: path_graph_fields)
  have l: "int (length [k]) < 2 ^ 63" for k :: int by simp
  have bad: "divide_node path_graph 0 [5] = Inl (CannotDivide 1 5)"
    using divide_node_offsets[OF path_graph_wf c i p m l, of 5] by simp
  have pre: "sorted_wrt (<) [2::int]
      \<and> (\<forall>pos \<in> set [2]. 0 < pos \<and> pos < int (length (sequence ?n)))" by simp
  from divide_node_offsets[OF path_graph_wf c i p m l, of 2,
      THEN conjunct2, THEN conjunct2, THEN mp, OF pre]
  obtain g' parts and part_nodes :: "Node list" where r0:
    "divide_node path_graph 0 [2] = Inr (g', parts)"
    "map (deref_node g') parts = map Some part_nodes"
    "map sequence part_nodes = pieces (sequence ?n) 0 [2]"
    "deref_node g' 0 = None" "\<not> has_node g' (node_id ?n)"
    by blast
  then have r: "divide_node path_graph 0 [2] = Inr (g', parts)"
    "map (deref_node g') parts = map Some part_nodes"
    "map sequence part_nodes = pieces ''ACGT'' 0 [2]"
    "deref_node g' 0 = None" "\<not> has_node g' 1"
    by simp_all
  have "map (\<lambda>p. map_option sequence (deref_node g' p)) parts
      = map (map_option sequence) (map (deref_node g') parts)" by simp
  also have "\<dots> = map Some (map sequence part_nodes)" unfolding r(2) by simp
  also have "\<dots> = [Some ''AC'', Some ''GT'']" unfolding r(3) by simp
  finally have s: "map (\<lambda>p. map_option sequence (deref_node g' p)) parts = [Some ''AC'', Some ''GT'']" .
  have "\<exists>g' parts. divide_node path_graph 0 [2] = Inr (g', parts)
        \<and> map (\<lambda>p. map_option sequence (deref_node g' p)) parts = [Some ''AC'', Some ''GT'']
        \<and> deref_node g' 0 = None \<and> \<not> has_node g' 1"
    apply (rule exI[of _ g'], rule exI[of _ parts])
    using s r(1,4,5) by simp
  with bad show ?thesis by (rule conjI)
qed

text \<open>
  The claim as stated fails for the two ends of the interval and for a list that is not
  increasing: offset 0 gives an empty first piece, offset 4 of the four bases an empty
  last piece, and the offsets 3, 1 give three pieces that overlap.
\<close>

theorem divide_node_accepts_interval_ends:
  "divided two_nodes 0 [0] = Inr [Some [], Some ''ACGT'']
   \<and> divided two_nodes 0 [4] = Inr [Some ''ACGT'', Some []]
   \<and> divided two_nodes 0 [3, 1] = Inr [Some ''ACG'', Some ''T'', Some ''CGT'']"
  by code_simp

section \<open>Perfect path neighbours: what the test decides\<close>



lemma map_set_props:
  assumes "sorted_wrt (<) (map fst xs)"
  shows "sorted_wrt (<) (map fst (map_set k v xs))
       \<and> set (map_set k v xs) = insert (k, v) {x \<in> set xs. fst x \<noteq> k}"
  using assms
proof (induction xs)
  case Nil
  then show ?case by simp
next
  case (Cons x xs)
  then have IH: "sorted_wrt (<) (map fst (map_set k v xs))"
      "set (map_set k v xs) = insert (k, v) {x \<in> set xs. fst x \<noteq> k}"
    and gt: "\<forall>y \<in> set xs. fst x < fst y" and s: "sorted_wrt (<) (map fst xs)"
    by auto
  show ?case
  proof (cases "k = fst x")
    case True
    then show ?thesis using gt s by (cases x) auto
  next
    case False
    show ?thesis
    proof (cases "k < fst x")
      case True
      then show ?thesis using gt s False by (cases x) (auto intro: less_trans)
    next
      case ge: False
      with False have "fst x < k" by simp
      then show ?thesis using gt s False ge IH by (cases x) auto
    qed
  qed
qed

lemma by_rank_snoc: "by_rank (ms @ [pm]) = map_set (m_rank (snd pm)) (snd pm) (by_rank ms)"
  by (simp add: by_rank_def)

lemma by_rank_props:
  "sorted_wrt (<) (map fst (by_rank ms))
   \<and> (distinct (map (m_rank \<circ> snd) ms) \<longrightarrow>
        set (by_rank ms) = (\<lambda>pm. (m_rank (snd pm), snd pm)) ` set ms)"
proof (induction ms rule: rev_induct)
  case Nil
  then show ?case by (simp add: by_rank_def)
next
  case (snoc pm ms)
  then have s: "sorted_wrt (<) (map fst (by_rank ms))" by simp
  note p = map_set_props[OF s, of "m_rank (snd pm)" "snd pm"]
  show ?case
  proof (intro conjI impI)
    show "sorted_wrt (<) (map fst (by_rank (ms @ [pm])))" using p by (simp add: by_rank_snoc)
  next
    assume d: "distinct (map (m_rank \<circ> snd) (ms @ [pm]))"
    then have d': "distinct (map (m_rank \<circ> snd) ms)" and nin: "m_rank (snd pm) \<notin> (m_rank \<circ> snd) ` set ms"
      by auto
    from snoc d' have e: "set (by_rank ms) = (\<lambda>pm. (m_rank (snd pm), snd pm)) ` set ms" by (simp add: comp_def)
    have "fst x \<noteq> m_rank (snd pm)" if "x \<in> set (by_rank ms)" for x
    proof -
      from that e obtain q where q: "q \<in> set ms" "x = (m_rank (snd q), snd q)" by blast
      have "(m_rank \<circ> snd) q \<in> (m_rank \<circ> snd) ` set ms" using q(1) by (rule imageI)
      with nin have "(m_rank \<circ> snd) q \<noteq> m_rank (snd pm)" by metis
      then show ?thesis using q(2) by simp
    qed
    then have "{x \<in> set (by_rank ms). fst x \<noteq> m_rank (snd pm)} = set (by_rank ms)"
      by blast
    then show "set (by_rank (ms @ [pm])) = (\<lambda>pm. (m_rank (snd pm), snd pm)) ` set (ms @ [pm])"
      using p e by (simp add: by_rank_snoc)
  qed
qed


lemma verify_ranked_Cons:
  "verify_ranked lb rb (e # rest) R2 =
     (case map_of R2 (want lb e) of
        None \<Rightarrow> None
      | Some f \<Rightarrow>
          if (m_is_reverse (snd e) = lb) \<noteq> (m_is_reverse f = rb) then None
          else verify_ranked lb rb rest (map_erase (want lb e) R2))"
  unfolding want_def by (simp add: Let_def split: option.splits)

lemma map_of_map_erase: "map_of (map_erase k xs) k' = (if k' = k then None else map_of xs k')"
  unfolding map_erase_def by (induction xs) auto

lemma map_erase_filter: "filter P (map_erase k xs) = filter (\<lambda>x. fst x \<noteq> k \<and> P x) xs"
  unfolding map_erase_def by (induction xs) auto

lemma verify_ranked_iff:
  "verify_ranked lb rb R1 R2 = Some res \<longleftrightarrow>
     (\<forall>e \<in> set R1. \<exists>f. map_of R2 (want lb e) = Some f
          \<and> ((m_is_reverse (snd e) = lb) = (m_is_reverse f = rb)))
     \<and> distinct (map (want lb) R1)
     \<and> res = filter (\<lambda>x. fst x \<notin> want lb ` set R1) R2"
proof (induction R1 arbitrary: R2)
  case Nil
  then show ?case by auto
next
  case (Cons e rest)
  let ?w = "want lb e"
  show ?case
  proof (cases "map_of R2 ?w")
    case None
    then show ?thesis by (simp only: verify_ranked_Cons) auto
  next
    case (Some f)
    show ?thesis
    proof (cases "(m_is_reverse (snd e) = lb) = (m_is_reverse f = rb)")
      case False
      with Some show ?thesis by (simp only: verify_ranked_Cons) auto
    next
      case True
      have "verify_ranked lb rb (e # rest) R2 = verify_ranked lb rb rest (map_erase ?w R2)"
        using Some True by (simp only: verify_ranked_Cons) simp
      also have "\<dots> = Some res \<longleftrightarrow>
          (\<forall>e' \<in> set rest. \<exists>f. map_of (map_erase ?w R2) (want lb e') = Some f
              \<and> ((m_is_reverse (snd e') = lb) = (m_is_reverse f = rb)))
          \<and> distinct (map (want lb) rest)
          \<and> res = filter (\<lambda>x. fst x \<notin> want lb ` set rest) (map_erase ?w R2)"
        by (rule Cons.IH)
      also have "\<dots> \<longleftrightarrow>
          (\<forall>e' \<in> set (e # rest). \<exists>f. map_of R2 (want lb e') = Some f
              \<and> ((m_is_reverse (snd e') = lb) = (m_is_reverse f = rb)))
          \<and> distinct (map (want lb) (e # rest))
          \<and> res = filter (\<lambda>x. fst x \<notin> want lb ` set (e # rest)) R2"
      proof -
        have f: "filter (\<lambda>x. fst x \<notin> want lb ` set rest) (map_erase ?w R2)
            = filter (\<lambda>x. fst x \<notin> want lb ` set (e # rest)) R2"
          unfolding map_erase_filter by (rule filter_cong) auto
        have m: "(\<forall>e' \<in> set rest. \<exists>f. map_of (map_erase ?w R2) (want lb e') = Some f
              \<and> ((m_is_reverse (snd e') = lb) = (m_is_reverse f = rb)))
            \<longleftrightarrow> (\<forall>e' \<in> set rest. want lb e' \<noteq> ?w \<and> (\<exists>f. map_of R2 (want lb e') = Some f
              \<and> ((m_is_reverse (snd e') = lb) = (m_is_reverse f = rb))))"
          by (auto simp: map_of_map_erase)
        show ?thesis unfolding f m using Some True by (auto simp: image_iff)
      qed
      finally show ?thesis .
    qed
  qed
qed


lemma at_name_notin: "name \<notin> fst ` set r \<Longrightarrow> at_name name r = []"
  by (induction r) auto

lemma set_name_notin: "name \<notin> fst ` set r \<Longrightarrow> set_name name v r = r @ [(name, v)]"
  by (induction r) auto

lemma at_name_set_name: "at_name n (set_name name v r) = (if n = name then v else at_name n r)"
  by (induction r) auto

lemma set_name_names: "fst ` set (set_name name v r) = insert name (fst ` set r)"
  by (induction r) auto

lemma set_name_distinct: "distinct (map fst r) \<Longrightarrow> distinct (map fst (set_name name v r))"
proof (induction r)
  case Nil
  then show ?case by simp
next
  case (Cons x r)
  then show ?case using set_name_names[of name v r] by auto
qed

lemma set_name_set:
  "distinct (map fst r) \<Longrightarrow> set (set_name name v r) = insert (name, v) {q \<in> set r. fst q \<noteq> name}"
proof (induction r)
  case Nil
  then show ?case by simp
next
  case (Cons x r)
  then show ?case by (cases x) (auto simp: rev_image_eqI)
qed

lemma at_name_map:
  assumes "distinct (map fst xs)" "p \<in> set xs"
  shows "at_name (fst p) (map (\<lambda>p. (fst p, F (fst p))) xs) = F (fst p)"
  using assms by (induction xs) auto

lemma verify_adjacency_iff:
  assumes "distinct (map fst r1)" "distinct (map fst r2)"
  shows "(case verify_adjacency lb rb r1 r2 of None \<Rightarrow> False
          | Some r2' \<Rightarrow> list_all (\<lambda>p. snd p = []) r2')
     \<longleftrightarrow> (\<forall>p \<in> set r1. verify_ranked lb rb (snd p) (at_name (fst p) r2) = Some [])
         \<and> (\<forall>q \<in> set r2. fst q \<notin> fst ` set r1 \<longrightarrow> snd q = [])"
  using assms
proof (induction r1 arbitrary: r2)
  case Nil
  then show ?case by (auto simp: list_all_iff)
next
  case (Cons p rest)
  from Cons.prems have d: "distinct (map fst rest)" and nin: "fst p \<notin> fst ` set rest" by auto
  show ?case
  proof (cases "verify_ranked lb rb (snd p) (at_name (fst p) r2)")
    case None
    then show ?thesis by simp
  next
    case (Some res)
    let ?r2 = "set_name (fst p) res r2"
    have d2: "distinct (map fst ?r2)" by (rule set_name_distinct[OF Cons.prems(2)])
    have at: "at_name (fst q) ?r2 = at_name (fst q) r2" if "q \<in> set rest" for q
    proof -
      from that have "fst q \<in> fst ` set rest" by (rule imageI)
      with nin have "fst q \<noteq> fst p" by metis
      then show ?thesis by (simp add: at_name_set_name)
    qed
    have s: "set ?r2 = insert (fst p, res) {q \<in> set r2. fst q \<noteq> fst p}"
      by (rule set_name_set[OF Cons.prems(2)])
    have "(case verify_adjacency lb rb (p # rest) r2 of None \<Rightarrow> False
          | Some r2' \<Rightarrow> list_all (\<lambda>p. snd p = []) r2')
        \<longleftrightarrow> (\<forall>q \<in> set rest. verify_ranked lb rb (snd q) (at_name (fst q) ?r2) = Some [])
         \<and> (\<forall>q \<in> set ?r2. fst q \<notin> fst ` set rest \<longrightarrow> snd q = [])"
      using Cons.IH[OF d d2] Some by simp
    also have "\<dots> \<longleftrightarrow> (\<forall>q \<in> set rest. verify_ranked lb rb (snd q) (at_name (fst q) r2) = Some [])
         \<and> res = [] \<and> (\<forall>q \<in> set r2. fst q \<noteq> fst p \<and> fst q \<notin> fst ` set rest \<longrightarrow> snd q = [])"
    proof -
      have "(\<forall>q \<in> set ?r2. fst q \<notin> fst ` set rest \<longrightarrow> snd q = [])
          \<longleftrightarrow> res = [] \<and> (\<forall>q \<in> set r2. fst q \<noteq> fst p \<and> fst q \<notin> fst ` set rest \<longrightarrow> snd q = [])"
        unfolding s using nin by fastforce
      then show ?thesis by (simp add: at)
    qed
    also have "\<dots> \<longleftrightarrow> (\<forall>q \<in> set (p # rest). verify_ranked lb rb (snd q) (at_name (fst q) r2) = Some [])
         \<and> (\<forall>q \<in> set r2. fst q \<notin> fst ` set (p # rest) \<longrightarrow> snd q = [])"
      using Some by auto
    finally show ?thesis .
  qed
qed

lemma add_ranked_new:
  assumes "name \<notin> fst ` set r"
  shows "add_ranked name ms r = (if ms = [] then r else r @ [(name, by_rank ms)])"
  using assms by (simp add: add_ranked_def at_name_notin set_name_notin by_rank_def)

lemma ranked_fold:
  assumes "distinct (map fst m1)" "\<forall>p \<in> set m1. snd p \<noteq> []"
    and "fst ` set m1 \<inter> fst ` set a = {}" "fst ` set m1 \<inter> fst ` set b = {}"
  shows "fold (\<lambda>p r. (add_ranked (fst p) (snd p) (fst r), add_ranked (fst p) (F (fst p)) (snd r))) m1 (a, b)
       = (a @ map (\<lambda>p. (fst p, by_rank (snd p))) m1,
          b @ map (\<lambda>p. (fst p, by_rank (F (fst p)))) (filter (\<lambda>p. F (fst p) \<noteq> []) m1))"
  using assms
proof (induction m1 arbitrary: a b)
  case Nil
  then show ?case by simp
next
  case (Cons p rest)
  from Cons.prems have na: "fst p \<notin> fst ` set a" and nb: "fst p \<notin> fst ` set b"
    and ne: "snd p \<noteq> []" and d: "distinct (map fst rest)" and nr: "fst p \<notin> fst ` set rest"
    and r: "\<forall>p \<in> set rest. snd p \<noteq> []"
    by auto
  let ?a = "a @ [(fst p, by_rank (snd p))]"
  let ?b = "if F (fst p) = [] then b else b @ [(fst p, by_rank (F (fst p)))]"
  have da: "fst ` set rest \<inter> fst ` set ?a = {}" using Cons.prems(3) nr by auto
  have db: "fst ` set rest \<inter> fst ` set ?b = {}" using Cons.prems(4) nr by auto
  have "fold (\<lambda>p r. (add_ranked (fst p) (snd p) (fst r), add_ranked (fst p) (F (fst p)) (snd r)))
          (p # rest) (a, b)
      = fold (\<lambda>p r. (add_ranked (fst p) (snd p) (fst r), add_ranked (fst p) (F (fst p)) (snd r)))
          rest (?a, ?b)"
    using na nb ne by (simp add: add_ranked_new)
  also note Cons.IH[OF d r da db]
  finally show ?case by simp
qed


lemma sorted_lt_distinct: "sorted_wrt (<) (ys :: int list) \<Longrightarrow> distinct ys"
  by (induction ys) auto

lemma by_rank_map_of:
  assumes "distinct (map (m_rank \<circ> snd) ms)"
  shows "map_of (by_rank ms) k = Some f \<longleftrightarrow> f \<in> snd ` set ms \<and> m_rank f = k"
proof -
  have d: "distinct (map fst (by_rank ms))"
    using by_rank_props[of ms] by (simp add: sorted_lt_distinct)
  have s: "set (by_rank ms) = (\<lambda>pm. (m_rank (snd pm), snd pm)) ` set ms"
    using by_rank_props[of ms] assms by simp
  have "map_of (by_rank ms) k = Some f \<longleftrightarrow> (k, f) \<in> set (by_rank ms)"
    using d by (auto simp: map_of_eq_Some_iff)
  also have "\<dots> \<longleftrightarrow> f \<in> snd ` set ms \<and> m_rank f = k"
    unfolding s by force
  finally show ?thesis .
qed

lemma want_by_rank:
  assumes "distinct (map (m_rank \<circ> snd) ms)" "e \<in> set (by_rank ms)"
  shows "snd e \<in> snd ` set ms" "fst e = m_rank (snd e)" "want lb e = wanted_rank lb (snd e)"
proof -
  have s: "set (by_rank ms) = (\<lambda>pm. (m_rank (snd pm), snd pm)) ` set ms"
    using by_rank_props[of ms] assms(1) by simp
  from assms(2) obtain pm where pm: "pm \<in> set ms" "e = (m_rank (snd pm), snd pm)"
    unfolding s by blast
  show "snd e \<in> snd ` set ms" using pm by simp
  show "fst e = m_rank (snd e)" using pm by simp
  then show "want lb e = wanted_rank lb (snd e)" by (simp add: want_def wanted_rank_def)
qed

lemma by_rank_entry:
  assumes "distinct (map (m_rank \<circ> snd) ms)" "m \<in> snd ` set ms"
  shows "(m_rank m, m) \<in> set (by_rank ms)"
proof -
  have s: "set (by_rank ms) = (\<lambda>pm. (m_rank (snd pm), snd pm)) ` set ms"
    using by_rank_props[of ms] assms(1) by simp
  from assms(2) obtain pm where "pm \<in> set ms" "m = snd pm" by blast
  then show ?thesis unfolding s by blast
qed

lemma verify_ranked_consecutive:
  assumes d1: "distinct (map (m_rank \<circ> snd) ms1)" and d2: "distinct (map (m_rank \<circ> snd) ms2)"
  shows "verify_ranked lb rb (by_rank ms1) (by_rank ms2) = Some []
     \<longleftrightarrow> consecutive lb rb (map snd ms1) (map snd ms2)"
proof -
  let ?R1 = "by_rank ms1" and ?R2 = "by_rank ms2"
  note w = want_by_rank[OF d1]
  note en = by_rank_entry[OF d1]
  have dR1: "distinct ?R1"
    using by_rank_props[of ms1] sorted_lt_distinct[of "map fst ?R1"] by (simp add: distinct_map)
  have A: "(\<forall>e \<in> set ?R1. \<exists>f. map_of ?R2 (want lb e) = Some f
               \<and> ((m_is_reverse (snd e) = lb) = (m_is_reverse f = rb)))
       \<longleftrightarrow> (\<forall>m \<in> snd ` set ms1. \<exists>f \<in> snd ` set ms2. m_rank f = wanted_rank lb m
               \<and> ((m_is_reverse m = lb) = (m_is_reverse f = rb)))"
    (is "?A1 \<longleftrightarrow> ?A2")
  proof
    assume a: ?A1
    show ?A2
    proof
      fix m assume m: "m \<in> snd ` set ms1"
      from a en[OF m] obtain f where "map_of ?R2 (want lb (m_rank m, m)) = Some f"
        "(m_is_reverse m = lb) = (m_is_reverse f = rb)" by fastforce
      then show "\<exists>f \<in> snd ` set ms2. m_rank f = wanted_rank lb m
               \<and> ((m_is_reverse m = lb) = (m_is_reverse f = rb))"
        using w(3)[OF en[OF m], of lb] by (auto simp: by_rank_map_of[OF d2])
    qed
  next
    assume a: ?A2
    show ?A1
    proof
      fix e assume e: "e \<in> set ?R1"
      from a w(1)[OF e] obtain f where "f \<in> snd ` set ms2" "m_rank f = wanted_rank lb (snd e)"
        "(m_is_reverse (snd e) = lb) = (m_is_reverse f = rb)" by blast
      then show "\<exists>f. map_of ?R2 (want lb e) = Some f
               \<and> ((m_is_reverse (snd e) = lb) = (m_is_reverse f = rb))"
        using w(3)[OF e, of lb] by (auto simp: by_rank_map_of[OF d2])
    qed
  qed
  have B: "distinct (map (want lb) ?R1)
       \<longleftrightarrow> (\<forall>m \<in> snd ` set ms1. \<forall>m' \<in> snd ` set ms1.
              wanted_rank lb m = wanted_rank lb m' \<longrightarrow> m = m')"
    (is "_ \<longleftrightarrow> ?B2")
  proof -
    have "distinct (map (want lb) ?R1) \<longleftrightarrow> inj_on (want lb) (set ?R1)"
      using dR1 by (simp add: distinct_map)
    also have "\<dots> \<longleftrightarrow> ?B2"
    proof
      assume i: "inj_on (want lb) (set ?R1)"
      show ?B2
      proof (intro ballI impI)
        fix m m' assume m: "m \<in> snd ` set ms1" "m' \<in> snd ` set ms1"
          and eq: "wanted_rank lb m = wanted_rank lb m'"
        have "want lb (m_rank m, m) = want lb (m_rank m', m')"
          using eq w(3)[OF en[OF m(1)], of lb] w(3)[OF en[OF m(2)], of lb] by simp
        with i en[OF m(1)] en[OF m(2)] have "(m_rank m, m) = (m_rank m', m')"
          unfolding inj_on_def by blast
        then show "m = m'" by simp
      qed
    next
      assume b: ?B2
      show "inj_on (want lb) (set ?R1)"
      proof (rule inj_onI)
        fix e e' assume e: "e \<in> set ?R1" "e' \<in> set ?R1" and eq: "want lb e = want lb e'"
        have "wanted_rank lb (snd e) = wanted_rank lb (snd e')"
          using eq w(3)[OF e(1), of lb] w(3)[OF e(2), of lb] by simp
        with b w(1)[OF e(1)] w(1)[OF e(2)] have "snd e = snd e'" by blast
        then show "e = e'" using w(2)[OF e(1)] w(2)[OF e(2)] by (simp add: prod_eq_iff)
      qed
    qed
    finally show ?thesis .
  qed
  have C: "[] = filter (\<lambda>x. fst x \<notin> want lb ` set ?R1) ?R2
       \<longleftrightarrow> (\<forall>f \<in> snd ` set ms2. \<exists>m \<in> snd ` set ms1. m_rank f = wanted_rank lb m)"
    (is "?C1 \<longleftrightarrow> ?C2")
  proof -
    have "?C1 \<longleftrightarrow> filter (\<lambda>x. fst x \<notin> want lb ` set ?R1) ?R2 = []" by (rule eq_commute)
    also have "\<dots> \<longleftrightarrow> (\<forall>x \<in> set ?R2. fst x \<in> want lb ` set ?R1)"
      unfolding filter_empty_conv by simp
    also have "\<dots> \<longleftrightarrow> ?C2"
    proof
      assume a: "\<forall>x \<in> set ?R2. fst x \<in> want lb ` set ?R1"
      show ?C2
      proof
        fix f assume "f \<in> snd ` set ms2"
        then have "(m_rank f, f) \<in> set ?R2" by (rule by_rank_entry[OF d2])
        with a have "m_rank f \<in> want lb ` set ?R1" by fastforce
        then obtain e where e: "e \<in> set ?R1" "m_rank f = want lb e" by blast
        then show "\<exists>m \<in> snd ` set ms1. m_rank f = wanted_rank lb m"
          using w(1)[OF e(1)] w(3)[OF e(1), of lb] by metis
      qed
    next
      assume c: ?C2
      show "\<forall>x \<in> set ?R2. fst x \<in> want lb ` set ?R1"
      proof
        fix x assume x: "x \<in> set ?R2"
        note wx = want_by_rank[OF d2 x]
        from c wx(1) obtain m where m: "m \<in> snd ` set ms1" "m_rank (snd x) = wanted_rank lb m"
          by blast
        have "want lb (m_rank m, m) = fst x"
          using w(3)[OF en[OF m(1)], of lb] m(2) wx(2) by simp
        then show "fst x \<in> want lb ` set ?R1" using en[OF m(1)] by (metis imageI)
      qed
    qed
    finally show ?thesis .
  qed
  show ?thesis
    unfolding verify_ranked_iff consecutive_def A B C by simp
qed


lemma filtered_map_of:
  assumes "distinct (map fst pl)"
  shows "map_of (filter (\<lambda>(n, ms). ms \<noteq> []) (map (\<lambda>(n, ms). (n, G ms)) pl)) name
       = (case map_of pl name of None \<Rightarrow> None
          | Some ms \<Rightarrow> if G ms = [] then None else Some (G ms))"
  using assms
proof (induction pl)
  case Nil
  then show ?case by simp
next
  case (Cons x pl)
  obtain n ms where x: "x = (n, ms)" by (cases x)
  from Cons.prems have nin: "n \<notin> fst ` set pl" and d: "distinct (map fst pl)" by (auto simp: x)
  have "map_of pl n = None" using nin by (simp add: map_of_eq_None_iff)
  then show ?case using Cons.IH[OF d] by (auto simp: x)
qed

lemma filtered_names:
  "fst ` set (filter P (map (\<lambda>(n, ms). (n, G ms)) pl)) \<subseteq> fst ` set pl"
  by (induction pl) auto

lemma filtered_distinct:
  assumes "distinct (map fst pl)"
  shows "distinct (map fst (filter P (map (\<lambda>(n, ms). (n, G ms)) pl)))"
  using assms
proof (induction pl)
  case Nil
  then show ?case by simp
next
  case (Cons x pl)
  obtain n ms where x: "x = (n, ms)" by (cases x)
  from Cons.prems have nin: "n \<notin> fst ` set pl" and d: "distinct (map fst pl)" by (auto simp: x)
  have "n \<notin> fst ` set (filter P (map (\<lambda>(n, ms). (n, G ms)) pl))"
    using nin filtered_names[of P G pl] by blast
  then show ?case using Cons.IH[OF d] by (simp add: x)
qed

lemma node_mappings_distinct:
  assumes "distinct (map fst (path_list ps))"
  shows "distinct (map fst (get_node_mapping_by_path_name ps i))"
  unfolding get_node_mapping_by_path_name_def by (rule filtered_distinct[OF assms])

lemma node_mappings_entry:
  assumes d: "distinct (map fst (path_list ps))" and p: "p \<in> set (get_node_mapping_by_path_name ps i)"
  shows "snd p \<noteq> []" "map snd (snd p) = mappings_on ps i (fst p)"
proof -
  let ?G = "filter (\<lambda>(q, m). m_node_id m = i)"
  have "map_of (get_node_mapping_by_path_name ps i) (fst p) = Some (snd p)"
    using node_mappings_distinct[OF d, of i] p by simp
  then have e: "(case map_of (path_list ps) (fst p) of None \<Rightarrow> None
          | Some ms \<Rightarrow> if ?G ms = [] then None else Some (?G ms)) = Some (snd p)"
    unfolding get_node_mapping_by_path_name_def filtered_map_of[OF d] .
  then obtain ms where ms: "map_of (path_list ps) (fst p) = Some ms" "?G ms \<noteq> []" "snd p = ?G ms"
    by (auto split: option.splits if_splits)
  show "snd p \<noteq> []" using ms by simp
  show "map snd (snd p) = mappings_on ps i (fst p)" using ms by (simp add: mappings_on_def)
qed

lemma node_mappings_lookup:
  assumes d: "distinct (map fst (path_list ps))"
  shows "map snd (case map_of (get_node_mapping_by_path_name ps i) name of None \<Rightarrow> [] | Some x \<Rightarrow> x)
       = mappings_on ps i name"
  unfolding get_node_mapping_by_path_name_def filtered_map_of[OF d] mappings_on_def
  by (auto split: option.splits)


lemma neighbors_result:
  assumes ln: "node_at g (fst left) = Inr ln" and rn: "node_at g (fst right) = Inr rn"
    and d: "distinct (map fst (path_list (paths g)))"
    and r1: "ranks_distinct (paths g) (node_id ln)" and r2: "ranks_distinct (paths g) (node_id rn)"
  shows "nodes_are_perfect_path_neighbors g left right =
     Inr (same_path_names (paths g) (node_id ln) (node_id rn)
          \<and> consecutive_on_paths (paths g) (snd left) (snd right) (node_id ln) (node_id rn))"
proof (cases "of_node (paths g) (node_id ln) = of_node (paths g) (node_id rn)")
  case False
  then show ?thesis
    by (simp add: nodes_are_perfect_path_neighbors_def ln rn same_path_names_def)
next
  case same: True
  let ?ps = "paths g" and ?i1 = "node_id ln" and ?i2 = "node_id rn"
  let ?lb = "snd left" and ?rb = "snd right"
  define m1 where "m1 = get_node_mapping_by_path_name ?ps ?i1"
  define m2 where "m2 = get_node_mapping_by_path_name ?ps ?i2"
  define M2 where "M2 = (\<lambda>name. case map_of m2 name of None \<Rightarrow> [] | Some mp2 \<Rightarrow> mp2)"
  define R1 where "R1 = map (\<lambda>p. (fst p, by_rank (snd p))) m1"
  define R2 where "R2 = map (\<lambda>p. (fst p, by_rank (M2 (fst p)))) (filter (\<lambda>p. M2 (fst p) \<noteq> []) m1)"
  have dm1: "distinct (map fst m1)" unfolding m1_def by (rule node_mappings_distinct[OF d])
  have ne: "\<forall>p \<in> set m1. snd p \<noteq> []" unfolding m1_def using node_mappings_entry(1)[OF d] by blast
  have names: "of_node ?ps ?i1 = fst ` set m1" by (simp add: of_node_def m1_def)
  have fold: "fold (\<lambda>p r. (add_ranked (fst p) (snd p) (fst r),
                       add_ranked (fst p) (case map_of m2 (fst p) of None \<Rightarrow> [] | Some mp2 \<Rightarrow> mp2) (snd r)))
                m1 ([], []) = (R1, R2)"
    using ranked_fold[OF dm1 ne, of "[]" "[]" M2] by (simp add: R1_def R2_def M2_def)
  have dR1: "distinct (map fst R1)" using dm1 by (simp add: R1_def comp_def)
  have dR2: "distinct (map fst R2)"
    using dm1 by (simp add: R2_def comp_def distinct_map_filter)
  have sub: "fst ` set R2 \<subseteq> fst ` set R1" by (force simp: R1_def R2_def)
  have at: "at_name (fst p) R2 = by_rank (M2 (fst p))" if "p \<in> set m1" for p
  proof (cases "M2 (fst p) = []")
    case True
    have "fst p \<notin> fst ` set R2" using True by (auto simp: R2_def)
    then show ?thesis using True by (simp add: at_name_notin by_rank_def)
  next
    case False
    have "distinct (map fst (filter (\<lambda>p. M2 (fst p) \<noteq> []) m1))" using dm1 by (rule distinct_map_filter)
    moreover have "p \<in> set (filter (\<lambda>p. M2 (fst p) \<noteq> []) m1)" using that False by simp
    ultimately show ?thesis unfolding R2_def by (rule at_name_map)
  qed
  have res: "nodes_are_perfect_path_neighbors g left right =
      Inr (case verify_adjacency ?lb ?rb R1 R2 of None \<Rightarrow> False
           | Some r2' \<Rightarrow> list_all (\<lambda>p. snd p = []) r2')"
    using same
    by (simp add: nodes_are_perfect_path_neighbors_def ln rn Let_def m1_def[symmetric]
        m2_def[symmetric] fold split: option.splits)
  have "(case verify_adjacency ?lb ?rb R1 R2 of None \<Rightarrow> False
           | Some r2' \<Rightarrow> list_all (\<lambda>p. snd p = []) r2')
      \<longleftrightarrow> (\<forall>p \<in> set R1. verify_ranked ?lb ?rb (snd p) (at_name (fst p) R2) = Some [])"
    unfolding verify_adjacency_iff[OF dR1 dR2] using sub by blast
  also have "\<dots> \<longleftrightarrow> (\<forall>p \<in> set m1. verify_ranked ?lb ?rb (by_rank (snd p)) (by_rank (M2 (fst p))) = Some [])"
    by (simp add: R1_def at)
  also have "\<dots> \<longleftrightarrow> (\<forall>p \<in> set m1. consecutive ?lb ?rb (mappings_on ?ps ?i1 (fst p)) (mappings_on ?ps ?i2 (fst p)))"
  proof (rule ball_cong[OF refl])
    fix p assume p: "p \<in> set m1"
    then have in1: "fst p \<in> of_node ?ps ?i1" unfolding names by (rule imageI)
    then have in2: "fst p \<in> of_node ?ps ?i2" using same by simp
    have e1: "map snd (snd p) = mappings_on ?ps ?i1 (fst p)"
      using node_mappings_entry(2)[OF d] p unfolding m1_def by blast
    have e2: "map snd (M2 (fst p)) = mappings_on ?ps ?i2 (fst p)"
      unfolding M2_def m2_def by (rule node_mappings_lookup[OF d])
    have d1: "distinct (map (m_rank \<circ> snd) (snd p))"
      using r1 in1 e1 by (simp add: ranks_distinct_def flip: map_map)
    have d2: "distinct (map (m_rank \<circ> snd) (M2 (fst p)))"
      using r2 in2 e2 by (simp add: ranks_distinct_def flip: map_map)
    show "verify_ranked ?lb ?rb (by_rank (snd p)) (by_rank (M2 (fst p))) = Some []
        \<longleftrightarrow> consecutive ?lb ?rb (mappings_on ?ps ?i1 (fst p)) (mappings_on ?ps ?i2 (fst p))"
      unfolding verify_ranked_consecutive[OF d1 d2] e1 e2 ..
  qed
  also have "\<dots> \<longleftrightarrow> consecutive_on_paths ?ps ?lb ?rb ?i1 ?i2"
    by (simp add: consecutive_on_paths_def names)
  finally show ?thesis using same by (simp add: res same_path_names_def)
qed

section \<open>The conditions that the perfect-path-neighbour test checks\<close>


text \<open>
  C1, as the code has it. For two traversals of nodes of a graph whose path names are
  distinct and in which the mappings of a path on each of the two nodes have distinct
  ranks, \<^verbatim>\<open>nodes_are_perfect_path_neighbors\<close> returns true exactly when (a) the two nodes
  carry the same set of path names and (b) for every such path the mappings on the two
  nodes are consecutive in rank and consistently oriented with the two traversals.
  Whether the mappings cover their nodes (c) is not looked at: that check is commented
  out in the code.
\<close>

theorem perfect_path_neighbors_decides:
  assumes "node_at g (fst left) = Inr ln" and "node_at g (fst right) = Inr rn"
    and "distinct (map fst (path_list (paths g)))"
    and "ranks_distinct (paths g) (node_id ln)" and "ranks_distinct (paths g) (node_id rn)"
  shows "nodes_are_perfect_path_neighbors g left right =
     Inr (same_path_names (paths g) (node_id ln) (node_id rn)
          \<and> consecutive_on_paths (paths g) (snd left) (snd right) (node_id ln) (node_id rn))"
  using assms by (rule neighbors_result)

lemma path_graph_neighbors:
  "node_at path_graph 0 = Inr \<lparr>node_id = 1, sequence = ''ACGT''\<rparr>"
  "node_at path_graph 1 = Inr \<lparr>node_id = 2, sequence = ''GGGA''\<rparr>"
  "distinct (map fst (path_list (paths path_graph)))"
  "ranks_distinct (paths path_graph) 1"
  "ranks_distinct (paths path_graph) 2"
  "same_path_names (paths path_graph) 1 2"
  "same_path_names (paths path_graph) 2 1"
  "consecutive_on_paths (paths path_graph) False False 1 2"
  "\<not> consecutive_on_paths (paths path_graph) False False 2 1"
  by code_simp+

theorem perfect_path_neighbors_decides_witness:
  "nodes_are_perfect_path_neighbors path_graph (0, False) (1, False) = Inr True
   \<and> nodes_are_perfect_path_neighbors path_graph (1, False) (0, False) = Inr False"
  using perfect_path_neighbors_decides[of path_graph "(0, False)"
      "\<lparr>node_id = 1, sequence = ''ACGT''\<rparr>" "(1, False)" "\<lparr>node_id = 2, sequence = ''GGGA''\<rparr>"]
    perfect_path_neighbors_decides[of path_graph "(1, False)"
      "\<lparr>node_id = 2, sequence = ''GGGA''\<rparr>" "(0, False)" "\<lparr>node_id = 1, sequence = ''ACGT''\<rparr>"]
  by (simp add: path_graph_neighbors del: One_nat_def)

text \<open>
  The claim as stated fails: the mapping of path P on node 1 covers two of its four
  bases, so (c) does not hold, and the test returns true.
\<close>

theorem perfect_neighbors_not_total_matches:
  "nodes_are_perfect_path_neighbors half_covered (0, False) (1, False) = Inr True
   \<and> mappings_on (paths half_covered) 1 ''P''
        = [\<lparr>m_node_id = 1, m_is_reverse = False, m_length = 2, m_rank = 1\<rparr>]
   \<and> mapping_is_total_match half_covered
        \<lparr>m_node_id = 1, m_is_reverse = False, m_length = 2, m_rank = 1\<rparr> = Inr False
   \<and> \<not> total_matches half_covered \<lparr>node_id = 1, sequence = ''ACGT''\<rparr>"
  by code_simp

section \<open>A reverse-strand walk that unfolding loses\<close>

text \<open>
  C8 at a concrete graph. In \<open>inversions\<close> the search of the reverse strand starts behind
  the two reversing edges, at node 4 and at node 5, both backward and at distance 0. Node
  2 backward is first met behind node 5, at distance 5, and is put in the queue with that
  distance; when it is met again behind nodes 4 and 3, at distance 2, it is already marked
  as queued and its distance stays 5. With \<open>max_length = 7\<close> its distance through,
  \<open>5 + 3\<close>, stops the search there, so node 1 gets no reverse copy. The walk over node 4
  forward, then 4, 3, 2 and 1 backward is a walk of the graph; its part on the reverse
  strand spells \<open>TTTTTC\<close>, six bases. No node of the unfolded graph has a \<open>C\<close>, so no
  walk of the unfolded graph spells it. Without node 5 the same call makes the copy.
\<close>

theorem unfold_misses_reverse_walk:
  "is_walk inversions [(3, False), (3, True), (2, True), (1, True), (0, True)]
   \<and> walk_sequence inversions [(3, True), (2, True), (1, True), (0, True)] = ''TTTTTC''
   \<and> unfold 20 inversions 7 Map.empty \<noteq> None
   \<and> map sequence (unfolded_nodes (unfold 20 inversions 7 Map.empty))
        = [''G'', ''AAA'', ''A'', ''AAAAA'', ''A'', ''TTTTT'', ''T'', ''TTT'', ''T'']
   \<and> map sequence (unfolded_nodes (unfold 20 one_inversion 7 Map.empty))
        = [''G'', ''AAA'', ''A'', ''A'', ''T'', ''T'', ''TTT'', ''C'']"
  by code_simp

section \<open>Dividing a node and concatenating the parts again\<close>

text \<open>
  C2 at two concrete graphs. In the scenario of the claim the round trip gives what the
  claim says: dividing the node \<open>AAAACCCC\<close> at offset 4 and concatenating the two parts
  leaves one node with that sequence and path P with one mapping of length 8 and rank
  1. In \<open>ids_in_use\<close> node 1 has no edge and no mapping, but the id counter is at 2 while
  the ids 2 and 3 are in use: the two parts of node 1 get the ids 2 and 3, the id index
  then points at the parts, the edge that would chain them is the edge between the old
  nodes 2 and 3, and destroying the parts destroys that edge and erases both ids from
  the id index. The graph returned has the three nodes and no edge.
\<close>

theorem round_trip_loses_edge:
  "map snd (graph_node (returned_graph (divide_then_concat whole_node_path 0 [4])))
      = [\<lparr>node_id = 4, sequence = ''AAAACCCC''\<rparr>]
   \<and> path_mappings (returned_graph (divide_then_concat whole_node_path 0 [4]))
      = [(''P'', [\<lparr>m_node_id = 4, m_is_reverse = False, m_length = 8, m_rank = 1\<rparr>])]
   \<and> map snd (graph_node ids_in_use)
      = [\<lparr>node_id = 1, sequence = ''ACGT''\<rparr>, \<lparr>node_id = 2, sequence = ''GG''\<rparr>,
         \<lparr>node_id = 3, sequence = ''T''\<rparr>]
   \<and> map snd (graph_edge ids_in_use)
      = [\<lparr>e_from = 2, e_to = 3, from_start = False, to_end = False\<rparr>]
   \<and> edges_start ids_in_use 1 = [] \<and> edges_end ids_in_use 1 = []
   \<and> \<not> has_node_mapping (paths ids_in_use) 1
   \<and> \<not> isl (divide_then_concat ids_in_use 0 [2])
   \<and> map snd (graph_node (returned_graph (divide_then_concat ids_in_use 0 [2])))
      = [\<lparr>node_id = 4, sequence = ''ACGT''\<rparr>, \<lparr>node_id = 2, sequence = ''GG''\<rparr>,
         \<lparr>node_id = 3, sequence = ''T''\<rparr>]
   \<and> graph_edge (returned_graph (divide_then_concat ids_in_use 0 [2])) = []
   \<and> \<not> has_node (returned_graph (divide_then_concat ids_in_use 0 [2])) 2
   \<and> \<not> has_node (returned_graph (divide_then_concat ids_in_use 0 [2])) 3"
  by code_simp


end
